(* ===== verification/Prelude.thy ===== *)
theory Prelude
  imports Main "HOL-Library.Word"
begin

text \<open>
  Shared vocabulary of the development.

  \<^item> Go's machine types that the packages under \<^verbatim>\<open>src/\<close> use: \<open>byte\<close> (\<^verbatim>\<open>uint8\<close>),
    \<open>u16\<close>, \<open>u32\<close> and \<open>u128\<close> as words of that width. Go's \<^verbatim>\<open>int\<close> and \<^verbatim>\<open>uint64\<close> hold
    only slice lengths, offsets and values read from one or two bytes in the code
    modelled here, so they are \<open>nat\<close> (or \<open>int\<close> where the code uses \<open>-1\<close>).
  \<^item> Go's strings are byte strings: \<open>string\<close> is a list of 8-bit characters.
  \<^item> A run-time panic (index out of range, nil dereference) is a value: \<open>outcome\<close>.
    An error return is \<open>'e + 'a\<close>, with \<open>Inl\<close> the error.
  \<^item> The collections \<open>decode_simps\<close>, \<open>cache_simps\<close> and \<open>step_simps\<close> hold the rewrite
    rules of the component theories.
\<close>

named_theorems decode_simps \<open>rewrite rules of the instruction decoder\<close>
named_theorems cache_simps \<open>rewrite rules of the address cache\<close>
named_theorems step_simps \<open>rewrite rules of the bytecode machines\<close>

type_synonym byte = "8 word"
type_synonym u16 = "16 word"
type_synonym u32 = "32 word"
type_synonym u128 = "128 word"

text \<open>The classifier index of an unmatched stream (\<^verbatim>\<open>src/sniffer/sniff.go\<close>).\<close>

definition NoMatch :: int where "NoMatch = -1"

subsection \<open>Panics\<close>

datatype 'a outcome = Panic | Done 'a

primrec obind :: "'a outcome \<Rightarrow> ('a \<Rightarrow> 'b outcome) \<Rightarrow> 'b outcome" where
  "obind Panic f = Panic"
| "obind (Done x) f = f x"

definition omap :: "('a \<Rightarrow> 'b) \<Rightarrow> 'a outcome \<Rightarrow> 'b outcome" where
  "omap f m = obind m (\<lambda>x. Done (f x))"

text \<open>Reading a slice: Go panics outside \<open>0..len-1\<close>.\<close>

definition slice_get :: "'a list \<Rightarrow> nat \<Rightarrow> 'a outcome" where
  "slice_get xs i = (if i < length xs then Done (xs ! i) else Panic)"

lemma obind_Done [simp]: "obind m Done = m"
  by (cases m) simp_all

lemma obind_assoc: "obind (obind m f) g = obind m (\<lambda>x. obind (f x) g)"
  by (cases m) simp_all

lemma obind_eq_Done: "obind m f = Done y \<longleftrightarrow> (\<exists>x. m = Done x \<and> f x = Done y)"
  by (cases m) simp_all

lemma obind_eq_Panic: "obind m f = Panic \<longleftrightarrow> m = Panic \<or> (\<exists>x. m = Done x \<and> f x = Panic)"
  by (cases m) simp_all

lemma omap_simps [simp]: "omap f Panic = Panic" "omap f (Done x) = Done (f x)"
  by (simp_all add: omap_def)

lemma slice_get_Done [simp]: "i < length xs \<Longrightarrow> slice_get xs i = Done (xs ! i)"
  by (simp add: slice_get_def)

lemma slice_get_eq_Done: "slice_get xs i = Done x \<longleftrightarrow> i < length xs \<and> xs ! i = x"
  by (auto simp: slice_get_def)

subsection \<open>Error returns\<close>

primrec ebind :: "'e + 'a \<Rightarrow> ('a \<Rightarrow> 'e + 'b) \<Rightarrow> 'e + 'b" where
  "ebind (Inl e) f = Inl e"
| "ebind (Inr x) f = f x"

lemma ebind_eq_Inr: "ebind m f = Inr y \<longleftrightarrow> (\<exists>x. m = Inr x \<and> f x = Inr y)"
  by (cases m) simp_all

text \<open>\<open>check c e\<close> is Go's \<^verbatim>\<open>if c { return e }\<close> in a function that otherwise goes on.\<close>

definition check :: "bool \<Rightarrow> 'e \<Rightarrow> 'e + unit" where
  "check c e = (if c then Inl e else Inr ())"

lemma check_eq_Inr [simp]: "check c e = Inr u \<longleftrightarrow> \<not> c"
  by (simp add: check_def)

lemma ebind_check_eq_Inr [simp]: "ebind (check c e) f = Inr y \<longleftrightarrow> \<not> c \<and> f () = Inr y"
  by (simp add: check_def)

text \<open>The first error of a loop over a slice, with the index of the element.\<close>

fun first_error :: "(nat \<Rightarrow> 'a \<Rightarrow> 'e + unit) \<Rightarrow> nat \<Rightarrow> 'a list \<Rightarrow> 'e + unit" where
  "first_error f i [] = Inr ()"
| "first_error f i (x # xs) = ebind (f i x) (\<lambda>_. first_error f (Suc i) xs)"

lemma first_error_ok:
  "first_error f i xs = Inr u \<longleftrightarrow> (\<forall>j < length xs. f (i + j) (xs ! j) = Inr ())"
proof (induction xs arbitrary: i)
  case Nil
  then show ?case by simp
next
  case (Cons x xs)
  have "first_error f i (x # xs) = Inr u \<longleftrightarrow>
      f i x = Inr () \<and> (\<forall>j < length xs. f (Suc i + j) (xs ! j) = Inr ())"
    using Cons.IH [of "Suc i"] by (auto simp: ebind_eq_Inr)
  also have "\<dots> \<longleftrightarrow> (\<forall>j < length (x # xs). f (i + j) ((x # xs) ! j) = Inr ())"
    by (auto simp: less_Suc_eq_0_disj nth_Cons split: nat.splits)
  finally show ?case .
qed

subsection \<open>Words\<close>

lemma byte_less [simp]: "unat (b :: byte) < 256"
  by (rule order_less_le_trans [OF unsigned_less]) simp

lemma byte_of_nat [simp]: "n < 256 \<Longrightarrow> unat (of_nat n :: byte) = n"
  by (simp add: unat_of_nat)

lemma u16_of_nat [simp]: "n < 65536 \<Longrightarrow> unat (of_nat n :: u16) = n"
  by (simp add: unat_of_nat)

lemma u16_less [simp]: "unat (w :: u16) < 65536"
  by (rule order_less_le_trans [OF unsigned_less]) simp

subsection \<open>Lists\<close>

lemma nth_drop_head: "i < length xs \<Longrightarrow> drop i xs = xs ! i # drop (Suc i) xs"
  by (simp add: Cons_nth_drop_Suc)

lemma list_all_nthI: "(\<And>i. i < length xs \<Longrightarrow> P (xs ! i)) \<Longrightarrow> x \<in> set xs \<Longrightarrow> P x"
  by (auto simp: in_set_conv_nth)

end
