(* ===== verification/GoStrings.thy ===== *)
theory GoStrings
  imports Prelude
begin

text \<open>
  The functions of Go's \<^verbatim>\<open>strings\<close> and \<^verbatim>\<open>strconv\<close> packages that the modelled code calls,
  on byte strings.

  Case mapping. \<open>toUpper\<close> and \<open>toLower\<close> are exact wherever the result is ASCII: they map the
  ASCII letters and the only non-ASCII runes whose simple mapping is ASCII
  (U+0131 and U+017F have the upper case \<^verbatim>\<open>I\<close> and \<^verbatim>\<open>S\<close>; U+0130 and U+212A have the lower case
  \<^verbatim>\<open>i\<close> and \<^verbatim>\<open>k\<close>). Every other non-ASCII byte is kept. The code compares the results with
  ASCII words only, for which this makes no difference.

  White space. \<open>space_runes\<close> lists the UTF-8 encodings of every rune for which
  \<^verbatim>\<open>unicode.IsSpace\<close> holds, so \<open>trimSpace\<close> and \<open>strFields\<close> are exact.
\<close>

subsection \<open>Prefixes, suffixes, cut sets\<close>

fun hasPrefix :: "string \<Rightarrow> string \<Rightarrow> bool" where
  "hasPrefix s [] = True"
| "hasPrefix [] (p # ps) = False"
| "hasPrefix (c # s) (p # ps) = (c = p \<and> hasPrefix s ps)"

definition hasSuffix :: "string \<Rightarrow> string \<Rightarrow> bool" where
  "hasSuffix s p = hasPrefix (rev s) (rev p)"

definition trimPrefix :: "string \<Rightarrow> string \<Rightarrow> string" where
  "trimPrefix s p = (if hasPrefix s p then drop (length p) s else s)"

definition trimSuffix :: "string \<Rightarrow> string \<Rightarrow> string" where
  "trimSuffix s p = (if hasSuffix s p then take (length s - length p) s else s)"

definition trimLeft :: "string \<Rightarrow> string \<Rightarrow> string" where
  "trimLeft s cs = dropWhile (\<lambda>c. c \<in> set cs) s"

definition trimRight :: "string \<Rightarrow> string \<Rightarrow> string" where
  "trimRight s cs = rev (dropWhile (\<lambda>c. c \<in> set cs) (rev s))"

definition trim :: "string \<Rightarrow> string \<Rightarrow> string" where
  "trim s cs = trimRight (trimLeft s cs) cs"

subsection \<open>Searching\<close>

text \<open>\<^verbatim>\<open>strings.Cut\<close> with a one-byte separator: the parts before and after its first occurrence.\<close>

fun cut_at :: "char \<Rightarrow> string \<Rightarrow> (string \<times> string) option" where
  "cut_at d [] = None"
| "cut_at d (c # s) =
     (if c = d then Some ([], s)
      else map_option (\<lambda>(a, b). (c # a, b)) (cut_at d s))"

text \<open>The same at the last occurrence (\<^verbatim>\<open>LastIndexByteString\<close>).\<close>

definition cut_last :: "char \<Rightarrow> string \<Rightarrow> (string \<times> string) option" where
  "cut_last d s = map_option (\<lambda>(a, b). (rev b, rev a)) (cut_at d (rev s))"

fun split_on :: "char \<Rightarrow> string \<Rightarrow> string list" where
  "split_on d [] = [[]]"
| "split_on d (c # s) =
     (if c = d then [] # split_on d s
      else (case split_on d s of [] \<Rightarrow> [[c]] | l # ls \<Rightarrow> (c # l) # ls))"

definition containsAny :: "string \<Rightarrow> string \<Rightarrow> bool" where
  "containsAny s cs = (\<exists>c \<in> set s. c \<in> set cs)"

subsection \<open>Case\<close>

definition upper_ascii :: "char \<Rightarrow> char" where
  "upper_ascii c =
     (let n = (of_char c :: nat) in if 97 \<le> n \<and> n \<le> 122 then char_of (n - 32) else c)"

definition lower_ascii :: "char \<Rightarrow> char" where
  "lower_ascii c =
     (let n = (of_char c :: nat) in if 65 \<le> n \<and> n \<le> 90 then char_of (n + 32) else c)"

fun toUpper :: "string \<Rightarrow> string" where
  "toUpper [] = []"
| "toUpper (c # s) =
     (if hasPrefix (c # s) [CHR 0xC4, CHR 0xB1] then CHR ''I'' # toUpper (tl s)
      else if hasPrefix (c # s) [CHR 0xC5, CHR 0xBF] then CHR ''S'' # toUpper (tl s)
      else upper_ascii c # toUpper s)"

fun toLower :: "string \<Rightarrow> string" where
  "toLower [] = []"
| "toLower (c # s) =
     (if hasPrefix (c # s) [CHR 0xC4, CHR 0xB0] then CHR ''i'' # toLower (tl s)
      else if hasPrefix (c # s) [CHR 0xE2, CHR 0x84, CHR 0xAA] then CHR ''k'' # toLower (tl (tl s))
      else lower_ascii c # toLower s)"

text \<open>
  \<^verbatim>\<open>strings.EqualFold\<close>. The folding orbits with an ASCII member are exact
  (\<^verbatim>\<open>K k U+212A\<close> and \<^verbatim>\<open>S s U+017F\<close>); other non-ASCII runes fold to themselves only.
\<close>

fun fold_ascii :: "string \<Rightarrow> string" where
  "fold_ascii [] = []"
| "fold_ascii (c # s) =
     (if hasPrefix (c # s) [CHR 0xC5, CHR 0xBF] then CHR ''s'' # fold_ascii (tl s)
      else if hasPrefix (c # s) [CHR 0xE2, CHR 0x84, CHR 0xAA] then CHR ''k'' # fold_ascii (tl (tl s))
      else lower_ascii c # fold_ascii s)"

definition equalFold :: "string \<Rightarrow> string \<Rightarrow> bool" where
  "equalFold s t = (fold_ascii s = fold_ascii t)"

subsection \<open>White space\<close>

definition space_runes :: "string list" where
  "space_runes =
     [[CHR 0x09], [CHR 0x0A], [CHR 0x0B], [CHR 0x0C], [CHR 0x0D], [CHR 0x20],
      [CHR 0xC2, CHR 0x85], [CHR 0xC2, CHR 0xA0],
      [CHR 0xE1, CHR 0x9A, CHR 0x80],
      [CHR 0xE2, CHR 0x80, CHR 0x80], [CHR 0xE2, CHR 0x80, CHR 0x81],
      [CHR 0xE2, CHR 0x80, CHR 0x82], [CHR 0xE2, CHR 0x80, CHR 0x83],
      [CHR 0xE2, CHR 0x80, CHR 0x84], [CHR 0xE2, CHR 0x80, CHR 0x85],
      [CHR 0xE2, CHR 0x80, CHR 0x86], [CHR 0xE2, CHR 0x80, CHR 0x87],
      [CHR 0xE2, CHR 0x80, CHR 0x88], [CHR 0xE2, CHR 0x80, CHR 0x89],
      [CHR 0xE2, CHR 0x80, CHR 0x8A], [CHR 0xE2, CHR 0x80, CHR 0xA8],
      [CHR 0xE2, CHR 0x80, CHR 0xA9], [CHR 0xE2, CHR 0x80, CHR 0xAF],
      [CHR 0xE2, CHR 0x81, CHR 0x9F], [CHR 0xE3, CHR 0x80, CHR 0x80]]"

text \<open>The length of the space rune that \<open>s\<close> starts with, 0 when there is none.\<close>

definition space_len :: "string list \<Rightarrow> string \<Rightarrow> nat" where
  "space_len rs s = (case find (hasPrefix s) rs of None \<Rightarrow> 0 | Some r \<Rightarrow> length r)"

fun skip_spaces :: "string list \<Rightarrow> nat \<Rightarrow> string \<Rightarrow> string" where
  "skip_spaces rs 0 s = s"
| "skip_spaces rs (Suc k) s =
     (if space_len rs s = 0 then s else skip_spaces rs k (drop (space_len rs s) s))"

definition trimSpace :: "string \<Rightarrow> string" where
  "trimSpace s =
     (let l = skip_spaces space_runes (length s) s;
          r = skip_spaces (map rev space_runes) (length l) (rev l)
      in rev r)"

text \<open>\<^verbatim>\<open>strings.Fields\<close>: \<open>cur\<close> is the field being read, backwards; \<open>skip\<close> counts the
  remaining bytes of a space rune.\<close>

fun fields_from :: "string \<Rightarrow> nat \<Rightarrow> string \<Rightarrow> string list" where
  "fields_from cur skip [] = (if cur = [] then [] else [rev cur])"
| "fields_from cur (Suc skip) (c # s) = fields_from cur skip s"
| "fields_from cur 0 (c # s) =
     (let n = space_len space_runes (c # s) in
      if n = 0 then fields_from (c # cur) 0 s
      else (if cur = [] then [] else [rev cur]) @ fields_from [] (n - 1) s)"

definition strFields :: "string \<Rightarrow> string list" where
  "strFields s = fields_from [] 0 s"

subsection \<open>Numbers\<close>

definition is_digit :: "char \<Rightarrow> bool" where
  "is_digit c = (let n = (of_char c :: nat) in 48 \<le> n \<and> n \<le> 57)"

definition digit_val :: "char \<Rightarrow> nat" where
  "digit_val c = of_char c - 48"

fun decimal :: "nat \<Rightarrow> string \<Rightarrow> nat" where
  "decimal acc [] = acc"
| "decimal acc (c # s) = decimal (acc * 10 + digit_val c) s"

text \<open>\<^verbatim>\<open>strconv.ParseUint(s, 10, bits)\<close>: digits only, at least one, and no overflow.\<close>

definition parseUint :: "nat \<Rightarrow> string \<Rightarrow> nat option" where
  "parseUint bits s =
     (if s \<noteq> [] \<and> list_all is_digit s \<and> decimal 0 s < 2 ^ bits then Some (decimal 0 s) else None)"

fun digits_rev :: "nat \<Rightarrow> string" where
  "digits_rev n = (if n < 10 then [char_of (48 + n)]
     else char_of (48 + n mod 10 :: nat) # digits_rev (n div 10))"

definition itoa :: "nat \<Rightarrow> string" where
  "itoa n = rev (digits_rev n)"

declare digits_rev.simps [simp del]

subsection \<open>Facts\<close>

lemma hasPrefix_iff: "hasPrefix s p \<longleftrightarrow> (\<exists>t. s = p @ t)"
  by (induction s p rule: hasPrefix.induct) auto

lemma hasSuffix_iff: "hasSuffix s p \<longleftrightarrow> (\<exists>t. s = t @ p)"
proof
  assume "hasSuffix s p"
  then obtain t where "rev s = rev p @ t" by (auto simp: hasSuffix_def hasPrefix_iff)
  then have "s = rev t @ p" by (metis rev_append rev_rev_ident)
  then show "\<exists>t. s = t @ p" ..
next
  assume "\<exists>t. s = t @ p"
  then show "hasSuffix s p" by (auto simp: hasSuffix_def hasPrefix_iff)
qed

lemma parseUint_bound: "parseUint bits s = Some n \<Longrightarrow> n < 2 ^ bits"
  by (auto simp: parseUint_def split: if_splits)

lemma cut_at_Some: "cut_at d s = Some (a, b) \<longleftrightarrow> s = a @ d # b \<and> d \<notin> set a"
proof (induction s arbitrary: a)
  case Nil
  then show ?case by simp
next
  case (Cons c s)
  show ?case
  proof (cases a)
    case Nil
    then show ?thesis by auto
  next
    case a: (Cons x xs)
    then show ?thesis using Cons.IH [of xs] by auto
  qed
qed

lemma cut_at_None: "cut_at d s = None \<longleftrightarrow> d \<notin> set s"
  by (induction s) auto

lemma cut_last_Some: "cut_last d s = Some (a, b) \<longleftrightarrow> s = a @ d # b \<and> d \<notin> set b"
proof -
  have "cut_last d s = Some (a, b) \<longleftrightarrow> cut_at d (rev s) = Some (rev b, rev a)"
    by (cases "cut_at d (rev s)") (auto simp: cut_last_def)
  also have "\<dots> \<longleftrightarrow> rev s = rev b @ d # rev a \<and> d \<notin> set b"
    by (simp add: cut_at_Some)
  also have "rev s = rev b @ d # rev a \<longleftrightarrow> s = a @ d # b"
    by (metis append.assoc append_Cons append_Nil rev.simps(2) rev_append rev_rev_ident)
  finally show ?thesis .
qed

lemma cut_last_None: "cut_last d s = None \<longleftrightarrow> d \<notin> set s"
  by (simp add: cut_last_def cut_at_None)

lemma dropWhile_no_cut: "set s \<inter> set cs = {} \<Longrightarrow> dropWhile (\<lambda>c. c \<in> set cs) s = s"
  by (cases s) auto

lemma trim_no_cut: "set s \<inter> set cs = {} \<Longrightarrow> trim s cs = s"
  by (simp add: trim_def trimLeft_def trimRight_def dropWhile_no_cut)

end
