(* ===== verification/NetAddr.thy ===== *)
theory NetAddr
  imports GoStrings
begin

unbundle bit_operations_syntax

text \<open>
  Addresses of Go's standard library as the modelled packages use them:
  \<^verbatim>\<open>netip.Addr\<close> and \<^verbatim>\<open>netip.Prefix\<close> with their parsers and printers, \<^verbatim>\<open>net.IP\<close>,
  \<^verbatim>\<open>net.Addr\<close>, \<^verbatim>\<open>net.SplitHostPort\<close> and \<^verbatim>\<open>net.JoinHostPort\<close>.

  The zero \<^verbatim>\<open>netip.Addr\<close> is \<open>AddrZero\<close>, an IPv4 address a 32-bit word, an IPv6 address a
  128-bit word and its zone (empty for none). A prefix keeps \<^verbatim>\<open>Bits()\<close> as an \<open>int\<close>, \<open>-1\<close>
  when it is invalid. The error values of the parsers are not inspected by the code, so they
  are \<open>None\<close>.
\<close>

datatype addr = AddrZero | V4 u32 | V6 u128 string

record prefix =
  pfx_addr :: addr
  pfx_bits :: int

fun isValid :: "addr \<Rightarrow> bool" where
  "isValid AddrZero = False"
| "isValid _ = True"

fun is4 :: "addr \<Rightarrow> bool" where
  "is4 (V4 _) = True"
| "is4 _ = False"

fun is6 :: "addr \<Rightarrow> bool" where
  "is6 (V6 _ _) = True"
| "is6 _ = False"

fun is4In6 :: "addr \<Rightarrow> bool" where
  "is4In6 (V6 a _) = (drop_bit 32 a = 0xffff)"
| "is4In6 _ = False"

fun unmap :: "addr \<Rightarrow> addr" where
  "unmap (V6 a z) = (if drop_bit 32 a = 0xffff then V4 (ucast a) else V6 a z)"
| "unmap a = a"

fun withoutZone :: "addr \<Rightarrow> addr" where
  "withoutZone (V6 a z) = V6 a []"
| "withoutZone a = a"

fun addr_zone :: "addr \<Rightarrow> string" where
  "addr_zone (V6 a z) = z"
| "addr_zone _ = []"

fun bitLen :: "addr \<Rightarrow> nat" where
  "bitLen AddrZero = 0"
| "bitLen (V4 _) = 32"
| "bitLen (V6 _ _) = 128"

subsection \<open>Prefixes\<close>

definition zeroPrefix :: prefix where
  "zeroPrefix = \<lparr>pfx_addr = AddrZero, pfx_bits = -1\<rparr>"

definition pfx_isValid :: "prefix \<Rightarrow> bool" where
  "pfx_isValid p = (0 \<le> pfx_bits p)"

definition prefixFrom :: "addr \<Rightarrow> int \<Rightarrow> prefix" where
  "prefixFrom a bits =
     \<lparr>pfx_addr = withoutZone a,
      pfx_bits = (if isValid a \<and> 0 \<le> bits \<and> bits \<le> int (bitLen a) then bits else -1)\<rparr>"

text \<open>The mask of the top \<open>n\<close> bits of a 128-bit address.\<close>

definition mask6 :: "nat \<Rightarrow> u128" where
  "mask6 n = NOT (mask (128 - n))"

definition pfx_contains :: "prefix \<Rightarrow> addr \<Rightarrow> bool" where
  "pfx_contains p a =
     (pfx_isValid p \<and> addr_zone a = [] \<and>
      (case (pfx_addr p, a) of
         (V4 n, V4 x) \<Rightarrow> drop_bit (32 - nat (pfx_bits p)) (x XOR n) = 0
       | (V6 n _, V6 x _) \<Rightarrow> (x XOR n) AND mask6 (nat (pfx_bits p)) = 0
       | _ \<Rightarrow> False))"

fun addr_masked :: "addr \<Rightarrow> nat \<Rightarrow> addr" where
  "addr_masked AddrZero b = AddrZero"
| "addr_masked (V4 a) b = V4 (a AND NOT (mask (32 - b)))"
| "addr_masked (V6 a z) b = V6 (a AND mask6 b) []"

definition pfx_masked :: "prefix \<Rightarrow> prefix" where
  "pfx_masked p =
     (if pfx_bits p < 0 then zeroPrefix
      else prefixFrom (addr_masked (pfx_addr p) (nat (pfx_bits p))) (pfx_bits p))"

subsection \<open>Parsing\<close>

text \<open>\<open>parseIPv4Fields\<close>: \<open>fs\<close> are the octets read so far, \<open>val\<close> the value and \<open>digLen\<close> the
  number of digits of the current one, \<open>prev\<close> the preceding byte.\<close>

fun parseIPv4Fields :: "nat list \<Rightarrow> nat \<Rightarrow> nat \<Rightarrow> char option \<Rightarrow> string \<Rightarrow> nat list option" where
  "parseIPv4Fields fs val digLen prev [] =
     (if length fs < 3 then None else Some (fs @ [val]))"
| "parseIPv4Fields fs val digLen prev (c # s) =
     (if is_digit c then
        (if digLen = 1 \<and> val = 0 then None
         else let v = val * 10 + digit_val c in
              if v > 255 then None else parseIPv4Fields fs v (Suc digLen) (Some c) s)
      else if c = CHR ''.'' then
        (if prev = None \<or> s = [] \<or> prev = Some (CHR ''.'') then None
         else if length fs = 3 then None
         else parseIPv4Fields (fs @ [val]) 0 0 (Some c) s)
      else None)"

text \<open>Big-endian bytes as a word.\<close>

definition word_of_bytes :: "nat list \<Rightarrow> 'a::len word" where
  "word_of_bytes bs = foldl (\<lambda>acc b. acc * 256 + of_nat b) 0 bs"

definition parseIPv4 :: "string \<Rightarrow> addr option" where
  "parseIPv4 s = map_option (\<lambda>fs. V4 (word_of_bytes fs)) (parseIPv4Fields [] 0 0 None s)"

definition hex_val :: "char \<Rightarrow> nat option" where
  "hex_val c = (let n = (of_char c :: nat) in
     if 48 \<le> n \<and> n \<le> 57 then Some (n - 48)
     else if 97 \<le> n \<and> n \<le> 102 then Some (n - 87)
     else if 65 \<le> n \<and> n \<le> 70 then Some (n - 55)
     else None)"

text \<open>One hexadecimal group: the number of digits, the value and the rest. A fifth digit fails.\<close>

fun hex_group :: "nat \<Rightarrow> nat \<Rightarrow> string \<Rightarrow> (nat \<times> nat \<times> string) option" where
  "hex_group off acc [] = Some (off, acc, [])"
| "hex_group off acc (c # s) =
     (case hex_val c of
        None \<Rightarrow> Some (off, acc, c # s)
      | Some v \<Rightarrow> if off > 3 then None else hex_group (Suc off) (acc * 16 + v) s)"

text \<open>
  The group loop of \<^verbatim>\<open>parseIPv6\<close>. \<open>ip\<close> holds the bytes read so far (the loop's \<^verbatim>\<open>i\<close> is its
  length), \<open>ell\<close> the position of \<^verbatim>\<open>::\<close>. At most eight groups are read, so eight units of
  fuel are enough: the loop's guard \<^verbatim>\<open>i < 16\<close> fails after them, which is what running out
  of fuel returns.
\<close>

fun ipv6_groups :: "nat \<Rightarrow> nat list \<Rightarrow> nat option \<Rightarrow> string \<Rightarrow> (nat list \<times> nat option \<times> string) option" where
  "ipv6_groups 0 ip ell s = Some (ip, ell, s)"
| "ipv6_groups (Suc k) ip ell s =
     (case hex_group 0 0 s of
        None \<Rightarrow> None
      | Some (off, acc, rest) \<Rightarrow>
          if off = 0 then None
          else if rest \<noteq> [] \<and> hd rest = CHR ''.'' then
            (if ell = None \<and> length ip \<noteq> 12 then None
             else if length ip + 4 > 16 then None
             else map_option (\<lambda>fs. (ip @ fs, ell, [])) (parseIPv4Fields [] 0 0 None s))
          else
            (let ip' = ip @ [acc div 256, acc mod 256] in
             case rest of
               [] \<Rightarrow> Some (ip', ell, [])
             | c # s1 \<Rightarrow>
                 if c \<noteq> CHR '':'' then None
                 else (case s1 of
                         [] \<Rightarrow> None
                       | d # s2 \<Rightarrow>
                           if d = CHR '':'' then
                             (if ell \<noteq> None then None
                              else if s2 = [] then Some (ip', Some (length ip'), [])
                              else ipv6_groups k ip' (Some (length ip')) s2)
                           else ipv6_groups k ip' ell s1)))"

definition parseIPv6 :: "string \<Rightarrow> addr option" where
  "parseIPv6 input =
     (case (case cut_at (CHR ''%'') input of None \<Rightarrow> Some (input, [])
            | Some (a, z) \<Rightarrow> if z = [] then None else Some (a, z)) of
        None \<Rightarrow> None
      | Some (s, zone) \<Rightarrow>
          let lead = hasPrefix s ''::'';
              s' = (if lead then drop 2 s else s)
          in if lead \<and> s' = [] then Some (V6 0 zone)
             else (case ipv6_groups 8 [] (if lead then Some 0 else None) s' of
                     None \<Rightarrow> None
                   | Some (ip, ell, rest) \<Rightarrow>
                       if rest \<noteq> [] then None
                       else if length ip < 16 then
                         (case ell of
                            None \<Rightarrow> None
                          | Some e \<Rightarrow>
                              Some (V6 (word_of_bytes
                                (take e ip @ replicate (16 - length ip) 0 @ drop e ip)) zone))
                       else if ell \<noteq> None then None
                       else Some (V6 (word_of_bytes ip) zone)))"

text \<open>\<^verbatim>\<open>netip.ParseAddr\<close> looks for the first of the three bytes that decides the family.\<close>

fun parseAddr_scan :: "string \<Rightarrow> string \<Rightarrow> addr option" where
  "parseAddr_scan s [] = None"
| "parseAddr_scan s (c # r) =
     (if c = CHR ''.'' then parseIPv4 s
      else if c = CHR '':'' then parseIPv6 s
      else if c = CHR ''%'' then None
      else parseAddr_scan s r)"

definition parseAddr :: "string \<Rightarrow> addr option" where
  "parseAddr s = parseAddr_scan s s"

definition parsePrefix :: "string \<Rightarrow> prefix option" where
  "parsePrefix s =
     (case cut_last (CHR ''/'') s of
        None \<Rightarrow> None
      | Some (a, bs) \<Rightarrow>
          (case parseAddr a of
             None \<Rightarrow> None
           | Some ip \<Rightarrow>
               if addr_zone ip \<noteq> [] then None
               else if length bs > 1 \<and> (hd bs = CHR ''0'' \<or> \<not> is_digit (hd bs)) then None
               else if bs = [] \<or> \<not> list_all is_digit bs then None
               else if decimal 0 bs > bitLen ip then None
               else Some (prefixFrom ip (int (decimal 0 bs)))))"

subsection \<open>Printing\<close>

definition octets4 :: "u32 \<Rightarrow> nat list" where
  "octets4 a = map (\<lambda>i. unat (drop_bit (8 * (3 - i)) a AND 255)) [0, 1, 2, 3]"

definition string4 :: "u32 \<Rightarrow> string" where
  "string4 a = (case octets4 a of
     [w, x, y, z] \<Rightarrow> itoa w @ ''.'' @ itoa x @ ''.'' @ itoa y @ ''.'' @ itoa z | _ \<Rightarrow> [])"

definition groups6 :: "u128 \<Rightarrow> nat list" where
  "groups6 a = map (\<lambda>i. unat (drop_bit (16 * (7 - i)) a AND 0xffff)) [0, 1, 2, 3, 4, 5, 6, 7]"

definition hex_digit :: "nat \<Rightarrow> char" where
  "hex_digit n = char_of (if n < 10 then 48 + n else 87 + n)"

text \<open>\<^verbatim>\<open>appendHex\<close>: no leading zeros.\<close>

definition hex16 :: "nat \<Rightarrow> string" where
  "hex16 x =
     (if x \<ge> 4096 then [hex_digit (x div 4096)] else []) @
     (if x \<ge> 256 then [hex_digit (x div 256 mod 16)] else []) @
     (if x \<ge> 16 then [hex_digit (x div 16 mod 16)] else []) @
     [hex_digit (x mod 16)]"

text \<open>The run of zeros that \<^verbatim>\<open>::\<close> replaces: the first longest one of length at least two,
  as start and end; \<open>(8, 8)\<close> for none.\<close>

fun zero_run :: "nat \<Rightarrow> nat list \<Rightarrow> nat \<times> nat \<Rightarrow> nat \<times> nat" where
  "zero_run i [] best = best"
| "zero_run i (g # gs) best =
     (let l = length (takeWhile (\<lambda>x. x = 0) (g # gs)) in
      zero_run (Suc i) gs
        (if l \<ge> 2 \<and> l > snd best - fst best then (i, i + l) else best))"

fun groups_text :: "nat \<Rightarrow> nat list \<Rightarrow> nat \<times> nat \<Rightarrow> string" where
  "groups_text i [] run = []"
| "groups_text i (g # gs) run =
     (if fst run < snd run \<and> i = fst run then ''::'' @ groups_text (Suc i) gs run
      else if fst run < i \<and> i < snd run then groups_text (Suc i) gs run
      else (if i > 0 \<and> \<not> (fst run < snd run \<and> i = snd run) then '':'' else []) @ hex16 g
           @ groups_text (Suc i) gs run)"

definition string6 :: "u128 \<Rightarrow> string" where
  "string6 a = groups_text 0 (groups6 a) (zero_run 0 (groups6 a) (8, 8))"

fun addr_string :: "addr \<Rightarrow> string" where
  "addr_string AddrZero = ''invalid IP''"
| "addr_string (V4 a) = string4 a"
| "addr_string (V6 a z) =
     (if drop_bit 32 a = 0xffff then ''::ffff:'' @ string4 (ucast a) else string6 a)
     @ (if z = [] then [] else ''%'' @ z)"

subsection \<open>net.IP and net.Addr\<close>

type_synonym net_ip = "byte list"

definition ip_to4 :: "net_ip \<Rightarrow> net_ip option" where
  "ip_to4 ip =
     (if length ip = 4 then Some ip
      else if length ip = 16 \<and> list_all (\<lambda>b. b = 0) (take 10 ip) \<and> ip ! 10 = 0xff \<and> ip ! 11 = 0xff
           then Some (drop 12 ip)
      else None)"

definition addrFromSlice :: "net_ip \<Rightarrow> addr option" where
  "addrFromSlice ip =
     (if length ip = 4 then Some (V4 (word_of_bytes (map unat ip)))
      else if length ip = 16 then Some (V6 (word_of_bytes (map unat ip)) [])
      else None)"

definition ip_string :: "net_ip \<Rightarrow> string" where
  "ip_string ip =
     (if ip = [] then ''<nil>''
      else if length ip \<noteq> 4 \<and> length ip \<noteq> 16 then
        ''?'' @ concat (map (\<lambda>b. [hex_digit (unat b div 16), hex_digit (unat b mod 16)]) ip)
      else (case ip_to4 ip of
              Some p4 \<Rightarrow> string4 (word_of_bytes (map unat p4))
            | None \<Rightarrow> addr_string (V6 (word_of_bytes (map unat ip)) [])))"

text \<open>
  A non-nil \<^verbatim>\<open>net.Addr\<close>: the three concrete types the code switches on, and any other
  implementation, of which it uses only \<^verbatim>\<open>String()\<close>.
\<close>

datatype net_addr =
    TCPAddr net_ip int string
  | UDPAddr net_ip int string
  | IPAddr net_ip string
  | OtherAddr string

subsection \<open>host:port\<close>

text \<open>\<^verbatim>\<open>net.SplitHostPort\<close>.\<close>

definition splitHostPort_net :: "string \<Rightarrow> (string \<times> string) option" where
  "splitHostPort_net hp =
     (case cut_last (CHR '':'') hp of
        None \<Rightarrow> None
      | Some (pre, port) \<Rightarrow>
          if hd hp = CHR ''['' then
            (case cut_at (CHR '']'') hp of
               None \<Rightarrow> None
             | Some (opened, closed) \<Rightarrow>
                 if Suc (length opened) \<noteq> length pre then None
                 else if CHR ''['' \<in> set (tl hp) then None
                 else if CHR '']'' \<in> set closed then None
                 else Some (tl opened, port))
          else if CHR '':'' \<in> set pre then None
          else if CHR ''['' \<in> set hp \<or> CHR '']'' \<in> set hp then None
          else Some (pre, port))"

text \<open>\<^verbatim>\<open>net.JoinHostPort\<close>.\<close>

definition joinHostPort :: "string \<Rightarrow> string \<Rightarrow> string" where
  "joinHostPort host port =
     (if CHR '':'' \<in> set host then ''['' @ host @ '']:'' @ port else host @ '':'' @ port)"

subsection \<open>Facts\<close>

lemma unmap_valid [simp]: "isValid (unmap a) = isValid a"
  by (cases a) auto

lemma unmap_unmap [simp]: "unmap (unmap a) = unmap a"
  by (cases a) auto

lemma cut_last_app: "d \<notin> set b \<Longrightarrow> cut_last d (a @ d # b) = Some (a, b)"
  by (simp add: cut_last_Some)

lemma cut_at_app: "d \<notin> set a \<Longrightarrow> cut_at d (a @ d # b) = Some (a, b)"
  by (simp add: cut_at_Some)

lemma split_join:
  assumes "set host \<inter> set ''[]'' = {}" and "set port \<inter> set '':[]'' = {}"
  shows "splitHostPort_net (joinHostPort host port) = Some (host, port)"
proof (cases "CHR '':'' \<in> set host")
  case True
  have last: "cut_last (CHR '':'') (joinHostPort host port) = Some (''['' @ host @ '']'', port)"
    using True assms(2) cut_last_app [of "CHR '':''" port "''['' @ host @ '']''"]
    by (simp add: joinHostPort_def)
  have first: "cut_at (CHR '']'') (joinHostPort host port) = Some (''['' @ host, '':'' @ port)"
    using True assms(1) cut_at_app [of "CHR '']''" "''['' @ host" "'':'' @ port"]
    by (simp add: joinHostPort_def)
  show ?thesis
    using True assms by (simp add: splitHostPort_net_def last first) (auto simp: joinHostPort_def)
next
  case False
  have last: "cut_last (CHR '':'') (joinHostPort host port) = Some (host, port)"
    using False assms(2) cut_last_app [of "CHR '':''" port host] by (simp add: joinHostPort_def)
  have "hd (joinHostPort host port) \<noteq> CHR ''[''"
    using False assms(1) by (cases host) (auto simp: joinHostPort_def)
  then show ?thesis
    using False assms by (simp add: splitHostPort_net_def last) (auto simp: joinHostPort_def)
qed

text \<open>What a split returns: neither part holds a bracket, and the port no colon.\<close>

lemma split_clean_bracket:
  assumes "cut_last (CHR '':'') hp = Some (pre, port)" and "hd hp = CHR ''[''"
    and "cut_at (CHR '']'') hp = Some (opened, closed)"
    and "Suc (length opened) = length pre"
    and "CHR ''['' \<notin> set (tl hp)" and "CHR '']'' \<notin> set closed"
  shows "set (tl opened) \<inter> set ''[]'' = {} \<and> set port \<inter> set '':[]'' = {}"
proof -
  from assms(1,3) have hp: "hp = pre @ CHR '':'' # port" "hp = opened @ CHR '']'' # closed"
    and colon: "CHR '':'' \<notin> set port" and close: "CHR '']'' \<notin> set opened"
    by (simp_all add: cut_last_Some cut_at_Some)
  have "opened \<noteq> []" using hp(2) assms(2) by auto
  then obtain x r where "opened = x # r" by (cases opened) auto
  with hp(2) assms(2) have op: "opened = CHR ''['' # r" by simp
  have "pre @ CHR '':'' # port = (opened @ [CHR '']'']) @ closed" using hp by simp
  then have "pre = opened @ [CHR '']'']" "closed = CHR '':'' # port"
    using assms(4) append_eq_append_conv [of pre "opened @ [CHR '']'']"] by auto
  with hp op assms(5,6) colon close show ?thesis by auto
qed

lemma split_clean:
  assumes "splitHostPort_net hp = Some (host, port)"
  shows "set host \<inter> set ''[]'' = {} \<and> set port \<inter> set '':[]'' = {}"
proof (cases "cut_last (CHR '':'') hp")
  case None
  with assms show ?thesis by (simp add: splitHostPort_net_def)
next
  case (Some bp)
  obtain pre p where bp: "cut_last (CHR '':'') hp = Some (pre, p)"
    using Some by (cases bp) simp
  show ?thesis
  proof (cases "hd hp = CHR ''[''")
    case True
    with assms bp obtain opened closed where
        "cut_at (CHR '']'') hp = Some (opened, closed)" "host = tl opened" "p = port"
        "Suc (length opened) = length pre"
        "CHR ''['' \<notin> set (tl hp)" "CHR '']'' \<notin> set closed"
      by (auto simp: splitHostPort_net_def split: option.splits if_splits prod.splits)
    with bp True show ?thesis using split_clean_bracket by auto
  next
    case False
    with assms bp have "host = pre" "p = port"
        "CHR ''['' \<notin> set hp" "CHR '']'' \<notin> set hp"
      by (auto simp: splitHostPort_net_def split: if_splits)
    with bp show ?thesis by (auto simp: cut_last_Some)
  qed
qed

end
