(* ===== verification/Bytecode.thy ===== *)
theory Bytecode
  imports NetAddr
begin

text \<open>
  \<^verbatim>\<open>src/routing/bytecode.go\<close>: the instruction set of the routing rules, the decoder
  (checked and unchecked), the generic validator \<open>validateBytecode\<close>, the loop that every
  evaluator of the package has (\<open>run_bytecode\<close>), slot and string-operation scans, and the
  IPv4 subnet test.

  The one-byte opcodes are the constructors of \<open>opcode\<close> in the order of the source's
  \<^verbatim>\<open>iota\<close> block; \<open>opcode_of\<close> reads a byte, \<open>None\<close> where the source's switches reach their
  default. Stacks are lists with the top first.
\<close>

datatype opcode =
    OP_DROP | OP_SLOT | OP_TRUE | OP_FALSE | OP_NOT | OP_AND | OP_OR
  | OP_NET4 | OP_NET6 | OP_UDP | OP_TCP | OP_FQDN | OP_LFQDN
  | OP_ADDR_S | OP_LADDR_S | OP_ADDR_RE | OP_LADDR_RE
  | OP_ADDR4 | OP_LADDR4 | OP_ADDR6 | OP_LADDR6
  | OP_SNET4 | OP_LSNET4 | OP_SNET6 | OP_LSNET6
  | OP_PORT | OP_LPORT | OP_RULE | OP_DIAL | OP_LISTEN | OP_LOOKUP
  | OP_INTERCEPT | OP_SNIFF | OP_SNIFF_NONE | OP_ROUTE
  | OP_BACKEND | OP_QTYPE | OP_QCLASS | OP_OPCODE

definition opcodes :: "opcode list" where
  "opcodes =
     [OP_DROP, OP_SLOT, OP_TRUE, OP_FALSE, OP_NOT, OP_AND, OP_OR,
      OP_NET4, OP_NET6, OP_UDP, OP_TCP, OP_FQDN, OP_LFQDN,
      OP_ADDR_S, OP_LADDR_S, OP_ADDR_RE, OP_LADDR_RE,
      OP_ADDR4, OP_LADDR4, OP_ADDR6, OP_LADDR6,
      OP_SNET4, OP_LSNET4, OP_SNET6, OP_LSNET6,
      OP_PORT, OP_LPORT, OP_RULE, OP_DIAL, OP_LISTEN, OP_LOOKUP,
      OP_INTERCEPT, OP_SNIFF, OP_SNIFF_NONE, OP_ROUTE,
      OP_BACKEND, OP_QTYPE, OP_QCLASS, OP_OPCODE]"

definition opcode_of :: "byte \<Rightarrow> opcode option" where
  "opcode_of b = (if unat b < length opcodes then Some (opcodes ! unat b) else None)"

fun op_index :: "opcode list \<Rightarrow> opcode \<Rightarrow> nat" where
  "op_index [] op = 0"
| "op_index (x # xs) op = (if x = op then 0 else Suc (op_index xs op))"

definition byte_of :: "opcode \<Rightarrow> byte" where
  "byte_of op = of_nat (op_index opcodes op)"

record ipv4Subnet =
  sn_addr :: u32
  sn_bits :: byte

datatype paramKind = ParamNone | ParamUint8 | ParamUint16

datatype bc_error =
    ErrIPv4Subnet nat byte
  | ErrIPv6Addr nat addr
  | ErrIPv6Subnet nat prefix
  | ErrNilRegexp nat
  | ErrEmptyBackend nat
  | ErrMissingUint8 string nat
  | ErrMissingUint16 string nat
  | ErrUnknownOpcode string nat byte
  | ErrUnderflow string nat
  | ErrNotValidFor string nat opcode
  | ErrLocalAddr string nat
  | ErrLocalAddrLookup string nat
  | ErrIndex string nat string nat nat
  | ErrSlot string nat nat nat
  | ErrDepth string nat
  | ErrRemapEndpoint nat
  | ErrRemapField nat
  | ErrRemapEmpty nat

subsection \<open>Tables\<close>

definition validateTables :: "ipv4Subnet list \<Rightarrow> addr list \<Rightarrow> prefix list \<Rightarrow> bc_error + unit" where
  "validateTables ipv4Subnets ipv6Addrs ipv6Subnets =
     ebind (first_error (\<lambda>i sn. check (sn_bits sn > 32) (ErrIPv4Subnet i (sn_bits sn))) 0 ipv4Subnets) (\<lambda>_.
     ebind (first_error (\<lambda>i a. check (\<not> is6 a) (ErrIPv6Addr i a)) 0 ipv6Addrs) (\<lambda>_.
     first_error (\<lambda>i p. check (\<not> pfx_isValid p \<or> \<not> is6 (pfx_addr p)) (ErrIPv6Subnet i p)) 0 ipv6Subnets))"

subsection \<open>Reading one instruction\<close>

text \<open>The parameter of each opcode, as both readers switch on it.\<close>

fun param_kind :: "opcode \<Rightarrow> paramKind" where
  "param_kind op =
     (case op of
        OP_SLOT \<Rightarrow> ParamUint8
      | OP_ADDR_S \<Rightarrow> ParamUint16 | OP_LADDR_S \<Rightarrow> ParamUint16
      | OP_ADDR_RE \<Rightarrow> ParamUint16 | OP_LADDR_RE \<Rightarrow> ParamUint16
      | OP_ADDR4 \<Rightarrow> ParamUint16 | OP_LADDR4 \<Rightarrow> ParamUint16
      | OP_ADDR6 \<Rightarrow> ParamUint16 | OP_LADDR6 \<Rightarrow> ParamUint16
      | OP_SNET4 \<Rightarrow> ParamUint16 | OP_LSNET4 \<Rightarrow> ParamUint16
      | OP_SNET6 \<Rightarrow> ParamUint16 | OP_LSNET6 \<Rightarrow> ParamUint16
      | OP_PORT \<Rightarrow> ParamUint16 | OP_LPORT \<Rightarrow> ParamUint16
      | OP_RULE \<Rightarrow> ParamUint16 | OP_SNIFF \<Rightarrow> ParamUint16
      | OP_ROUTE \<Rightarrow> ParamUint16 | OP_BACKEND \<Rightarrow> ParamUint16
      | OP_QTYPE \<Rightarrow> ParamUint16 | OP_QCLASS \<Rightarrow> ParamUint16 | OP_OPCODE \<Rightarrow> ParamUint16
      | _ \<Rightarrow> ParamNone)"

definition le16 :: "byte \<Rightarrow> byte \<Rightarrow> nat" where
  "le16 lo hi = unat lo + 256 * unat hi"

text \<open>\<open>readBytecodeParam\<close>: the parameter, its kind, the decoded opcode and the next \<open>pc\<close>.\<close>

definition readBytecodeParam ::
    "string \<Rightarrow> byte list \<Rightarrow> nat \<Rightarrow> byte \<Rightarrow> bc_error + (nat \<times> paramKind \<times> opcode \<times> nat)" where
  "readBytecodeParam name code pc b =
     (case opcode_of b of
        None \<Rightarrow> Inl (ErrUnknownOpcode name (pc - 1) b)
      | Some op \<Rightarrow>
          (case param_kind op of
             ParamNone \<Rightarrow> Inr (0, ParamNone, op, pc)
           | ParamUint8 \<Rightarrow>
               if pc \<ge> length code then Inl (ErrMissingUint8 name (pc - 1))
               else Inr (unat (code ! pc), ParamUint8, op, pc + 1)
           | ParamUint16 \<Rightarrow>
               if pc + 1 \<ge> length code then Inl (ErrMissingUint16 name (pc - 1))
               else Inr (le16 (code ! pc) (code ! (pc + 1)), ParamUint16, op, pc + 2)))"

definition readBytecodeParamUnchecked :: "byte list \<Rightarrow> nat \<Rightarrow> byte \<Rightarrow> (nat \<times> nat) outcome" where
  "readBytecodeParamUnchecked code pc b =
     (case opcode_of b of
        None \<Rightarrow> Done (0, pc)
      | Some op \<Rightarrow>
          (case param_kind op of
             ParamNone \<Rightarrow> Done (0, pc)
           | ParamUint8 \<Rightarrow> obind (slice_get code pc) (\<lambda>x. Done (unat x, pc + 1))
           | ParamUint16 \<Rightarrow>
               obind (slice_get code (pc + 1)) (\<lambda>hi.
               obind (slice_get code pc) (\<lambda>lo. Done (le16 lo hi, pc + 2)))))"

subsection \<open>The validator\<close>

text \<open>The stack effect that \<open>validateBytecode\<close> checks: the depth after the instruction, or
  \<open>None\<close> on underflow.\<close>

fun depth_after :: "opcode \<Rightarrow> nat \<Rightarrow> nat option" where
  "depth_after op depth =
     (case op of
        OP_DROP \<Rightarrow> if depth < 1 then None else Some (depth - 1)
      | OP_SLOT \<Rightarrow> if depth < 1 then None else Some (depth - 1)
      | OP_INTERCEPT \<Rightarrow> if depth < 1 then None else Some (depth - 1)
      | OP_ROUTE \<Rightarrow> if depth < 1 then None else Some (depth - 1)
      | OP_BACKEND \<Rightarrow> if depth < 1 then None else Some (depth - 1)
      | OP_NOT \<Rightarrow> if depth < 1 then None else Some depth
      | OP_AND \<Rightarrow> if depth < 2 then None else Some (depth - 1)
      | OP_OR \<Rightarrow> if depth < 2 then None else Some (depth - 1)
      | _ \<Rightarrow> Some (depth + 1))"

type_synonym validate_op = "nat \<Rightarrow> opcode \<Rightarrow> nat \<Rightarrow> paramKind \<Rightarrow> bc_error + unit"

function validateBytecode_from ::
    "string \<Rightarrow> byte list \<Rightarrow> validate_op \<Rightarrow> nat \<Rightarrow> nat \<Rightarrow> bc_error + unit" where
  "validateBytecode_from name code validateOp pc depth =
     (if pc \<ge> length code then Inr ()
      else (case readBytecodeParam name code (pc + 1) (code ! pc) of
              Inl e \<Rightarrow> Inl e
            | Inr (param, kind, op, next) \<Rightarrow>
                (case validateOp pc op param kind of
                   Inl e \<Rightarrow> Inl e
                 | Inr _ \<Rightarrow>
                     (case depth_after op depth of
                        None \<Rightarrow> Inl (ErrUnderflow name pc)
                      | Some depth' \<Rightarrow> validateBytecode_from name code validateOp next depth'))))"
  by pat_completeness auto
termination
  by (relation "measure (\<lambda>(name, code, validateOp, pc, depth). length code - pc)")
    (auto simp: readBytecodeParam_def split: option.splits paramKind.splits if_splits)

definition validateBytecode :: "string \<Rightarrow> byte list \<Rightarrow> validate_op \<Rightarrow> bc_error + unit" where
  "validateBytecode name code validateOp = validateBytecode_from name code validateOp 0 0"

subsection \<open>The evaluation loop\<close>

text \<open>
  Every evaluator of the package is \<^verbatim>\<open>for pc < len(code) { fetch; read parameter; switch op }\<close>.
  \<open>run_bytecode body\<close> is that loop; \<open>body\<close> is the switch, which panics, returns from the
  evaluator (\<open>Return\<close>) or falls out of the switch with a new state (\<open>Continue\<close>). An opcode
  byte with no case in the switch continues unchanged, so \<open>body\<close> sees known opcodes only.
\<close>

datatype ('r, 's) flow = Return 'r | Continue 's

function run_bytecode ::
    "(opcode \<Rightarrow> nat \<Rightarrow> 's \<Rightarrow> ('r, 's) flow outcome) \<Rightarrow> byte list \<Rightarrow> nat \<Rightarrow> 's \<Rightarrow> ('r, 's) flow outcome"
  where
  "run_bytecode body code pc s =
     (if pc \<ge> length code then Done (Continue s)
      else (case readBytecodeParamUnchecked code (pc + 1) (code ! pc) of
              Panic \<Rightarrow> Panic
            | Done (param, next) \<Rightarrow>
                (case opcode_of (code ! pc) of
                   None \<Rightarrow> run_bytecode body code next s
                 | Some op \<Rightarrow>
                     (case body op param s of
                        Panic \<Rightarrow> Panic
                      | Done (Return r) \<Rightarrow> Done (Return r)
                      | Done (Continue s') \<Rightarrow> run_bytecode body code next s'))))"
  by pat_completeness auto
termination
  by (relation "measure (\<lambda>(body, code, pc, s). length code - pc)")
    (auto simp: readBytecodeParamUnchecked_def slice_get_def
        split: option.splits paramKind.splits if_splits)

declare validateBytecode_from.simps [simp del]
declare run_bytecode.simps [simp del]
declare param_kind.simps [simp del]
declare depth_after.simps [simp del]

subsection \<open>Bounds of parameters\<close>

definition bytecodeParamIndex :: "nat \<Rightarrow> nat \<Rightarrow> nat option" where
  "bytecodeParamIndex param n = (if n = 0 \<or> param \<ge> n then None else Some param)"

definition bytecodeParamInt :: "nat \<Rightarrow> int \<Rightarrow> nat option" where
  "bytecodeParamInt param limit = (if limit < 0 \<or> int param > limit then None else Some param)"

subsection \<open>Slots a program mentions\<close>

definition mark_slot :: "nat \<Rightarrow> bool list \<Rightarrow> nat \<Rightarrow> bool list outcome" where
  "mark_slot maxSlot seen param =
     (if param = 0 then Done seen
      else (case bytecodeParamInt param (int maxSlot) of
              None \<Rightarrow> Done seen
            | Some slot \<Rightarrow> if slot < length seen then Done (seen[slot := True]) else Panic))"

text \<open>\<open>routeSlots\<close> are the slots of the \<^verbatim>\<open>SnifferRouteAction\<close> table.\<close>

definition mention_body ::
    "nat \<Rightarrow> nat list \<Rightarrow> opcode \<Rightarrow> nat \<Rightarrow> bool list \<Rightarrow> (unit, bool list) flow outcome" where
  "mention_body maxSlot routeSlots op param seen =
     (case op of
        OP_SLOT \<Rightarrow> omap Continue (mark_slot maxSlot seen param)
      | OP_ROUTE \<Rightarrow>
          (case bytecodeParamIndex param (length routeSlots) of
             None \<Rightarrow> Done (Continue seen)
           | Some idx \<Rightarrow> omap Continue (mark_slot maxSlot seen (routeSlots ! idx)))
      | _ \<Rightarrow> Done (Continue seen))"

fun mention_programs ::
    "nat \<Rightarrow> nat list \<Rightarrow> byte list list \<Rightarrow> bool list \<Rightarrow> bool list outcome" where
  "mention_programs maxSlot routeSlots [] seen = Done seen"
| "mention_programs maxSlot routeSlots (code # programs) seen =
     (case run_bytecode (mention_body maxSlot routeSlots) code 0 seen of
        Done (Continue seen') \<Rightarrow> mention_programs maxSlot routeSlots programs seen'
      | _ \<Rightarrow> Panic)"

definition mentionedBytecodeSlotsWithRoutes ::
    "nat \<Rightarrow> nat list \<Rightarrow> byte list list \<Rightarrow> nat list outcome" where
  "mentionedBytecodeSlotsWithRoutes maxSlot routeSlots programs =
     omap (\<lambda>seen. filter (\<lambda>slot. seen ! slot) [1..<Suc maxSlot])
       (mention_programs maxSlot routeSlots programs (replicate (Suc maxSlot) False))"

definition mentionedBytecodeSlots :: "nat \<Rightarrow> byte list list \<Rightarrow> nat list outcome" where
  "mentionedBytecodeSlots maxSlot programs = mentionedBytecodeSlotsWithRoutes maxSlot [] programs"

subsection \<open>String operations of a program\<close>

record addrStringOps =
  so_remote :: bool
  so_local :: bool

definition string_ops_body ::
    "opcode \<Rightarrow> nat \<Rightarrow> addrStringOps \<Rightarrow> (unit, addrStringOps) flow outcome" where
  "string_ops_body op param ops =
     (case op of
        OP_ADDR_S \<Rightarrow> Done (Continue (ops\<lparr>so_remote := True\<rparr>))
      | OP_ADDR_RE \<Rightarrow> Done (Continue (ops\<lparr>so_remote := True\<rparr>))
      | OP_LADDR_S \<Rightarrow> Done (Continue (ops\<lparr>so_local := True\<rparr>))
      | OP_LADDR_RE \<Rightarrow> Done (Continue (ops\<lparr>so_local := True\<rparr>))
      | _ \<Rightarrow> Done (Continue ops))"

definition bytecodeAddrStringOps :: "byte list \<Rightarrow> addrStringOps outcome" where
  "bytecodeAddrStringOps code =
     (case run_bytecode string_ops_body code 0 \<lparr>so_remote = False, so_local = False\<rparr> of
        Done (Continue ops) \<Rightarrow> Done ops
      | _ \<Rightarrow> Panic)"

subsection \<open>Classes of opcodes\<close>

fun isLAddrOp :: "opcode \<Rightarrow> bool" where
  "isLAddrOp op = (op \<in> {OP_LFQDN, OP_LADDR_S, OP_LADDR_RE, OP_LADDR4, OP_LADDR6,
     OP_LSNET4, OP_LSNET6, OP_LPORT})"

fun isSplitOnlyOp :: "opcode \<Rightarrow> bool" where
  "isSplitOnlyOp op = (op = OP_RULE)"

fun isSnifferOnlyOp :: "opcode \<Rightarrow> bool" where
  "isSnifferOnlyOp op = (op \<in> {OP_INTERCEPT, OP_SNIFF, OP_SNIFF_NONE, OP_ROUTE})"

fun isDNSOnlyOp :: "opcode \<Rightarrow> bool" where
  "isDNSOnlyOp op = (op \<in> {OP_BACKEND, OP_QTYPE, OP_QCLASS, OP_OPCODE})"

fun isRouterMethodOp :: "opcode \<Rightarrow> bool" where
  "isRouterMethodOp op = (op \<in> {OP_DIAL, OP_LISTEN, OP_LOOKUP})"

text \<open>The class of a router call (\<^verbatim>\<open>bytecodeMethod\<close> of \<^verbatim>\<open>src/routing/router_bytecode.go\<close>).\<close>

datatype bytecodeMethod = MethodDial | MethodListen | MethodLookup

subsection \<open>IPv4 subnets and network names\<close>

definition subnet_contains :: "ipv4Subnet \<Rightarrow> u32 \<Rightarrow> bool" where
  "subnet_contains n a =
     (if sn_bits n = 0 then True
      else let m = push_bit (unat (32 - sn_bits n)) (- 1) in a AND m = sn_addr n AND m)"

definition isNet4 :: "string \<Rightarrow> bool" where
  "isNet4 network = hasSuffix network ''4''"

definition isNet6 :: "string \<Rightarrow> bool" where
  "isNet6 network = hasSuffix network ''6''"

definition isTCPNet :: "string \<Rightarrow> bool" where
  "isTCPNet network = (network = ''tcp'' \<or> network = ''tcp4'' \<or> network = ''tcp6'')"

definition isUDPNet :: "string \<Rightarrow> bool" where
  "isUDPNet network = (network = ''udp'' \<or> network = ''udp4'' \<or> network = ''udp6'')"

end
