(* ===== verification/BytecodeMachine.thy ===== *)
theory BytecodeMachine
  imports Bytecode
begin

text \<open>
  The theory of the bytecode loop. A validated program is the encoding of a list of
  instructions (\<open>encode_prog\<close>), and on an encoding the byte-level loop \<open>run_bytecode\<close> is a
  fold over the list (\<open>run_instrs\<close>). The decision semantics (\<open>decide\<close>) says what an instruction
  list means. The locale \<open>decision_machine\<close> is the contract of an evaluator: one accepted
  instruction on a deep enough stack does what the decision semantics says; \<open>validated_machine\<close>
  adds the validator callback that accepts exactly those instructions.
\<close>

type_synonym instr = "opcode \<times> nat"

definition encode_instr :: "instr \<Rightarrow> byte list" where
  "encode_instr i =
     (case param_kind (fst i) of
        ParamNone \<Rightarrow> [byte_of (fst i)]
      | ParamUint8 \<Rightarrow> [byte_of (fst i), of_nat (snd i)]
      | ParamUint16 \<Rightarrow> [byte_of (fst i), of_nat (snd i mod 256), of_nat (snd i div 256)])"

definition wf_instr :: "instr \<Rightarrow> bool" where
  "wf_instr i =
     (case param_kind (fst i) of
        ParamNone \<Rightarrow> snd i = 0
      | ParamUint8 \<Rightarrow> snd i < 256
      | ParamUint16 \<Rightarrow> snd i < 65536)"

definition encode_prog :: "instr list \<Rightarrow> byte list" where
  "encode_prog is = concat (map encode_instr is)"

fun run_instrs ::
    "(opcode \<Rightarrow> nat \<Rightarrow> 's \<Rightarrow> ('r, 's) flow outcome) \<Rightarrow> instr list \<Rightarrow> 's \<Rightarrow> ('r, 's) flow outcome"
  where
  "run_instrs body [] s = Done (Continue s)"
| "run_instrs body (i # is) s =
     (case body (fst i) (snd i) s of
        Panic \<Rightarrow> Panic
      | Done (Return r) \<Rightarrow> Done (Return r)
      | Done (Continue s') \<Rightarrow> run_instrs body is s')"

text \<open>Abstract validation: every instruction is accepted by \<open>ok\<close> and the depths fit.\<close>

fun valid_instrs :: "(opcode \<Rightarrow> nat \<Rightarrow> bool) \<Rightarrow> instr list \<Rightarrow> nat \<Rightarrow> bool" where
  "valid_instrs ok [] d = True"
| "valid_instrs ok (i # is) d =
     (ok (fst i) (snd i) \<and>
      (case depth_after (fst i) d of None \<Rightarrow> False | Some d' \<Rightarrow> valid_instrs ok is d'))"

fun final_depth :: "instr list \<Rightarrow> nat \<Rightarrow> nat" where
  "final_depth [] d = d"
| "final_depth (i # is) d =
     (case depth_after (fst i) d of None \<Rightarrow> d | Some d' \<Rightarrow> final_depth is d')"

text \<open>\<open>accepts vop ok\<close>: the validator callback \<open>vop\<close> succeeds exactly on the instructions of \<open>ok\<close>.\<close>

definition accepts :: "validate_op \<Rightarrow> (opcode \<Rightarrow> nat \<Rightarrow> bool) \<Rightarrow> bool" where
  "accepts vop ok \<longleftrightarrow> (\<forall>pc op p. vop pc op p (param_kind op) = Inr () \<longleftrightarrow> ok op p)"

subsection \<open>Opcodes and bytes\<close>

lemma length_opcodes [simp]: "length opcodes = 39"
  by (simp add: opcodes_def)

lemma opcode_of_byte_of [simp]: "opcode_of (byte_of op) = Some op"
  by (cases op; simp add: opcode_of_def byte_of_def opcodes_def)

lemma opcode_index: "i < 39 \<Longrightarrow> op_index opcodes (opcodes ! i) = i"
proof -
  have "\<forall>i < 39. op_index opcodes (opcodes ! i) = i" by code_simp
  then show "i < 39 \<Longrightarrow> op_index opcodes (opcodes ! i) = i" by blast
qed

lemma opcode_of_SomeD: "opcode_of b = Some op \<Longrightarrow> b = byte_of op"
  by (auto simp: opcode_of_def byte_of_def opcode_index split: if_splits)

lemma opcode_of_eq_Some: "opcode_of b = Some op \<longleftrightarrow> b = byte_of op"
  by (auto dest: opcode_of_SomeD)

subsection \<open>Reading an encoded instruction\<close>

lemma le16_split: "n < 65536 \<Longrightarrow> le16 (of_nat (n mod 256)) (of_nat (n div 256)) = n"
  by (simp add: le16_def)

lemma le16_bound: "le16 lo hi < 65536"
  unfolding le16_def using byte_less [of lo] byte_less [of hi] by linarith

lemma le16_bytes: "of_nat (le16 lo hi mod 256) = lo" "of_nat (le16 lo hi div 256) = hi"
proof -
  have "le16 lo hi mod 256 = unat lo" "le16 lo hi div 256 = unat hi"
    using byte_less [of lo] by (simp_all add: le16_def)
  then show "of_nat (le16 lo hi mod 256) = lo" "of_nat (le16 lo hi div 256) = hi" by simp_all
qed

lemma encode_instr_Cons: "\<exists>ps. encode_instr i = byte_of (fst i) # ps"
  by (auto simp: encode_instr_def split: paramKind.splits)

lemma encode_instr_length_pos [simp]: "0 < length (encode_instr i)"
  using encode_instr_Cons [of i] by auto

lemma encode_instr_nonempty [simp]: "encode_instr i \<noteq> []"
  using encode_instr_Cons [of i] by auto

lemma nth_encoded [simp]:
  "(c0 @ encode_instr i @ rest) ! length c0 = byte_of (fst i)"
  using encode_instr_Cons [of i] by (auto simp: nth_append)

lemma read_unchecked_encoded [decode_simps]:
  assumes "wf_instr i"
  shows "readBytecodeParamUnchecked (c0 @ encode_instr i @ rest) (Suc (length c0)) (byte_of (fst i))
    = Done (snd i, length c0 + length (encode_instr i))"
  using assms
  by (auto simp: readBytecodeParamUnchecked_def encode_instr_def wf_instr_def slice_get_def
      nth_append le16_split split: paramKind.splits)

lemma read_checked_encoded [decode_simps]:
  assumes "wf_instr i"
  shows "readBytecodeParam name (c0 @ encode_instr i @ rest) (Suc (length c0)) (byte_of (fst i))
    = Inr (snd i, param_kind (fst i), fst i, length c0 + length (encode_instr i))"
  using assms
  by (auto simp: readBytecodeParam_def encode_instr_def wf_instr_def
      nth_append le16_split split: paramKind.splits)

text \<open>Conversely, what the checked reader accepts is an encoded instruction.\<close>

lemma read_checked_decodes:
  assumes "pc < length code"
    and "readBytecodeParam name code (Suc pc) (code ! pc) = Inr (param, kind, op, next)"
  shows "wf_instr (op, param) \<and> kind = param_kind op \<and>
    drop pc code = encode_instr (op, param) @ drop next code \<and> pc < next \<and> next \<le> length code"
proof -
  from assms(2) have b: "code ! pc = byte_of op"
    by (auto simp: readBytecodeParam_def opcode_of_eq_Some
        split: option.splits paramKind.splits if_splits)
  show ?thesis
  proof (cases "param_kind op")
    case ParamNone
    with assms b show ?thesis
      by (auto simp: readBytecodeParam_def wf_instr_def encode_instr_def nth_drop_head)
  next
    case ParamUint8
    with assms b have "Suc pc < length code" "param = unat (code ! Suc pc)" "kind = ParamUint8"
        "next = pc + 2"
      by (auto simp: readBytecodeParam_def split: if_splits)
    with ParamUint8 assms(1) b show ?thesis
      by (auto simp: wf_instr_def encode_instr_def nth_drop_head)
  next
    case ParamUint16
    with assms b have "Suc (Suc pc) < length code" "kind = ParamUint16" "next = pc + 3"
        "param = le16 (code ! Suc pc) (code ! Suc (Suc pc))"
      by (auto simp: readBytecodeParam_def split: if_splits)
    with ParamUint16 assms(1) b show ?thesis
      by (auto simp: wf_instr_def encode_instr_def nth_drop_head le16_bytes le16_bound numeral_3_eq_3)
  qed
qed

subsection \<open>The loops on an encoded program\<close>

lemma encode_prog_simps [simp]:
  "encode_prog [] = []"
  "encode_prog (i # is) = encode_instr i @ encode_prog is"
  "encode_prog (is @ js) = encode_prog is @ encode_prog js"
  by (simp_all add: encode_prog_def)

lemma run_bytecode_encoded:
  "list_all wf_instr is \<Longrightarrow>
   run_bytecode body (c0 @ encode_prog is) (length c0) s = run_instrs body is s"
proof (induction "is" arbitrary: c0 s)
  case Nil
  then show ?case by (simp add: run_bytecode.simps)
next
  case (Cons i "is")
  have step: "run_bytecode body ((c0 @ encode_instr i) @ encode_prog is)
      (length (c0 @ encode_instr i)) s' = run_instrs body is s'" for s'
    using Cons.prems by (intro Cons.IH) simp
  from Cons.prems have wf: "wf_instr i" by simp
  have lt: "length c0 < length (c0 @ encode_instr i @ encode_prog is)" by simp
  show ?case
    using step
    by (subst run_bytecode.simps)
      (simp add: lt not_le decode_simps wf split: outcome.splits flow.splits)
qed

lemma run_encode_prog [decode_simps]:
  "list_all wf_instr is \<Longrightarrow> run_bytecode body (encode_prog is) 0 s = run_instrs body is s"
  using run_bytecode_encoded [of "is" body "[]"] by simp

text \<open>The instructions of a byte string, and the round trip.\<close>

fun decode_prog :: "byte list \<Rightarrow> instr list" where
  "decode_prog [] = []"
| "decode_prog (b # rest) =
     (case opcode_of b of
        None \<Rightarrow> []
      | Some op \<Rightarrow>
          (case param_kind op of
             ParamNone \<Rightarrow> (op, 0) # decode_prog rest
           | ParamUint8 \<Rightarrow>
               (case rest of [] \<Rightarrow> [] | x # rest' \<Rightarrow> (op, unat x) # decode_prog rest')
           | ParamUint16 \<Rightarrow>
               (case rest of lo # hi # rest' \<Rightarrow> (op, le16 lo hi) # decode_prog rest' | _ \<Rightarrow> [])))"

lemma decode_encode [decode_simps]: "list_all wf_instr is \<Longrightarrow> decode_prog (encode_prog is) = is"
proof (induction "is")
  case Nil
  then show ?case by simp
next
  case (Cons i "is")
  then show ?case
    by (cases i) (auto simp: encode_instr_def wf_instr_def le16_split split: paramKind.splits)
qed

lemma validate_from_decodes:
  "accepts vop ok \<Longrightarrow> pc \<le> length code \<Longrightarrow> validateBytecode_from name code vop pc d = Inr u \<Longrightarrow>
    \<exists>is. drop pc code = encode_prog is \<and> list_all wf_instr is \<and> valid_instrs ok is d"
proof (induction name code vop pc d rule: validateBytecode_from.induct)
  case (1 name code vop pc d)
  show ?case
  proof (cases "pc \<ge> length code")
    case True
    then show ?thesis by (intro exI [of _ "[]"]) simp
  next
    case False
    with "1.prems"(3) obtain param kind op nxt d' where
        r: "readBytecodeParam name code (Suc pc) (code ! pc) = Inr (param, kind, op, nxt)"
        and v: "vop pc op param kind = Inr ()" and d': "depth_after op d = Some d'"
        and rest: "validateBytecode_from name code vop nxt d' = Inr u"
      by (subst (asm) validateBytecode_from.simps)
        (auto split: sum.splits option.splits prod.splits)
    from False r have dec: "wf_instr (op, param)" "kind = param_kind op"
        "drop pc code = encode_instr (op, param) @ drop nxt code" "nxt \<le> length code"
      using read_checked_decodes [of pc code name param kind op nxt] by auto
    from "1.IH" [OF False] "1.prems"(1) r v d' rest dec(4) obtain "is" where
        "drop nxt code = encode_prog is" "list_all wf_instr is" "valid_instrs ok is d'"
      by fastforce
    with dec v d' "1.prems"(1) show ?thesis
      by (intro exI [of _ "(op, param) # is"]) (auto simp: accepts_def)
  qed
qed

lemma validate_from_encoded:
  assumes ok: "accepts vop ok"
  shows "list_all wf_instr is \<Longrightarrow> valid_instrs ok is d \<Longrightarrow>
    validateBytecode_from name (c0 @ encode_prog is) vop (length c0) d = Inr ()"
proof (induction "is" arbitrary: c0 d)
  case Nil
  then show ?case by (simp add: validateBytecode_from.simps)
next
  case (Cons i "is")
  from Cons.prems obtain d' where d': "depth_after (fst i) d = Some d'" "valid_instrs ok is d'"
    and wf: "wf_instr i" and v: "vop pc (fst i) (snd i) (param_kind (fst i)) = Inr ()" for pc
    using ok by (auto simp: accepts_def split: option.splits)
  have "validateBytecode_from name ((c0 @ encode_instr i) @ encode_prog is) vop
      (length (c0 @ encode_instr i)) d' = Inr ()"
    using Cons.prems d'(2) by (intro Cons.IH) simp_all
  then show ?case
    by (subst validateBytecode_from.simps) (simp add: not_le decode_simps wf v d')
qed

text \<open>The validator accepts exactly the encodings of valid instruction lists.\<close>

lemma validateBytecode_iff:
  assumes "accepts vop ok"
  shows "validateBytecode name code vop = Inr u \<longleftrightarrow>
    (\<exists>is. code = encode_prog is \<and> list_all wf_instr is \<and> valid_instrs ok is 0)"
  using validate_from_decodes [OF assms, of 0 code name 0 u]
    validate_from_encoded [OF assms, of _ 0 name "[]"]
  by (auto simp: validateBytecode_def)

subsection \<open>Instruction lists\<close>

lemma run_instrs_append:
  "run_instrs body (is @ js) s =
     (case run_instrs body is s of
        Panic \<Rightarrow> Panic
      | Done (Return r) \<Rightarrow> Done (Return r)
      | Done (Continue s') \<Rightarrow> run_instrs body js s')"
  by (induction "is" arbitrary: s) (auto split: outcome.splits flow.splits)

lemma valid_instrs_append:
  "valid_instrs ok (is @ js) d \<longleftrightarrow> valid_instrs ok is d \<and> valid_instrs ok js (final_depth is d)"
  by (induction "is" arbitrary: d) (auto split: option.splits)

lemma valid_instrs_ok: "valid_instrs ok is d \<Longrightarrow> list_all (\<lambda>i. ok (fst i) (snd i)) is"
  by (induction "is" arbitrary: d) (auto split: option.splits)

lemma depth_after_mono: "depth_after op d = Some d' \<Longrightarrow> depth_after op (d + k) = Some (d' + k)"
  by (cases op) (auto simp: depth_after.simps split: if_splits)

lemma valid_instrs_mono: "valid_instrs ok is d \<Longrightarrow> valid_instrs ok is (d + k)"
  by (induction "is" arbitrary: d)
    (fastforce split: option.splits dest: depth_after_mono [where k = k])+

lemma final_depth_mono: "valid_instrs ok is d \<Longrightarrow> final_depth is (d + k) = final_depth is d + k"
  by (induction "is" arbitrary: d)
    (fastforce split: option.splits dest: depth_after_mono [where k = k])+

subsection \<open>Scans of a program\<close>

lemma string_ops_instrs:
  "run_instrs string_ops_body is ops =
     Done (Continue \<lparr>so_remote = so_remote ops \<or> (\<exists>i \<in> set is. fst i \<in> {OP_ADDR_S, OP_ADDR_RE}),
                     so_local = so_local ops \<or> (\<exists>i \<in> set is. fst i \<in> {OP_LADDR_S, OP_LADDR_RE})\<rparr>)"
proof (induction "is" arbitrary: ops)
  case Nil
  then show ?case by simp
next
  case (Cons i "is")
  then show ?case by (cases "fst i") (simp_all add: string_ops_body_def)
qed

lemma string_ops_encoded [decode_simps]:
  "list_all wf_instr is \<Longrightarrow> bytecodeAddrStringOps (encode_prog is) =
     Done \<lparr>so_remote = (\<exists>i \<in> set is. fst i \<in> {OP_ADDR_S, OP_ADDR_RE}),
           so_local = (\<exists>i \<in> set is. fst i \<in> {OP_LADDR_S, OP_LADDR_RE})\<rparr>"
  by (simp add: bytecodeAddrStringOps_def run_encode_prog string_ops_instrs)

text \<open>Instruction \<open>i\<close> names slot \<open>k\<close>, directly or through the route table.\<close>

definition names_slot :: "nat list \<Rightarrow> instr \<Rightarrow> nat \<Rightarrow> bool" where
  "names_slot routeSlots i k \<longleftrightarrow>
     fst i = OP_SLOT \<and> snd i = k \<or>
     fst i = OP_ROUTE \<and> snd i < length routeSlots \<and> routeSlots ! snd i = k"

lemma mark_slot_marks:
  assumes "length seen = Suc maxSlot"
  obtains seen' where "mark_slot maxSlot seen q = Done seen'" and "length seen' = Suc maxSlot"
    and "\<And>k. 1 \<le> k \<Longrightarrow> k \<le> maxSlot \<Longrightarrow> seen' ! k \<longleftrightarrow> seen ! k \<or> q = k"
proof (cases "q = 0 \<or> q > maxSlot")
  case True
  with assms show thesis by (intro that [of seen]) (auto simp: mark_slot_def bytecodeParamInt_def)
next
  case False
  with assms show thesis
    by (intro that [of "seen[q := True]"]) (auto simp: mark_slot_def bytecodeParamInt_def nth_list_update)
qed

lemma mention_body_marks:
  assumes "length seen = Suc maxSlot"
  obtains seen' where "mention_body maxSlot routeSlots op q seen = Done (Continue seen')"
    and "length seen' = Suc maxSlot"
    and "\<And>k. 1 \<le> k \<Longrightarrow> k \<le> maxSlot \<Longrightarrow> seen' ! k \<longleftrightarrow> seen ! k \<or> names_slot routeSlots (op, q) k"
proof (cases "op = OP_SLOT \<or> op = OP_ROUTE \<and> q < length routeSlots")
  case True
  then show thesis
  proof
    assume op: "op = OP_SLOT"
    obtain seen' where "mark_slot maxSlot seen q = Done seen'" "length seen' = Suc maxSlot"
        "\<And>k. 1 \<le> k \<Longrightarrow> k \<le> maxSlot \<Longrightarrow> seen' ! k \<longleftrightarrow> seen ! k \<or> q = k"
      using mark_slot_marks [OF assms] by blast
    with op show thesis by (intro that [of seen']) (simp_all add: mention_body_def names_slot_def)
  next
    assume op: "op = OP_ROUTE \<and> q < length routeSlots"
    obtain seen' where "mark_slot maxSlot seen (routeSlots ! q) = Done seen'" "length seen' = Suc maxSlot"
        "\<And>k. 1 \<le> k \<Longrightarrow> k \<le> maxSlot \<Longrightarrow> seen' ! k \<longleftrightarrow> seen ! k \<or> routeSlots ! q = k"
      using mark_slot_marks [OF assms] by blast
    moreover from op have "routeSlots \<noteq> []" by auto
    ultimately show thesis
      using op by (intro that [of seen']) (simp_all add: mention_body_def names_slot_def bytecodeParamIndex_def)
  qed
next
  case False
  then have "mention_body maxSlot routeSlots op q seen = Done (Continue seen)"
    by (cases op) (auto simp: mention_body_def bytecodeParamIndex_def)
  with False assms show thesis by (intro that [of seen]) (auto simp: names_slot_def)
qed

lemma mention_instrs:
  "length seen = Suc maxSlot \<Longrightarrow>
   \<exists>seen'. run_instrs (mention_body maxSlot routeSlots) is seen = Done (Continue seen') \<and>
     length seen' = Suc maxSlot \<and>
     (\<forall>k. 1 \<le> k \<and> k \<le> maxSlot \<longrightarrow> (seen' ! k \<longleftrightarrow> seen ! k \<or> (\<exists>i \<in> set is. names_slot routeSlots i k)))"
proof (induction "is" arbitrary: seen)
  case Nil
  then show ?case by simp
next
  case (Cons i "is")
  obtain seen1 where s1: "mention_body maxSlot routeSlots (fst i) (snd i) seen = Done (Continue seen1)"
      "length seen1 = Suc maxSlot"
      "\<And>k. 1 \<le> k \<Longrightarrow> k \<le> maxSlot \<Longrightarrow> seen1 ! k \<longleftrightarrow> seen ! k \<or> names_slot routeSlots i k"
    using mention_body_marks [OF Cons.prems, of routeSlots "fst i" "snd i"] by (metis prod.collapse)
  from Cons.IH [OF s1(2)] obtain seen' where
      "run_instrs (mention_body maxSlot routeSlots) is seen1 = Done (Continue seen')"
      "length seen' = Suc maxSlot"
      "\<forall>k. 1 \<le> k \<and> k \<le> maxSlot \<longrightarrow> (seen' ! k \<longleftrightarrow> seen1 ! k \<or> (\<exists>i \<in> set is. names_slot routeSlots i k))"
    by blast
  with s1 show ?case by (intro exI [of _ seen']) auto
qed

lemma mention_programs_encoded:
  "list_all (list_all wf_instr) iss \<Longrightarrow> length seen = Suc maxSlot \<Longrightarrow>
   \<exists>seen'. mention_programs maxSlot routeSlots (map encode_prog iss) seen = Done seen' \<and>
     length seen' = Suc maxSlot \<and>
     (\<forall>k. 1 \<le> k \<and> k \<le> maxSlot \<longrightarrow>
        (seen' ! k \<longleftrightarrow> seen ! k \<or> (\<exists>is \<in> set iss. \<exists>i \<in> set is. names_slot routeSlots i k)))"
proof (induction iss arbitrary: seen)
  case Nil
  then show ?case by simp
next
  case (Cons "is" iss)
  from mention_instrs [OF Cons.prems(2), of routeSlots "is"] obtain seen1 where
      s1: "run_instrs (mention_body maxSlot routeSlots) is seen = Done (Continue seen1)"
      "length seen1 = Suc maxSlot"
      "\<forall>k. 1 \<le> k \<and> k \<le> maxSlot \<longrightarrow> (seen1 ! k \<longleftrightarrow> seen ! k \<or> (\<exists>i \<in> set is. names_slot routeSlots i k))"
    by blast
  from Cons.prems(1) Cons.IH [OF _ s1(2)] obtain seen' where
      "mention_programs maxSlot routeSlots (map encode_prog iss) seen1 = Done seen'"
      "length seen' = Suc maxSlot"
      "\<forall>k. 1 \<le> k \<and> k \<le> maxSlot \<longrightarrow>
        (seen' ! k \<longleftrightarrow> seen1 ! k \<or> (\<exists>is \<in> set iss. \<exists>i \<in> set is. names_slot routeSlots i k))"
    by auto
  with s1 Cons.prems(1) show ?case by (intro exI [of _ seen']) (auto simp: run_encode_prog)
qed

text \<open>The scan returns, in increasing order, exactly the slots in \<open>1..maxSlot\<close> that are named.\<close>

lemma mentioned_slots_encoded:
  assumes "list_all (list_all wf_instr) iss"
  obtains ks where "mentionedBytecodeSlotsWithRoutes maxSlot routeSlots (map encode_prog iss) = Done ks"
    and "sorted ks" and "distinct ks"
    and "set ks = {k. 1 \<le> k \<and> k \<le> maxSlot \<and> (\<exists>is \<in> set iss. \<exists>i \<in> set is. names_slot routeSlots i k)}"
proof -
  have "length (replicate (Suc maxSlot) False) = Suc maxSlot" by simp
  from mention_programs_encoded [OF assms this, of routeSlots] obtain seen where
      s: "mention_programs maxSlot routeSlots (map encode_prog iss) (replicate (Suc maxSlot) False) = Done seen"
      "\<forall>k. 1 \<le> k \<and> k \<le> maxSlot \<longrightarrow> (seen ! k \<longleftrightarrow> replicate (Suc maxSlot) False ! k \<or>
         (\<exists>is \<in> set iss. \<exists>i \<in> set is. names_slot routeSlots i k))"
    by blast
  let ?ks = "filter (\<lambda>slot. seen ! slot) [1..<Suc maxSlot]"
  have "set ?ks = {k. 1 \<le> k \<and> k \<le> maxSlot \<and> (\<exists>is \<in> set iss. \<exists>i \<in> set is. names_slot routeSlots i k)}"
    using s(2) by (auto simp del: replicate_Suc simp: nth_replicate)
  moreover have "sorted ?ks" "distinct ?ks" by (simp_all add: sorted_wrt_filter del: upt_Suc)
  ultimately show thesis
    using that [of ?ks] s(1) by (simp add: mentionedBytecodeSlotsWithRoutes_def del: upt_Suc replicate_Suc)
qed

subsection \<open>Decisions\<close>

text \<open>
  The meaning of a rule program, free of caches and panics. An action (\<open>act\<close> gives its result)
  pops the condition and decides if it holds; the Boolean instructions combine the stack; every
  other instruction pushes the truth value of an atom. The parameters are of any type: indices
  for bytecode, the operands themselves for rule text.
\<close>

fun bool_step :: "(opcode \<Rightarrow> 'p \<Rightarrow> bool) \<Rightarrow> opcode \<Rightarrow> 'p \<Rightarrow> bool list \<Rightarrow> bool list" where
  "bool_step atom op p stk =
     (case op of
        OP_TRUE \<Rightarrow> True # stk
      | OP_FALSE \<Rightarrow> False # stk
      | OP_NOT \<Rightarrow> (\<not> hd stk) # tl stk
      | OP_AND \<Rightarrow> (hd (tl stk) \<and> hd stk) # tl (tl stk)
      | OP_OR \<Rightarrow> (hd (tl stk) \<or> hd stk) # tl (tl stk)
      | _ \<Rightarrow> atom op p # stk)"

fun decide :: "(opcode \<Rightarrow> 'p \<Rightarrow> 'r option) \<Rightarrow> (opcode \<Rightarrow> 'p \<Rightarrow> bool) \<Rightarrow>
    (opcode \<times> 'p) list \<Rightarrow> bool list \<Rightarrow> 'r + bool list" where
  "decide act atom [] stk = Inr stk"
| "decide act atom (i # is) stk =
     (case act (fst i) (snd i) of
        Some r \<Rightarrow> if hd stk then Inl r else decide act atom is (tl stk)
      | None \<Rightarrow> decide act atom is (bool_step atom (fst i) (snd i) stk))"

definition is_action :: "opcode \<Rightarrow> bool" where
  "is_action op \<longleftrightarrow> op \<in> {OP_DROP, OP_SLOT, OP_INTERCEPT, OP_ROUTE, OP_BACKEND}"

text \<open>Actions and instructions agree with the depths the validator computes.\<close>

lemma depth_action: "is_action op \<Longrightarrow> depth_after op d = Some d' \<longleftrightarrow> d = Suc d'"
  by (cases op) (auto simp: is_action_def depth_after.simps)

lemma depth_bool_step:
  "\<not> is_action op \<Longrightarrow> depth_after op (length stk) = Some d \<Longrightarrow> length (bool_step atom op p stk) = d"
  by (cases op) (auto simp: is_action_def depth_after.simps split: if_splits)

lemma bool_step_frame:
  "depth_after op (length stk) = Some d \<Longrightarrow> \<not> is_action op \<Longrightarrow>
   bool_step atom op p (stk @ ext) = bool_step atom op p stk @ ext"
  by (cases op; cases stk; cases "tl stk")
    (auto simp: is_action_def depth_after.simps split: if_splits)

definition acts_on :: "(opcode \<Rightarrow> nat \<Rightarrow> bool) \<Rightarrow> (opcode \<Rightarrow> nat \<Rightarrow> 'r option) \<Rightarrow> bool" where
  "acts_on ok act \<longleftrightarrow> (\<forall>op p. ok op p \<longrightarrow> (act op p \<noteq> None \<longleftrightarrow> is_action op))"

lemma valid_ConsE:
  assumes "valid_instrs ok (i # is) d" and "acts_on ok act"
  obtains (action) r where "act (fst i) (snd i) = Some r" and "0 < d"
      and "is_action (fst i)" and "ok (fst i) (snd i)"
      and "depth_after (fst i) d = Some (d - 1)" and "valid_instrs ok is (d - 1)"
    | (plain) d' where "act (fst i) (snd i) = None" and "\<not> is_action (fst i)"
      and "ok (fst i) (snd i)" and "depth_after (fst i) d = Some d'" and "valid_instrs ok is d'"
proof -
  from assms(1) obtain d' where d': "depth_after (fst i) d = Some d'" "valid_instrs ok is d'"
    and ok: "ok (fst i) (snd i)"
    by (auto split: option.splits)
  show thesis
  proof (cases "is_action (fst i)")
    case True
    with d' depth_action [of "fst i" d d'] have "d = Suc d'" by simp
    with True d' ok assms(2) action show ?thesis by (auto simp: acts_on_def)
  next
    case False
    with ok assms(2) have "act (fst i) (snd i) = None" by (metis acts_on_def)
    with False d' ok plain show ?thesis by blast
  qed
qed

lemma decide_append:
  "decide act atom (is @ js) stk =
     (case decide act atom is stk of Inl r \<Rightarrow> Inl r | Inr stk' \<Rightarrow> decide act atom js stk')"
  by (induction "is" arbitrary: stk) (auto split: option.splits)

lemma decide_depth:
  assumes acts: "acts_on ok act"
  shows "valid_instrs ok is (length stk) \<Longrightarrow> decide act atom is stk = Inr stk' \<Longrightarrow>
    length stk' = final_depth is (length stk)"
proof (induction "is" arbitrary: stk)
  case Nil
  then show ?case by simp
next
  case (Cons i "is")
  from Cons.prems(1) acts show ?case
  proof (cases rule: valid_ConsE)
    case (action r)
    with Cons.prems Cons.IH [of "tl stk"] show ?thesis by (auto split: if_splits)
  next
    case (plain d')
    with Cons.prems Cons.IH [of "bool_step atom (fst i) (snd i) stk"]
      depth_bool_step [of "fst i" stk d' atom "snd i"] show ?thesis
      by (auto simp del: bool_step.simps)
  qed
qed

text \<open>Values below the part of the stack that validation accounts for change nothing.\<close>

lemma decide_frame:
  assumes acts: "acts_on ok act"
  shows "valid_instrs ok is (length stk) \<Longrightarrow>
    decide act atom is (stk @ ext) =
      (case decide act atom is stk of Inl r \<Rightarrow> Inl r | Inr stk' \<Rightarrow> Inr (stk' @ ext))"
proof (induction "is" arbitrary: stk)
  case Nil
  then show ?case by simp
next
  case (Cons i "is")
  from Cons.prems acts show ?case
  proof (cases rule: valid_ConsE)
    case (action r)
    with Cons.IH [of "tl stk"] show ?thesis by (cases stk) auto
  next
    case (plain d')
    with Cons.IH [of "bool_step atom (fst i) (snd i) stk"]
      depth_bool_step [of "fst i" stk d' atom "snd i"] bool_step_frame [of "fst i" stk d' atom "snd i" ext]
    show ?thesis by (auto simp del: bool_step.simps)
  qed
qed

lemma decide_result:
  "decide act atom is stk = Inl r \<Longrightarrow> \<exists>i \<in> set is. act (fst i) (snd i) = Some r"
  by (induction "is" arbitrary: stk) (auto split: option.splits if_splits)

lemma bool_step_cong: "atom op p = atom' op p \<Longrightarrow> bool_step atom op p stk = bool_step atom' op p stk"
  by (cases op) simp_all

lemma decide_cong:
  "(\<And>i. i \<in> set is \<Longrightarrow> atom (fst i) (snd i) = atom' (fst i) (snd i)) \<Longrightarrow>
   decide act atom is stk = decide act atom' is stk"
proof (induction "is" arbitrary: stk)
  case Nil
  then show ?case by simp
next
  case (Cons i "is")
  then have step: "bool_step atom (fst i) (snd i) stk = bool_step atom' (fst i) (snd i) stk"
    by (intro bool_step_cong) simp
  have "decide act atom is s = decide act atom' is s" for s using Cons by simp
  with step show ?case by (simp del: bool_step.simps split: option.splits)
qed

text \<open>Programs over different parameters that agree on every instruction.\<close>

lemma decide_map:
  "(\<And>i. i \<in> set is \<Longrightarrow> act' (fst i) (f (fst i) (snd i)) = act (fst i) (snd i) \<and>
      (act (fst i) (snd i) = None \<longrightarrow> atom' (fst i) (f (fst i) (snd i)) = atom (fst i) (snd i))) \<Longrightarrow>
   decide act' atom' (map (\<lambda>i. (fst i, f (fst i) (snd i))) is) stk = decide act atom is stk"
proof (induction "is" arbitrary: stk)
  case Nil
  then show ?case by simp
next
  case (Cons i "is")
  have IH: "decide act' atom' (map (\<lambda>i. (fst i, f (fst i) (snd i))) is) s = decide act atom is s" for s
    using Cons by simp
  have i: "act' (fst i) (f (fst i) (snd i)) = act (fst i) (snd i)"
    "act (fst i) (snd i) = None \<Longrightarrow>
      bool_step atom' (fst i) (f (fst i) (snd i)) stk = bool_step atom (fst i) (snd i) stk"
    using Cons.prems [of i] by (cases "fst i"; simp)+
  show ?case
    by (cases "act (fst i) (snd i)") (simp_all add: IH i del: bool_step.simps)
qed

subsection \<open>The contract of an evaluator\<close>

text \<open>
  An evaluator implements the decision semantics: \<open>body\<close> is its switch over a stack and its own
  data, \<open>ok\<close> says which instructions its validator accepts, \<open>inv\<close> is an invariant of its data,
  \<open>act\<close> gives its results and \<open>atom\<close> the truth values it computes. Its law is about one
  instruction: no panic, the data stay in the invariant, and the stack is the specified one.
\<close>

locale decision_machine =
  fixes body :: "opcode \<Rightarrow> nat \<Rightarrow> bool list \<times> 'ev \<Rightarrow> ('r, bool list \<times> 'ev) flow outcome"
    and ok :: "opcode \<Rightarrow> nat \<Rightarrow> bool"
    and inv :: "'ev \<Rightarrow> bool"
    and act :: "opcode \<Rightarrow> nat \<Rightarrow> 'r option"
    and atom :: "opcode \<Rightarrow> nat \<Rightarrow> bool"
  assumes acts: "acts_on ok act"
    and step_action: "ok op p \<Longrightarrow> act op p = Some r \<Longrightarrow>
      body op p (b # stk, ev) = Done (if b then Return r else Continue (stk, ev))"
    and step_plain: "ok op p \<Longrightarrow> \<not> is_action op \<Longrightarrow> inv ev \<Longrightarrow>
      depth_after op (length stk) = Some d \<Longrightarrow>
      \<exists>ev'. inv ev' \<and> body op p (stk, ev) = Done (Continue (bool_step atom op p stk, ev'))"
begin

lemma run_decides:
  "valid_instrs ok is (length stk) \<Longrightarrow> inv ev \<Longrightarrow>
   \<exists>ev'. inv ev' \<and> run_instrs body is (stk, ev) =
     Done (case decide act atom is stk of Inl r \<Rightarrow> Return r | Inr stk' \<Rightarrow> Continue (stk', ev'))"
proof (induction "is" arbitrary: stk ev)
  case Nil
  then show ?case by auto
next
  case (Cons i "is")
  from Cons.prems(1) acts show ?case
  proof (cases rule: valid_ConsE)
    case (action r)
    then obtain b stk' where stk: "stk = b # stk'" by (cases stk) auto
    with action Cons.prems(2) step_action [of "fst i" "snd i" r b stk' ev] Cons.IH [of stk' ev]
    show ?thesis by auto
  next
    case (plain d')
    from step_plain [OF plain(3,2) Cons.prems(2) plain(4)] obtain ev' where
        ev': "inv ev'" "body (fst i) (snd i) (stk, ev) =
          Done (Continue (bool_step atom (fst i) (snd i) stk, ev'))"
      by blast
    from plain depth_bool_step [of "fst i" stk d' atom "snd i"]
    have "valid_instrs ok is (length (bool_step atom (fst i) (snd i) stk))" by simp
    from Cons.IH [OF this ev'(1)] ev'(2) plain(1) show ?thesis
      by (auto simp del: bool_step.simps)
  qed
qed

end

text \<open>
  A machine together with the source's validator callback; \<open>pre\<close> is what the constructor checks
  of the tables before it validates any code.
\<close>

locale validated_machine = decision_machine +
  fixes vop :: validate_op and pre :: bool
  assumes vop_ok: "pre \<Longrightarrow> accepts vop ok"
begin

lemma validated_run:
  assumes "pre" and "validateBytecode name code vop = Inr u" and "inv ev"
  obtains "is" ev' where "code = encode_prog is" and "list_all wf_instr is"
    and "valid_instrs ok is 0" and "inv ev'"
    and "run_bytecode body code 0 ([], ev) =
      Done (case decide act atom is [] of Inl r \<Rightarrow> Return r | Inr stk' \<Rightarrow> Continue (stk', ev'))"
proof -
  from assms(2) obtain "is" where "code = encode_prog is" "list_all wf_instr is" "valid_instrs ok is 0"
    using validateBytecode_iff [OF vop_ok [OF assms(1)]] by blast
  with run_decides [of "is" "[]" ev] assms(3) that show thesis by (auto simp: decode_simps)
qed

end

end
