(* ===== verification/RuleText.thy ===== *)
theory RuleText
  imports BytecodeMachine
begin

text \<open>
  The textual side of \<^verbatim>\<open>src/routing/parser.go\<close>: rule lines, operation names, the split of a
  program into segments, and the three-valued analysis that decides which segments can still
  trigger for a router method. The errors of the parser are the constructors of \<open>perr\<close>; what a
  message prints besides the operation, the line and the argument is left out.
\<close>

datatype perr =
    PUnknownOperation string nat string
  | PLine string nat perr
  | PNoArgument string
  | PNeedsArgument string
  | PInvalidUint string string
  | PRange string nat
  | PTooManyEntries string
  | PInvalidRegexp string string
  | PInvalidIPv4 string string
  | PInvalidIPv6 string string
  | PInvalidIPv4Subnet string string
  | PInvalidIPv6Subnet string string
  | PRuleParam string
  | PRouteSlot string
  | PRouteField string
  | PRouteEmptyValue string
  | PRouteDuplicate string
  | PRouteUnknown string
  | PBackendName string
  | PSniffName string
  | PSniffNilFactory string
  | PSniffDuplicate string
  | PSniffClassifier nat perr
  | PSniffConstructorName string
  | PSniffConstructor nat perr
  | PSniffNilConstructor string
  | PSniffDuplicateConstructor string
  | PSniffSpec string
  | PSniffUnknown string
  | PSniffConstruct string string
  | PSniffInline string perr
  | PSnifferSegment
  | PRemapArgs
  | PRemapEndpoint string
  | PRemapField string
  | PRemapHostPort string
  | PRemapSegment nat nat
  | PRemapLine nat perr
  | PValidate bc_error

subsection \<open>Lines\<close>

record ruleLine =
  ln_no :: nat
  ln_text :: string

definition splitBytecodeRuleLines :: "string \<Rightarrow> ruleLine list" where
  "splitBytecodeRuleLines src =
     map (\<lambda>(i, line). \<lparr>ln_no = i + 1, ln_text = trimRight line [CHR 0x0D]\<rparr>)
       (enumerate 0 (split_on (CHR 0x0A) src))"

definition blank :: string where
  "blank = [CHR '' '', CHR 0x09]"

fun cut_blank :: "string \<Rightarrow> (string \<times> string) option" where
  "cut_blank [] = None"
| "cut_blank (c # s) =
     (if c \<in> set blank then Some ([], s)
      else map_option (\<lambda>(a, b). (c # a, b)) (cut_blank s))"

text \<open>\<open>splitRuleLine\<close>: the operation name, and the argument if a blank follows it.\<close>

definition splitRuleLine :: "string \<Rightarrow> string \<times> string option" where
  "splitRuleLine line =
     (let line = trimLeft line blank in
      case cut_blank line of
        Some (op, arg) \<Rightarrow> (op, Some arg)
      | None \<Rightarrow> (line, None))"

definition skipped_line :: "string \<Rightarrow> bool" where
  "skipped_line line = (let trimmed = trimSpace line in trimmed = [] \<or> hasPrefix trimmed ''#'')"

subsection \<open>Operation names\<close>

definition bytecodeOpNames :: "(string \<times> opcode) list" where
  "bytecodeOpNames =
     [(''DROP'', OP_DROP), (''SLOT'', OP_SLOT), (''TRUE'', OP_TRUE), (''FALSE'', OP_FALSE),
      (''NOT'', OP_NOT), (''AND'', OP_AND), (''OR'', OP_OR), (''NET4'', OP_NET4),
      (''NET6'', OP_NET6), (''UDP'', OP_UDP), (''TCP'', OP_TCP), (''FQDN'', OP_FQDN),
      (''LFQDN'', OP_LFQDN), (''ADDR_S'', OP_ADDR_S), (''LADDR_S'', OP_LADDR_S),
      (''ADDR_RE'', OP_ADDR_RE), (''LADDR_RE'', OP_LADDR_RE), (''ADDR4'', OP_ADDR4),
      (''LADDR4'', OP_LADDR4), (''ADDR6'', OP_ADDR6), (''LADDR6'', OP_LADDR6),
      (''SNET4'', OP_SNET4), (''LSNET4'', OP_LSNET4), (''SNET6'', OP_SNET6),
      (''LSNET6'', OP_LSNET6), (''PORT'', OP_PORT), (''LPORT'', OP_LPORT), (''RULE'', OP_RULE),
      (''DIAL'', OP_DIAL), (''LISTEN'', OP_LISTEN), (''LOOKUP'', OP_LOOKUP),
      (''INTERCEPT'', OP_INTERCEPT), (''SNIFF'', OP_SNIFF), (''SNIFF_NONE'', OP_SNIFF_NONE),
      (''ROUTE'', OP_ROUTE), (''BACKEND'', OP_BACKEND), (''QTYPE'', OP_QTYPE),
      (''QCLASS'', OP_QCLASS), (''OPCODE'', OP_OPCODE)]"

definition bytecodeOpByName :: "string \<Rightarrow> opcode option" where
  "bytecodeOpByName name = map_of bytecodeOpNames name"

text \<open>\<open>bytecodeName\<close>: the only name of an opcode.\<close>

definition bytecodeName :: "opcode \<Rightarrow> string" where
  "bytecodeName op = (case find (\<lambda>(_, candidate). candidate = op) bytecodeOpNames of
     Some (name, _) \<Rightarrow> name | None \<Rightarrow> [])"

definition line_op :: "string \<Rightarrow> opcode option" where
  "line_op line = bytecodeOpByName (toUpper (fst (splitRuleLine line)))"

subsection \<open>Segments\<close>

definition bytecodeRuleLineEndsSegment :: "string \<Rightarrow> bool" where
  "bytecodeRuleLineEndsSegment line =
     (if skipped_line line then False
      else toUpper (fst (splitRuleLine line)) \<in>
        {''DROP'', ''SLOT'', ''INTERCEPT'', ''ROUTE'', ''REMAP'', ''BACKEND''})"

text \<open>The loop of \<^verbatim>\<open>splitBytecodeRuleSegments\<close>; \<open>segment\<close> is the open segment.\<close>

fun segments_from :: "ruleLine list \<Rightarrow> ruleLine list \<Rightarrow> ruleLine list list" where
  "segments_from segment [] = (if segment \<noteq> [] then [segment] else [])"
| "segments_from segment (line # lines) =
     (if bytecodeRuleLineEndsSegment (ln_text line)
      then (segment @ [line]) # segments_from [] lines
      else segments_from (segment @ [line]) lines)"

definition splitBytecodeRuleSegments :: "string \<Rightarrow> ruleLine list list" where
  "splitBytecodeRuleSegments src = segments_from [] (splitBytecodeRuleLines src)"

subsection \<open>Which segments can trigger\<close>

datatype boolState = BFalse | BTrue | BUnknown

definition boolFromBool :: "bool \<Rightarrow> boolState" where
  "boolFromBool v = (if v then BTrue else BFalse)"

fun boolNot :: "boolState \<Rightarrow> boolState" where
  "boolNot BFalse = BTrue"
| "boolNot BTrue = BFalse"
| "boolNot BUnknown = BUnknown"

definition boolAnd :: "boolState \<Rightarrow> boolState \<Rightarrow> boolState" where
  "boolAnd a b =
     (if a = BFalse \<or> b = BFalse then BFalse
      else if a = BTrue \<and> b = BTrue then BTrue
      else BUnknown)"

definition boolOr :: "boolState \<Rightarrow> boolState \<Rightarrow> boolState" where
  "boolOr a b =
     (if a = BTrue \<or> b = BTrue then BTrue
      else if a = BFalse \<and> b = BFalse then BFalse
      else BUnknown)"

text \<open>The loop of \<open>bytecodeSegmentCanTrigger\<close>, the stack with its top first.\<close>

fun canTrigger_from :: "bytecodeMethod \<Rightarrow> ruleLine list \<Rightarrow> bool \<Rightarrow> boolState list \<Rightarrow> bool" where
  "canTrigger_from method [] hasMethodOp stack = True"
| "canTrigger_from method (line # lines) hasMethodOp stack =
     (if skipped_line (ln_text line) then canTrigger_from method lines hasMethodOp stack
      else case line_op (ln_text line) of
        None \<Rightarrow> True
      | Some op \<Rightarrow>
          if op = OP_DROP \<or> op = OP_SLOT then
            (case stack of [] \<Rightarrow> True | condition # _ \<Rightarrow> \<not> hasMethodOp \<or> condition \<noteq> BFalse)
          else if op = OP_TRUE then canTrigger_from method lines hasMethodOp (BTrue # stack)
          else if op = OP_FALSE then canTrigger_from method lines hasMethodOp (BFalse # stack)
          else if op = OP_NOT then
            (case stack of [] \<Rightarrow> True
             | b # stack' \<Rightarrow> canTrigger_from method lines hasMethodOp (boolNot b # stack'))
          else if op = OP_AND then
            (case stack of b # a # stack' \<Rightarrow> canTrigger_from method lines hasMethodOp (boolAnd a b # stack')
             | _ \<Rightarrow> True)
          else if op = OP_OR then
            (case stack of b # a # stack' \<Rightarrow> canTrigger_from method lines hasMethodOp (boolOr a b # stack')
             | _ \<Rightarrow> True)
          else if op = OP_DIAL then
            canTrigger_from method lines True (boolFromBool (method = MethodDial) # stack)
          else if op = OP_LISTEN then
            canTrigger_from method lines True (boolFromBool (method = MethodListen) # stack)
          else if op = OP_LOOKUP then
            canTrigger_from method lines True (boolFromBool (method = MethodLookup) # stack)
          else canTrigger_from method lines hasMethodOp (BUnknown # stack))"

definition bytecodeSegmentCanTrigger :: "ruleLine list \<Rightarrow> bytecodeMethod \<Rightarrow> bool" where
  "bytecodeSegmentCanTrigger segment method = canTrigger_from method segment False []"

subsection \<open>Sniffer phases of a segment\<close>

record snifferTargets =
  tg_control :: bool
  tg_sniff :: bool

fun sniffer_targets_from :: "ruleLine list \<Rightarrow> bool \<Rightarrow> bool \<Rightarrow> perr + snifferTargets" where
  "sniffer_targets_from [] hasSniffPredicate hasIntercept =
     (if hasSniffPredicate \<and> hasIntercept then Inl PSnifferSegment
      else Inr \<lparr>tg_control = (\<not> hasSniffPredicate), tg_sniff = (\<not> hasIntercept)\<rparr>)"
| "sniffer_targets_from (line # lines) hasSniffPredicate hasIntercept =
     (if skipped_line (ln_text line) then sniffer_targets_from lines hasSniffPredicate hasIntercept
      else case line_op (ln_text line) of
        None \<Rightarrow> Inr \<lparr>tg_control = True, tg_sniff = True\<rparr>
      | Some op \<Rightarrow>
          sniffer_targets_from lines (hasSniffPredicate \<or> op = OP_SNIFF \<or> op = OP_SNIFF_NONE)
            (hasIntercept \<or> op = OP_INTERCEPT))"

definition bytecodeSnifferSegmentTargets :: "ruleLine list \<Rightarrow> perr + snifferTargets" where
  "bytecodeSnifferSegmentTargets segment = sniffer_targets_from segment False False"

subsection \<open>Facts\<close>

lemma bytecodeOpByName_name: "bytecodeOpByName (bytecodeName op) = Some op"
proof -
  have "list_all (\<lambda>op. bytecodeOpByName (bytecodeName op) = Some op) opcodes" by code_simp
  moreover have "op \<in> set opcodes" by (cases op) (simp_all add: opcodes_def)
  ultimately show ?thesis by (simp add: list_all_iff)
qed

lemma segments_concat: "concat (segments_from segment lines) = segment @ lines"
  by (induction lines arbitrary: segment) auto

end
