(* ===== verification/AddrCache.thy ===== *)
theory AddrCache
  imports BytecodeMachine
begin

text \<open>
  The evaluation context of \<^verbatim>\<open>src/routing/bytecode.go\<close>: the memoised view of one endpoint
  (\<^verbatim>\<open>addrCache\<close>), the DNS messages and the reverse-name reader of \<^verbatim>\<open>src/dns\<close> it consults, and
  \<^verbatim>\<open>LookupPortOffline\<close> of \<^verbatim>\<open>src/resolver.go\<close>.

  Each method takes the cache and returns its value with the updated cache. Three things are
  outside the sources and are parameters: \<open>e_lookupPort\<close> is \<^verbatim>\<open>net.Resolver.LookupPort\<close> with
  dialling blocked (it reads the system's service database), \<open>e_match\<close> is
  \<^verbatim>\<open>regexp.Regexp.MatchString\<close>, and a \<open>storage\<close> is the \<^verbatim>\<open>Get\<close> method of the caller's
  \<^verbatim>\<open>dns.CacheStorage\<close> at the time of the call. A cache is never a nil pointer in the
  evaluators, so the nil branches of the methods do not arise.

  The second half shows that memoisation is transparent: under \<open>cache_ok\<close> every method
  returns what the direct computations \<open>host_of\<close>, \<open>ip_of\<close>, \<open>port_of\<close> and \<open>names_of\<close> give.
\<close>

subsection \<open>DNS messages and cached reverse names\<close>

record question =
  q_name :: string
  q_type :: u16
  q_class :: u16

record resource =
  rr_name :: string
  rr_type :: u16
  rr_class :: u16
  rr_ttl :: u32
  rr_data :: string

record message =
  msg_id :: u16
  msg_response :: bool
  msg_opcode :: byte
  msg_rcode :: byte
  msg_authoritative :: bool
  msg_truncated :: bool
  msg_recursionDesired :: bool
  msg_recursionAvailable :: bool
  msg_authenticatedData :: bool
  msg_checkingDisabled :: bool
  msg_questions :: "question list"
  msg_answers :: "resource list"
  msg_authorities :: "resource list"
  msg_additionals :: "resource list"

type_synonym storage = "string \<Rightarrow> message option"

definition TypeA :: u16 where "TypeA = 1"
definition TypeAAAA :: u16 where "TypeAAAA = 28"
definition TypePTR :: u16 where "TypePTR = 12"
definition ClassIN :: u16 where "ClassIN = 1"

definition cachedReverseDNSNames :: "storage option \<Rightarrow> addr \<Rightarrow> string list" where
  "cachedReverseDNSNames st a =
     (case st of
        None \<Rightarrow> []
      | Some get \<Rightarrow>
          let a = unmap a in
          if \<not> isValid a then []
          else (case get (addr_string a @ ''.|12|1'') of
                  None \<Rightarrow> []
                | Some msg \<Rightarrow>
                    if \<not> msg_response msg \<or> msg_rcode msg \<noteq> 0 then []
                    else map rr_data (filter (\<lambda>rr. \<not> (rr_type rr \<noteq> TypePTR \<or> rr_class rr \<noteq> ClassIN
                                                     \<or> rr_data rr = [])) (msg_answers msg))))"

subsection \<open>Service names\<close>

definition wellKnownPorts :: "(string \<times> (string \<times> int) list) list" where
  "wellKnownPorts =
     [(''tcp'', [(''http'', 80), (''https'', 443), (''tls'', 443), (''ssl'', 443), (''ssh'', 22),
                 (''ftp'', 21), (''smtp'', 25), (''dns'', 53), (''pop3'', 110), (''pop'', 110),
                 (''imap'', 143), (''telnet'', 23), (''socks'', 1080), (''mysql'', 3306),
                 (''postgres'', 5432), (''redis'', 6379), (''mongodb'', 27017)]),
      (''udp'', [(''dns'', 53), (''dhcp'', 67), (''ntp'', 123)])]"

definition lookupPortOffline ::
    "(string \<Rightarrow> string \<Rightarrow> int option) \<Rightarrow> string \<Rightarrow> string \<Rightarrow> int option" where
  "lookupPortOffline lookup network service =
     (case lookup network service of
        Some port \<Rightarrow> Some port
      | None \<Rightarrow>
          (case map_of wellKnownPorts (toLower network) of
             None \<Rightarrow> None
           | Some ports \<Rightarrow> map_of ports (toLower service)))"

subsection \<open>Host strings\<close>

definition splitHostPort :: "string \<Rightarrow> (string \<times> string) option" where
  "splitHostPort s = (if s = [] then None else splitHostPort_net s)"

definition hostFromString :: "string \<Rightarrow> string" where
  "hostFromString s =
     (case splitHostPort s of
        Some (host, _) \<Rightarrow> trim host ''[]''
      | None \<Rightarrow> trim s ''[]'')"

definition parseHostIP :: "string \<Rightarrow> addr" where
  "parseHostIP host =
     (if host = [] then AddrZero
      else (case parseAddr host of None \<Rightarrow> AddrZero | Some a \<Rightarrow> unmap a))"

definition addrFromIP :: "net_ip \<Rightarrow> addr" where
  "addrFromIP ip = (case addrFromSlice ip of None \<Rightarrow> AddrZero | Some a \<Rightarrow> unmap a)"

definition dnsNameEqual :: "string \<Rightarrow> string \<Rightarrow> bool" where
  "dnsNameEqual name want =
     (if name = want then True
      else if length name = length want + 1 then
        length want > 0 \<and> want ! (length want - 1) \<noteq> CHR ''.'' \<and>
        name ! length want = CHR ''.'' \<and> take (length want) name = want
      else if length want = length name + 1 then
        length name > 0 \<and> name ! (length name - 1) \<noteq> CHR ''.'' \<and>
        want ! length name = CHR ''.'' \<and> take (length name) want = name
      else False)"

definition matchDNSNameRegexp :: "(string \<Rightarrow> bool) \<Rightarrow> string \<Rightarrow> bool" where
  "matchDNSNameRegexp matches name =
     (if matches name then True
      else if length name > 1 \<and> name ! (length name - 1) = CHR ''.'' \<and>
              name ! (length name - 2) \<noteq> CHR ''.''
        then matches (take (length name - 1) name)
      else if name \<noteq> [] \<and> \<not> hasSuffix name ''.'' then matches (name @ ''.'')
      else False)"

subsection \<open>The cache\<close>

record addrInput =
  in_str :: string
  in_addr :: "net_addr option"

record addrCache =
  ac_input :: addrInput
  hostDone :: bool
  hostVal :: string
  ipDone :: bool
  ipVal :: addr
  portDone :: bool
  portVal :: int
  reverseStorage :: "storage option"
  reverseEnabled :: bool
  reverseDone :: bool
  reverseNames :: "string list"

definition newAddrCache :: "addrInput \<Rightarrow> storage option \<Rightarrow> bool \<Rightarrow> addrCache" where
  "newAddrCache inp st reverse =
     (let st = (if reverse then st else None) in
      \<lparr>ac_input = inp, hostDone = False, hostVal = [], ipDone = False, ipVal = AddrZero,
       portDone = False, portVal = 0, reverseStorage = st, reverseEnabled = (st \<noteq> None),
       reverseDone = False, reverseNames = []\<rparr>)"

definition itoa_int :: "int \<Rightarrow> string" where
  "itoa_int n = (if n < 0 then ''-'' @ itoa (nat (- n)) else itoa (nat n))"

fun net_addr_string :: "net_addr \<Rightarrow> string" where
  "net_addr_string (TCPAddr ip port zone) =
     joinHostPort ((if ip = [] then [] else ip_string ip) @ (if zone = [] then [] else ''%'' @ zone))
       (itoa_int port)"
| "net_addr_string (UDPAddr ip port zone) =
     joinHostPort ((if ip = [] then [] else ip_string ip) @ (if zone = [] then [] else ''%'' @ zone))
       (itoa_int port)"
| "net_addr_string (IPAddr ip zone) =
     (if ip = [] then [] else ip_string ip) @ (if zone = [] then [] else ''%'' @ zone)"
| "net_addr_string (OtherAddr s) = s"

definition rawString :: "addrCache \<Rightarrow> string" where
  "rawString a = (case in_addr (ac_input a) of Some ad \<Rightarrow> net_addr_string ad | None \<Rightarrow> in_str (ac_input a))"

definition ac_host :: "addrCache \<Rightarrow> string \<times> addrCache" where
  "ac_host a =
     (if hostDone a then (hostVal a, a)
      else let v = (case in_addr (ac_input a) of
                      Some (TCPAddr ip _ _) \<Rightarrow> ip_string ip
                    | Some (UDPAddr ip _ _) \<Rightarrow> ip_string ip
                    | Some (IPAddr ip _) \<Rightarrow> ip_string ip
                    | None \<Rightarrow> hostFromString (in_str (ac_input a))
                    | Some (OtherAddr s) \<Rightarrow> hostFromString s)
           in (v, a\<lparr>hostDone := True, hostVal := v\<rparr>))"

definition ac_ip :: "addrCache \<Rightarrow> addr \<times> addrCache" where
  "ac_ip a =
     (if ipDone a then (ipVal a, a)
      else let a1 = a\<lparr>ipDone := True\<rparr>;
               (v, a2) = (case in_addr (ac_input a) of
                      Some (TCPAddr ip _ _) \<Rightarrow> (addrFromIP ip, a1)
                    | Some (UDPAddr ip _ _) \<Rightarrow> (addrFromIP ip, a1)
                    | Some (IPAddr ip _) \<Rightarrow> (addrFromIP ip, a1)
                    | _ \<Rightarrow> (let (h, a') = ac_host a1 in (parseHostIP h, a')))
           in (v, a2\<lparr>ipVal := v\<rparr>))"

definition ac_isFQDN :: "addrCache \<Rightarrow> bool \<times> addrCache" where
  "ac_isFQDN a =
     (let (host, a1) = ac_host a in
      if host = [] then (False, a1)
      else let (ip, a2) = ac_ip a1 in (\<not> isValid ip, a2))"

definition ac_isIPv4 :: "addrCache \<Rightarrow> bool \<times> addrCache" where
  "ac_isIPv4 a = (let (ip, a1) = ac_ip a in (is4 ip, a1))"

definition ac_isIPv6 :: "addrCache \<Rightarrow> bool \<times> addrCache" where
  "ac_isIPv6 a = (let (ip, a1) = ac_ip a in (is6 ip, a1))"

definition ac_matchIPv4 :: "u32 \<Rightarrow> addrCache \<Rightarrow> bool \<times> addrCache" where
  "ac_matchIPv4 want a =
     (let (ip, a1) = ac_ip a in ((case ip of V4 x \<Rightarrow> x = want | _ \<Rightarrow> False), a1))"

definition ac_inIPv4Subnet :: "ipv4Subnet \<Rightarrow> addrCache \<Rightarrow> bool \<times> addrCache" where
  "ac_inIPv4Subnet sn a =
     (let (ip, a1) = ac_ip a in ((case ip of V4 x \<Rightarrow> subnet_contains sn x | _ \<Rightarrow> False), a1))"

definition ac_ipv6 :: "addrCache \<Rightarrow> addr \<times> addrCache" where
  "ac_ipv6 a = (let (ip, a1) = ac_ip a in (if \<not> is6 ip then AddrZero else ip, a1))"

record 're host_env =
  e_lookupPort :: "string \<Rightarrow> string \<Rightarrow> int option"
  e_match :: "'re \<Rightarrow> string \<Rightarrow> bool"

definition port_text_value :: "'re host_env \<Rightarrow> string \<Rightarrow> string \<Rightarrow> int" where
  "port_text_value env network raw =
     (let port = (case splitHostPort raw of Some (_, p) \<Rightarrow> p | None \<Rightarrow> raw) in
      if port = [] then -1
      else (case parseUint 16 port of
              Some p \<Rightarrow> int p
            | None \<Rightarrow>
                (case lookupPortOffline (e_lookupPort env) network port of
                   Some p \<Rightarrow> if 0 \<le> p \<and> p \<le> 65535 then p else -1
                 | None \<Rightarrow> -1)))"

definition ac_port :: "'re host_env \<Rightarrow> string \<Rightarrow> addrCache \<Rightarrow> int \<times> addrCache" where
  "ac_port env network a =
     (if portDone a then (portVal a, a)
      else let v = (case in_addr (ac_input a) of
                      Some (TCPAddr _ p _) \<Rightarrow> p
                    | Some (UDPAddr _ p _) \<Rightarrow> p
                    | _ \<Rightarrow> port_text_value env network (rawString a))
           in (v, a\<lparr>portDone := True, portVal := v\<rparr>))"

definition ac_reverseDNSNames :: "addrCache \<Rightarrow> string list \<times> addrCache" where
  "ac_reverseDNSNames a =
     (if \<not> reverseEnabled a \<or> reverseStorage a = None then ([], a)
      else if reverseDone a then (reverseNames a, a)
      else let (ip, a1) = ac_ip (a\<lparr>reverseDone := True\<rparr>) in
           if \<not> isValid ip then ([], a1)
           else let ns = cachedReverseDNSNames (reverseStorage a) ip
                in (ns, a1\<lparr>reverseNames := ns\<rparr>))"

definition ac_matchString :: "string \<Rightarrow> addrCache \<Rightarrow> bool \<times> addrCache" where
  "ac_matchString want a =
     (let (host, a1) = ac_host a in
      if host = want then (True, a1)
      else let (ns, a2) = ac_reverseDNSNames a1
           in (list_ex (\<lambda>name. dnsNameEqual name want) ns, a2))"

definition ac_matchRegexp :: "'re host_env \<Rightarrow> 're \<Rightarrow> addrCache \<Rightarrow> bool \<times> addrCache" where
  "ac_matchRegexp env re a =
     (let (host, a1) = ac_host a in
      if e_match env re host then (True, a1)
      else let (ns, a2) = ac_reverseDNSNames a1
           in (list_ex (matchDNSNameRegexp (e_match env re)) ns, a2))"

subsection \<open>The evaluation context\<close>

record bytecodeEval =
  ev_network :: string
  ev_laddr :: addrCache
  ev_raddr :: addrCache
  ev_isDial :: bool
  ev_isListen :: bool
  ev_isLookup :: bool

definition on_laddr :: "(addrCache \<Rightarrow> 'a \<times> addrCache) \<Rightarrow> bytecodeEval \<Rightarrow> 'a \<times> bytecodeEval" where
  "on_laddr f ev = (let (v, a) = f (ev_laddr ev) in (v, ev\<lparr>ev_laddr := a\<rparr>))"

definition on_raddr :: "(addrCache \<Rightarrow> 'a \<times> addrCache) \<Rightarrow> bytecodeEval \<Rightarrow> 'a \<times> bytecodeEval" where
  "on_raddr f ev = (let (v, a) = f (ev_raddr ev) in (v, ev\<lparr>ev_raddr := a\<rparr>))"

definition ev_isNet4 :: "bytecodeEval \<Rightarrow> bool \<times> bytecodeEval" where
  "ev_isNet4 ev =
     (if isNet4 (ev_network ev) then (True, ev)
      else if isNet6 (ev_network ev) then (False, ev)
      else let (l, ev1) = on_laddr ac_isIPv4 ev in
           if l then (True, ev1) else on_raddr ac_isIPv4 ev1)"

definition ev_isNet6 :: "bytecodeEval \<Rightarrow> bool \<times> bytecodeEval" where
  "ev_isNet6 ev =
     (if isNet6 (ev_network ev) then (True, ev)
      else if isNet4 (ev_network ev) then (False, ev)
      else let (l, ev1) = on_laddr ac_isIPv6 ev in
           if l then (True, ev1) else on_raddr ac_isIPv6 ev1)"

definition portNetwork :: "bytecodeEval \<Rightarrow> string" where
  "portNetwork ev =
     (if isTCPNet (ev_network ev) then ''tcp''
      else if isUDPNet (ev_network ev) then ''udp''
      else ev_network ev)"

subsection \<open>Memoisation is transparent\<close>

definition host_of :: "addrInput \<Rightarrow> string" where
  "host_of inp =
     (case in_addr inp of
        Some (TCPAddr ip _ _) \<Rightarrow> ip_string ip
      | Some (UDPAddr ip _ _) \<Rightarrow> ip_string ip
      | Some (IPAddr ip _) \<Rightarrow> ip_string ip
      | Some (OtherAddr s) \<Rightarrow> hostFromString s
      | None \<Rightarrow> hostFromString (in_str inp))"

definition ip_of :: "addrInput \<Rightarrow> addr" where
  "ip_of inp =
     (case in_addr inp of
        Some (TCPAddr ip _ _) \<Rightarrow> addrFromIP ip
      | Some (UDPAddr ip _ _) \<Rightarrow> addrFromIP ip
      | Some (IPAddr ip _) \<Rightarrow> addrFromIP ip
      | _ \<Rightarrow> parseHostIP (host_of inp))"

definition port_of :: "'re host_env \<Rightarrow> string \<Rightarrow> addrInput \<Rightarrow> int" where
  "port_of env nw inp =
     (case in_addr inp of
        Some (TCPAddr _ p _) \<Rightarrow> p
      | Some (UDPAddr _ p _) \<Rightarrow> p
      | Some ad \<Rightarrow> port_text_value env nw (net_addr_string ad)
      | None \<Rightarrow> port_text_value env nw (in_str inp))"

definition names_of :: "storage option \<Rightarrow> bool \<Rightarrow> addrInput \<Rightarrow> string list" where
  "names_of st enabled inp = (if enabled then cachedReverseDNSNames st (ip_of inp) else [])"

definition cache_ok :: "'re host_env \<Rightarrow> string \<Rightarrow> addrCache \<Rightarrow> bool" where
  "cache_ok env nw a \<longleftrightarrow>
     (hostDone a \<longrightarrow> hostVal a = host_of (ac_input a)) \<and>
     (ipDone a \<longrightarrow> ipVal a = ip_of (ac_input a)) \<and>
     (portDone a \<longrightarrow> portVal a = port_of env nw (ac_input a)) \<and>
     (reverseDone a \<longrightarrow>
        reverseNames a = names_of (reverseStorage a) (reverseEnabled a) (ac_input a)) \<and>
     (\<not> reverseDone a \<longrightarrow> reverseNames a = [])"

text \<open>What never changes in a cache.\<close>

definition cache_key :: "addrCache \<Rightarrow> addrInput \<times> storage option \<times> bool" where
  "cache_key a = (ac_input a, reverseStorage a, reverseEnabled a)"

text \<open>
  A method \<open>f\<close> reads \<open>g\<close> when, on every coherent cache, it returns \<open>g\<close> of the immutable
  part and leaves a coherent cache with the same immutable part.
\<close>

definition reads :: "'re host_env \<Rightarrow> string \<Rightarrow> (addrCache \<Rightarrow> 'a \<times> addrCache) \<Rightarrow>
    (addrInput \<times> storage option \<times> bool \<Rightarrow> 'a) \<Rightarrow> bool" where
  "reads env nw f g \<longleftrightarrow>
     (\<forall>a. cache_ok env nw a \<longrightarrow>
        fst (f a) = g (cache_key a) \<and> cache_ok env nw (snd (f a)) \<and> cache_key (snd (f a)) = cache_key a)"

lemma readsI:
  assumes "\<And>a. cache_ok env nw a \<Longrightarrow>
      fst (f a) = g (cache_key a) \<and> cache_ok env nw (snd (f a)) \<and> cache_key (snd (f a)) = cache_key a"
  shows "reads env nw f g"
  using assms by (simp add: reads_def)

lemma readsE:
  assumes "reads env nw f g" and "cache_ok env nw a"
  obtains a' where "f a = (g (cache_key a), a')" and "cache_ok env nw a'"
    and "cache_key a' = cache_key a"
  using assms by (metis prod.collapse reads_def)

lemma newAddrCache_ok: "cache_ok env nw (newAddrCache inp st rv)"
  by (simp add: cache_ok_def newAddrCache_def Let_def)

lemma ac_host_eq:
  "ac_host a = (if hostDone a then (hostVal a, a)
                else (host_of (ac_input a), a\<lparr>hostDone := True, hostVal := host_of (ac_input a)\<rparr>))"
  by (auto simp: ac_host_def host_of_def Let_def split: option.splits net_addr.splits)

lemma ac_port_eq:
  "ac_port env nw a = (if portDone a then (portVal a, a)
     else (port_of env nw (ac_input a), a\<lparr>portDone := True, portVal := port_of env nw (ac_input a)\<rparr>))"
  by (auto simp: ac_port_def port_of_def rawString_def Let_def split: option.splits net_addr.splits)

lemma ac_host_reads [cache_simps]: "reads env nw ac_host (\<lambda>(i, _). host_of i)"
  by (rule readsI)
    (auto simp: ac_host_eq cache_ok_def cache_key_def)

lemma ac_host_step: "cache_ok env nw a \<Longrightarrow>
    fst (ac_host a) = host_of (ac_input a) \<and> cache_ok env nw (snd (ac_host a)) \<and>
    cache_key (snd (ac_host a)) = cache_key a"
  using ac_host_reads [of env nw] by (auto simp: reads_def cache_key_def split: prod.splits)

text \<open>
  \<^verbatim>\<open>ip\<close> marks its slot done before it asks for the host; the value it then stores is the one
  the direct computation gives, whatever the slot held.
\<close>

lemma ac_host_ipDone: "ac_host (a\<lparr>ipDone := b\<rparr>) = (fst (ac_host a), (snd (ac_host a))\<lparr>ipDone := b\<rparr>)"
  by (simp add: ac_host_eq)

lemma ac_host_reverseDone:
  "ac_host (a\<lparr>reverseDone := b\<rparr>) = (fst (ac_host a), (snd (ac_host a))\<lparr>reverseDone := b\<rparr>)"
  by (simp add: ac_host_eq)

lemma ac_host_same:
  "ac_input (snd (ac_host a)) = ac_input a" "ipDone (snd (ac_host a)) = ipDone a"
  "reverseDone (snd (ac_host a)) = reverseDone a" "reverseNames (snd (ac_host a)) = reverseNames a"
  by (simp_all add: ac_host_eq)

lemma ac_ip_fresh:
  "\<not> ipDone a \<Longrightarrow> ac_ip a =
     (if (case in_addr (ac_input a) of None \<Rightarrow> True | Some (OtherAddr _) \<Rightarrow> True | _ \<Rightarrow> False)
      then (parseHostIP (fst (ac_host a)),
            (snd (ac_host a))\<lparr>ipDone := True, ipVal := parseHostIP (fst (ac_host a))\<rparr>)
      else (ip_of (ac_input a), a\<lparr>ipDone := True, ipVal := ip_of (ac_input a)\<rparr>))"
  by (auto simp: ac_ip_def Let_def ac_host_ipDone ip_of_def split: option.splits net_addr.splits)

lemma cache_ok_ip:
  "cache_ok env nw a \<Longrightarrow> v = ip_of (ac_input a) \<Longrightarrow> cache_ok env nw (a\<lparr>ipDone := d, ipVal := v\<rparr>)"
  by (simp add: cache_ok_def)

lemma ip_of_host:
  "(case in_addr inp of None \<Rightarrow> True | Some (OtherAddr _) \<Rightarrow> True | _ \<Rightarrow> False) \<Longrightarrow>
   parseHostIP (host_of inp) = ip_of inp"
  by (auto simp: ip_of_def split: option.splits net_addr.splits)

lemma ac_ip_reads [cache_simps]: "reads env nw ac_ip (\<lambda>(i, _). ip_of i)"
proof (rule readsI)
  fix a
  assume ok: "cache_ok env nw a"
  note h = ac_host_step [OF ok]
  show "fst (ac_ip a) = (case cache_key a of (i, _) \<Rightarrow> ip_of i) \<and>
      cache_ok env nw (snd (ac_ip a)) \<and> cache_key (snd (ac_ip a)) = cache_key a"
  proof (cases "ipDone a")
    case True
    with ok show ?thesis by (simp add: ac_ip_def cache_ok_def cache_key_def)
  next
    case False
    let ?named = "case in_addr (ac_input a) of None \<Rightarrow> True | Some (OtherAddr _) \<Rightarrow> True | _ \<Rightarrow> False"
    show ?thesis
    proof (cases ?named)
      case True
      note v = ip_of_host [OF True]
      have "cache_ok env nw ((snd (ac_host a))\<lparr>ipDone := True, ipVal := ip_of (ac_input a)\<rparr>)"
        using h by (intro cache_ok_ip) (simp_all add: ac_host_same)
      then show ?thesis
        using h v by (simp add: ac_ip_fresh [OF \<open>\<not> ipDone a\<close>] True) (simp add: cache_key_def)
    next
      case notnamed: False
      then show ?thesis
        using ok cache_ok_ip [OF ok]
        by (simp add: ac_ip_fresh [OF \<open>\<not> ipDone a\<close>]) (simp add: cache_key_def)
    qed
  qed
qed

lemma ac_port_reads [cache_simps]: "reads env nw (ac_port env nw) (\<lambda>(i, _). port_of env nw i)"
  by (rule readsI) (auto simp: ac_port_eq cache_ok_def cache_key_def)

lemma reads_map:
  assumes "reads env nw f g" and "\<And>a. h a = (let (v, a') = f a in (k v, a'))"
  shows "reads env nw h (\<lambda>x. k (g x))"
  using assms(1) by (auto simp: reads_def assms(2) split: prod.splits)

lemma reads_bind:
  assumes "reads env nw f g" and "\<And>v. reads env nw (f2 v) (g2 v)"
    and "\<And>a. h a = (let (v, a') = f a in f2 v a')"
  shows "reads env nw h (\<lambda>x. g2 (g x) x)"
  using assms(1,2) by (fastforce simp: reads_def assms(3) split: prod.splits)

lemma reads_const: "reads env nw (\<lambda>a. (v, a)) (\<lambda>_. v)"
  by (simp add: reads_def)

lemma reads_if:
  assumes "c \<Longrightarrow> reads env nw f g" and "\<not> c \<Longrightarrow> reads env nw f' g'"
  shows "reads env nw (\<lambda>a. if c then f a else f' a) (\<lambda>x. if c then g x else g' x)"
  using assms by (cases c) simp_all

lemma ac_isIPv4_reads [cache_simps]: "reads env nw ac_isIPv4 (\<lambda>x. is4 ((\<lambda>(i, _). ip_of i) x))"
  by (rule reads_map [OF ac_ip_reads]) (simp add: ac_isIPv4_def)

lemma ac_isIPv6_reads [cache_simps]: "reads env nw ac_isIPv6 (\<lambda>x. is6 ((\<lambda>(i, _). ip_of i) x))"
  by (rule reads_map [OF ac_ip_reads]) (simp add: ac_isIPv6_def)

definition match4 :: "(u32 \<Rightarrow> bool) \<Rightarrow> addr \<Rightarrow> bool" where
  "match4 p ip = (case ip of V4 x \<Rightarrow> p x | _ \<Rightarrow> False)"

lemma ac_matchIPv4_reads [cache_simps]:
  "reads env nw (ac_matchIPv4 want) (\<lambda>x. match4 (\<lambda>y. y = want) ((\<lambda>(i, _). ip_of i) x))"
  by (rule reads_map [OF ac_ip_reads]) (simp add: ac_matchIPv4_def match4_def)

lemma ac_inIPv4Subnet_reads [cache_simps]:
  "reads env nw (ac_inIPv4Subnet sn) (\<lambda>x. match4 (subnet_contains sn) ((\<lambda>(i, _). ip_of i) x))"
  by (rule reads_map [OF ac_ip_reads]) (simp add: ac_inIPv4Subnet_def match4_def)

definition only6 :: "addr \<Rightarrow> addr" where
  "only6 ip = (if \<not> is6 ip then AddrZero else ip)"

lemma ac_ipv6_reads [cache_simps]:
  "reads env nw ac_ipv6 (\<lambda>x. only6 ((\<lambda>(i, _). ip_of i) x))"
  by (rule reads_map [OF ac_ip_reads]) (simp add: ac_ipv6_def only6_def)

lemma ac_isFQDN_reads [cache_simps]:
  "reads env nw ac_isFQDN
     (\<lambda>x. (\<lambda>(i, _). host_of i) x \<noteq> [] \<and> \<not> isValid ((\<lambda>(i, _). ip_of i) x))"
proof -
  have "reads env nw ac_isFQDN
      (\<lambda>x. if (\<lambda>(i, _). host_of i) x = [] then False else \<not> isValid ((\<lambda>(i, _). ip_of i) x))"
    by (rule reads_bind [OF ac_host_reads,
          where ?f2.0 = "\<lambda>h a. if h = [] then (False, a) else let (ip, a2) = ac_ip a in (\<not> isValid ip, a2)"
            and ?g2.0 = "\<lambda>h x. if h = [] then False else \<not> isValid ((\<lambda>(i, _). ip_of i) x)"])
      (rule reads_if, rule reads_const, rule reads_map [OF ac_ip_reads], rule refl, simp add: ac_isFQDN_def)
  then show ?thesis
    by (rule back_subst [where P = "reads env nw ac_isFQDN"]) auto
qed

lemma ac_ip_done: "ipDone a \<Longrightarrow> ac_ip a = (ipVal a, a)"
  by (simp add: ac_ip_def)

lemma ac_ip_reverseDone:
  "ac_ip (a\<lparr>reverseDone := b\<rparr>) = (fst (ac_ip a), (snd (ac_ip a))\<lparr>reverseDone := b\<rparr>)"
  by (cases "ipDone a") (simp_all add: ac_ip_done ac_ip_fresh ac_host_reverseDone)

lemma ac_ip_same:
  "reverseDone (snd (ac_ip a)) = reverseDone a" "reverseNames (snd (ac_ip a)) = reverseNames a"
  by (cases "ipDone a"; simp add: ac_ip_done ac_ip_fresh ac_host_same)+

lemma cachedReverse_invalid: "\<not> isValid ip \<Longrightarrow> cachedReverseDNSNames st ip = []"
  by (simp add: cachedReverseDNSNames_def Let_def split: option.splits)

lemma cachedReverse_None: "cachedReverseDNSNames None ip = []"
  by (simp add: cachedReverseDNSNames_def)

lemma cache_ok_reverse:
  "cache_ok env nw a \<Longrightarrow> ns = names_of (reverseStorage a) (reverseEnabled a) (ac_input a) \<Longrightarrow>
   cache_ok env nw (a\<lparr>reverseDone := True, reverseNames := ns\<rparr>)"
  by (simp add: cache_ok_def)

lemma ac_reverse_reads [cache_simps]:
  "reads env nw ac_reverseDNSNames (\<lambda>(i, st, en). names_of st en i)"
proof (rule readsI)
  fix a
  assume ok: "cache_ok env nw a"
  obtain a' where ip: "ac_ip a = (ip_of (ac_input a), a')"
    and ok': "cache_ok env nw a'" and key: "cache_key a' = cache_key a"
    using readsE [OF ac_ip_reads ok] by (auto simp: cache_key_def)
  have same: "reverseDone a' = reverseDone a" "reverseNames a' = reverseNames a"
    using ac_ip_same [of a] by (simp_all add: ip)
  let ?ns = "names_of (reverseStorage a) (reverseEnabled a) (ac_input a)"
  have goal: "fst (ac_reverseDNSNames a) = ?ns \<and>
      cache_ok env nw (snd (ac_reverseDNSNames a)) \<and>
      cache_key (snd (ac_reverseDNSNames a)) = cache_key a"
  proof (cases "\<not> reverseEnabled a \<or> reverseStorage a = None \<or> reverseDone a")
    case True
    with ok show ?thesis
      by (auto simp: ac_reverseDNSNames_def names_of_def cachedReverse_None cache_ok_def)
  next
    case False
    have k: "reverseStorage a' = reverseStorage a" "reverseEnabled a' = reverseEnabled a"
        "ac_input a' = ac_input a"
      using key by (simp_all add: cache_key_def)
    have new: "cache_ok env nw (a'\<lparr>reverseDone := True, reverseNames := ?ns\<rparr>)"
      by (rule cache_ok_reverse [OF ok']) (simp add: k)
    have empty: "reverseNames a' = []" using False same ok by (simp add: cache_ok_def)
    have old: "a'\<lparr>reverseDone := True, reverseNames := []\<rparr> = a'\<lparr>reverseDone := True\<rparr>"
      using empty by simp
    show ?thesis
    proof (cases "isValid (ip_of (ac_input a))")
      case True
      then show ?thesis
        using False new k
        by (auto simp: ac_reverseDNSNames_def ac_ip_reverseDone ip names_of_def cache_key_def Let_def)
    next
      case invalid: False
      then have "?ns = []" by (simp add: names_of_def cachedReverse_invalid)
      then show ?thesis
        using False invalid new old k
        by (auto simp: ac_reverseDNSNames_def ac_ip_reverseDone ip cache_key_def)
    qed
  qed
  then show "fst (ac_reverseDNSNames a) = (case cache_key a of (i, st, en) \<Rightarrow> names_of st en i) \<and>
      cache_ok env nw (snd (ac_reverseDNSNames a)) \<and>
      cache_key (snd (ac_reverseDNSNames a)) = cache_key a"
    by (simp add: cache_key_def)
qed

definition matches_of :: "(string \<Rightarrow> bool) \<Rightarrow> (string \<Rightarrow> bool) \<Rightarrow>
    addrInput \<times> storage option \<times> bool \<Rightarrow> bool" where
  "matches_of on_host on_name = (\<lambda>(i, st, en). on_host (host_of i) \<or> list_ex on_name (names_of st en i))"

lemma host_then_names_reads:
  assumes "\<And>a. f a = (let (host, a1) = ac_host a in
      if p host then (True, a1)
      else let (ns, a2) = ac_reverseDNSNames a1 in (list_ex q ns, a2))"
  shows "reads env nw f (matches_of p q)"
proof -
  have "reads env nw f (\<lambda>x. if p ((\<lambda>(i, _). host_of i) x) then True
      else list_ex q ((\<lambda>(i, st, en). names_of st en i) x))"
    by (rule reads_bind [OF ac_host_reads,
          where ?f2.0 = "\<lambda>h a. if p h then (True, a)
              else let (ns, a2) = ac_reverseDNSNames a in (list_ex q ns, a2)"
            and ?g2.0 = "\<lambda>h x. if p h then True else list_ex q ((\<lambda>(i, st, en). names_of st en i) x)"])
      (rule reads_if, rule reads_const, rule reads_map [OF ac_reverse_reads], rule refl, simp add: assms)
  then show ?thesis
    by (rule back_subst [where P = "reads env nw f"]) (auto simp: matches_of_def)
qed

lemma ac_matchString_reads [cache_simps]:
  "reads env nw (ac_matchString want) (matches_of (\<lambda>h. h = want) (\<lambda>n. dnsNameEqual n want))"
  by (rule host_then_names_reads) (simp add: ac_matchString_def)

lemma ac_matchRegexp_reads [cache_simps]:
  "reads env nw (ac_matchRegexp env re) (matches_of (e_match env re) (matchDNSNameRegexp (e_match env re)))"
  by (rule host_then_names_reads) (simp add: ac_matchRegexp_def)

end
