(* ===== verification/Predicates.thy ===== *)
theory Predicates
  imports AddrCache
begin

text \<open>
  The lookup tables of a rule set and the predicate opcodes, which the evaluators of
  \<^verbatim>\<open>src/routing/router_bytecode.go\<close> and \<^verbatim>\<open>src/routing/remapper_bytecode.go\<close> switch over with
  the same code: \<open>predicate_body\<close> on the caches, and \<open>atom_value\<close>, what each predicate means
  on the immutable facts of an operation.
\<close>

record 're tables =
  t_strings :: "string list"
  t_regexps :: "'re option list"
  t_ipv4Addrs :: "u32 list"
  t_ipv4Subnets :: "ipv4Subnet list"
  t_ipv6Addrs :: "addr list"
  t_ipv6Subnets :: "prefix list"

subsection \<open>Stack primitives\<close>

text \<open>\<open>popBool\<close>: the top of the stack, which the source reads without a length check.\<close>

fun popBool :: "bool list \<Rightarrow> (bool \<times> bool list) outcome" where
  "popBool [] = Panic"
| "popBool (b # stk) = Done (b, stk)"

definition push :: "bool list \<Rightarrow> bool \<times> 'ev \<Rightarrow> ('r, bool list \<times> 'ev) flow outcome" where
  "push stk q = Done (Continue (fst q # stk, snd q))"

text \<open>\<^verbatim>\<open>idx, ok := bytecodeParamIndex(param, len(table)); push(ok && test(table[idx]))\<close>.\<close>

definition push_indexed :: "'t list \<Rightarrow> nat \<Rightarrow> ('t \<Rightarrow> 'ev \<Rightarrow> bool \<times> 'ev) \<Rightarrow> bool list \<Rightarrow> 'ev \<Rightarrow>
    ('r, bool list \<times> 'ev) flow outcome" where
  "push_indexed tbl param test stk ev =
     (case bytecodeParamIndex param (length tbl) of
        None \<Rightarrow> push stk (False, ev)
      | Some idx \<Rightarrow> push stk (test (tbl ! idx) ev))"

text \<open>The same for a table of regexp pointers: matching with a nil pointer panics.\<close>

definition push_regexp :: "'re option list \<Rightarrow> nat \<Rightarrow> ('re \<Rightarrow> 'ev \<Rightarrow> bool \<times> 'ev) \<Rightarrow> bool list \<Rightarrow> 'ev \<Rightarrow>
    ('r, bool list \<times> 'ev) flow outcome" where
  "push_regexp tbl param test stk ev =
     (case bytecodeParamIndex param (length tbl) of
        None \<Rightarrow> push stk (False, ev)
      | Some idx \<Rightarrow> (case tbl ! idx of None \<Rightarrow> Panic | Some re \<Rightarrow> push stk (test re ev)))"

definition push_port :: "nat \<Rightarrow> ('ev \<Rightarrow> int \<times> 'ev) \<Rightarrow> bool list \<Rightarrow> 'ev \<Rightarrow>
    ('r, bool list \<times> 'ev) flow outcome" where
  "push_port param read_port stk ev =
     (case bytecodeParamInt param 0xffff of
        None \<Rightarrow> push stk (False, ev)
      | Some port \<Rightarrow> let (v, ev') = read_port ev in push stk (v = int port, ev'))"

definition ac_is6 :: "addr \<Rightarrow> addrCache \<Rightarrow> bool \<times> addrCache" where
  "ac_is6 want a = (let (ip, a') = ac_ipv6 a in (ip = want, a'))"

definition ac_in6 :: "prefix \<Rightarrow> addrCache \<Rightarrow> bool \<times> addrCache" where
  "ac_in6 p a = (let (ip, a') = ac_ipv6 a in (pfx_contains p ip, a'))"

subsection \<open>The switch\<close>

definition predicate_body :: "'re tables \<Rightarrow> 're host_env \<Rightarrow> opcode \<Rightarrow> nat \<Rightarrow> bool list \<times> bytecodeEval \<Rightarrow>
    ('r, bool list \<times> bytecodeEval) flow outcome" where
  "predicate_body tbl env op param s =
     (let stk = fst s; ev = snd s in
      case op of
        OP_TRUE \<Rightarrow> push stk (True, ev)
      | OP_FALSE \<Rightarrow> push stk (False, ev)
      | OP_NOT \<Rightarrow> obind (popBool stk) (\<lambda>(b, stk). push stk (\<not> b, ev))
      | OP_AND \<Rightarrow> obind (popBool stk) (\<lambda>(b, stk). obind (popBool stk) (\<lambda>(a, stk). push stk (a \<and> b, ev)))
      | OP_OR \<Rightarrow> obind (popBool stk) (\<lambda>(b, stk). obind (popBool stk) (\<lambda>(a, stk). push stk (a \<or> b, ev)))
      | OP_NET4 \<Rightarrow> push stk (ev_isNet4 ev)
      | OP_NET6 \<Rightarrow> push stk (ev_isNet6 ev)
      | OP_UDP \<Rightarrow> push stk (isUDPNet (ev_network ev), ev)
      | OP_TCP \<Rightarrow> push stk (isTCPNet (ev_network ev), ev)
      | OP_DIAL \<Rightarrow> push stk (ev_isDial ev, ev)
      | OP_LISTEN \<Rightarrow> push stk (ev_isListen ev, ev)
      | OP_LOOKUP \<Rightarrow> push stk (ev_isLookup ev, ev)
      | OP_FQDN \<Rightarrow> push stk (on_raddr ac_isFQDN ev)
      | OP_LFQDN \<Rightarrow> push stk (on_laddr ac_isFQDN ev)
      | OP_ADDR_S \<Rightarrow> push_indexed (t_strings tbl) param (\<lambda>x. on_raddr (ac_matchString x)) stk ev
      | OP_LADDR_S \<Rightarrow> push_indexed (t_strings tbl) param (\<lambda>x. on_laddr (ac_matchString x)) stk ev
      | OP_ADDR_RE \<Rightarrow> push_regexp (t_regexps tbl) param (\<lambda>x. on_raddr (ac_matchRegexp env x)) stk ev
      | OP_LADDR_RE \<Rightarrow> push_regexp (t_regexps tbl) param (\<lambda>x. on_laddr (ac_matchRegexp env x)) stk ev
      | OP_ADDR4 \<Rightarrow> push_indexed (t_ipv4Addrs tbl) param (\<lambda>x. on_raddr (ac_matchIPv4 x)) stk ev
      | OP_LADDR4 \<Rightarrow> push_indexed (t_ipv4Addrs tbl) param (\<lambda>x. on_laddr (ac_matchIPv4 x)) stk ev
      | OP_ADDR6 \<Rightarrow> push_indexed (t_ipv6Addrs tbl) param (\<lambda>x. on_raddr (ac_is6 x)) stk ev
      | OP_LADDR6 \<Rightarrow> push_indexed (t_ipv6Addrs tbl) param (\<lambda>x. on_laddr (ac_is6 x)) stk ev
      | OP_SNET4 \<Rightarrow> push_indexed (t_ipv4Subnets tbl) param (\<lambda>x. on_raddr (ac_inIPv4Subnet x)) stk ev
      | OP_LSNET4 \<Rightarrow> push_indexed (t_ipv4Subnets tbl) param (\<lambda>x. on_laddr (ac_inIPv4Subnet x)) stk ev
      | OP_SNET6 \<Rightarrow> push_indexed (t_ipv6Subnets tbl) param (\<lambda>x. on_raddr (ac_in6 x)) stk ev
      | OP_LSNET6 \<Rightarrow> push_indexed (t_ipv6Subnets tbl) param (\<lambda>x. on_laddr (ac_in6 x)) stk ev
      | OP_PORT \<Rightarrow> push_port param (\<lambda>ev. on_raddr (ac_port env (portNetwork ev)) ev) stk ev
      | OP_LPORT \<Rightarrow> push_port param (\<lambda>ev. on_laddr (ac_port env (portNetwork ev)) ev) stk ev
      | _ \<Rightarrow> Done (Continue s))"

subsection \<open>Index checks\<close>

text \<open>
  \<open>index_check\<close> is the part of the \<^verbatim>\<open>validateOpIndex\<close> methods about the shared tables.
\<close>

definition index_check :: "'re tables \<Rightarrow> string \<Rightarrow> nat \<Rightarrow> opcode \<Rightarrow> nat \<Rightarrow> bc_error + unit" where
  "index_check tbl name pc op param =
     (let fail = (\<lambda>table n. check (param \<ge> n) (ErrIndex name pc table param n)) in
      if op \<in> {OP_ADDR_S, OP_LADDR_S} then fail ''string'' (length (t_strings tbl))
      else if op \<in> {OP_ADDR_RE, OP_LADDR_RE} then fail ''regexp'' (length (t_regexps tbl))
      else if op \<in> {OP_ADDR4, OP_LADDR4} then fail ''IPv4 address'' (length (t_ipv4Addrs tbl))
      else if op \<in> {OP_ADDR6, OP_LADDR6} then fail ''IPv6 address'' (length (t_ipv6Addrs tbl))
      else if op \<in> {OP_SNET4, OP_LSNET4} then fail ''IPv4 subnet'' (length (t_ipv4Subnets tbl))
      else if op \<in> {OP_SNET6, OP_LSNET6} then fail ''IPv6 subnet'' (length (t_ipv6Subnets tbl))
      else Inr ())"

definition index_ok :: "'re tables \<Rightarrow> opcode \<Rightarrow> nat \<Rightarrow> bool" where
  "index_ok tbl op p \<longleftrightarrow>
     (case op of
        OP_ADDR_S \<Rightarrow> p < length (t_strings tbl) | OP_LADDR_S \<Rightarrow> p < length (t_strings tbl)
      | OP_ADDR_RE \<Rightarrow> p < length (t_regexps tbl) | OP_LADDR_RE \<Rightarrow> p < length (t_regexps tbl)
      | OP_ADDR4 \<Rightarrow> p < length (t_ipv4Addrs tbl) | OP_LADDR4 \<Rightarrow> p < length (t_ipv4Addrs tbl)
      | OP_ADDR6 \<Rightarrow> p < length (t_ipv6Addrs tbl) | OP_LADDR6 \<Rightarrow> p < length (t_ipv6Addrs tbl)
      | OP_SNET4 \<Rightarrow> p < length (t_ipv4Subnets tbl) | OP_LSNET4 \<Rightarrow> p < length (t_ipv4Subnets tbl)
      | OP_SNET6 \<Rightarrow> p < length (t_ipv6Subnets tbl) | OP_LSNET6 \<Rightarrow> p < length (t_ipv6Subnets tbl)
      | _ \<Rightarrow> True)"

text \<open>An instruction of validated code whose regexp, if it has one, is not nil.\<close>

definition predicate_ok :: "'re tables \<Rightarrow> opcode \<Rightarrow> nat \<Rightarrow> bool" where
  "predicate_ok tbl op p \<longleftrightarrow>
     \<not> is_action op \<and> op \<notin> {OP_RULE, OP_SNIFF, OP_SNIFF_NONE, OP_QTYPE, OP_QCLASS, OP_OPCODE} \<and>
     index_ok tbl op p \<and> (op \<in> {OP_ADDR_RE, OP_LADDR_RE} \<longrightarrow> t_regexps tbl ! p \<noteq> None)"

subsection \<open>What the predicates mean\<close>

record context_facts =
  cx_network :: string
  cx_local :: "addrInput \<times> storage option \<times> bool"
  cx_remote :: "addrInput \<times> storage option \<times> bool"
  cx_dial :: bool
  cx_listen :: bool
  cx_lookup :: bool

definition cx_portNetwork :: "context_facts \<Rightarrow> string" where
  "cx_portNetwork cx =
     (if isTCPNet (cx_network cx) then ''tcp''
      else if isUDPNet (cx_network cx) then ''udp'' else cx_network cx)"

definition side :: "opcode \<Rightarrow> context_facts \<Rightarrow> addrInput \<times> storage option \<times> bool" where
  "side op cx = (if isLAddrOp op then cx_local cx else cx_remote cx)"

definition atom_value :: "'re tables \<Rightarrow> 're host_env \<Rightarrow> context_facts \<Rightarrow> opcode \<Rightarrow> nat \<Rightarrow> bool" where
  "atom_value tbl env cx op p =
     (let key = side op cx; inp = fst key; nw = cx_network cx in
      case op of
        OP_NET4 \<Rightarrow> isNet4 nw \<or> (\<not> isNet6 nw \<and> (is4 (ip_of (fst (cx_local cx))) \<or> is4 (ip_of (fst (cx_remote cx)))))
      | OP_NET6 \<Rightarrow> isNet6 nw \<or> (\<not> isNet4 nw \<and> (is6 (ip_of (fst (cx_local cx))) \<or> is6 (ip_of (fst (cx_remote cx)))))
      | OP_UDP \<Rightarrow> isUDPNet nw
      | OP_TCP \<Rightarrow> isTCPNet nw
      | OP_DIAL \<Rightarrow> cx_dial cx
      | OP_LISTEN \<Rightarrow> cx_listen cx
      | OP_LOOKUP \<Rightarrow> cx_lookup cx
      | _ \<Rightarrow>
          if op \<in> {OP_FQDN, OP_LFQDN} then host_of inp \<noteq> [] \<and> \<not> isValid (ip_of inp)
          else if op \<in> {OP_ADDR_S, OP_LADDR_S} then
            matches_of (\<lambda>h. h = t_strings tbl ! p) (\<lambda>n. dnsNameEqual n (t_strings tbl ! p)) key
          else if op \<in> {OP_ADDR_RE, OP_LADDR_RE} then
            (case t_regexps tbl ! p of
               None \<Rightarrow> False
             | Some re \<Rightarrow> matches_of (e_match env re) (matchDNSNameRegexp (e_match env re)) key)
          else if op \<in> {OP_ADDR4, OP_LADDR4} then match4 (\<lambda>y. y = t_ipv4Addrs tbl ! p) (ip_of inp)
          else if op \<in> {OP_ADDR6, OP_LADDR6} then only6 (ip_of inp) = t_ipv6Addrs tbl ! p
          else if op \<in> {OP_SNET4, OP_LSNET4} then match4 (subnet_contains (t_ipv4Subnets tbl ! p)) (ip_of inp)
          else if op \<in> {OP_SNET6, OP_LSNET6} then pfx_contains (t_ipv6Subnets tbl ! p) (only6 (ip_of inp))
          else if op \<in> {OP_PORT, OP_LPORT} then
            p \<le> 65535 \<and> port_of env (cx_portNetwork cx) inp = int p
          else False)"

text \<open>An evaluation context in which every cache is coherent with the facts.\<close>

definition ev_rel :: "'re host_env \<Rightarrow> context_facts \<Rightarrow> bytecodeEval \<Rightarrow> bool" where
  "ev_rel env cx ev \<longleftrightarrow>
     ev_network ev = cx_network cx \<and> ev_isDial ev = cx_dial cx \<and> ev_isListen ev = cx_listen cx \<and>
     ev_isLookup ev = cx_lookup cx \<and>
     cache_ok env (cx_portNetwork cx) (ev_laddr ev) \<and> cache_key (ev_laddr ev) = cx_local cx \<and>
     cache_ok env (cx_portNetwork cx) (ev_raddr ev) \<and> cache_key (ev_raddr ev) = cx_remote cx"

subsection \<open>The switch computes the meaning\<close>

lemma ac_is6_reads [cache_simps]:
  "reads env nw (ac_is6 want) (\<lambda>x. only6 ((\<lambda>(i, _). ip_of i) x) = want)"
  by (rule reads_map [OF ac_ipv6_reads]) (simp add: ac_is6_def)

lemma ac_in6_reads [cache_simps]:
  "reads env nw (ac_in6 p) (\<lambda>x. pfx_contains p (only6 ((\<lambda>(i, _). ip_of i) x)))"
  by (rule reads_map [OF ac_ipv6_reads]) (simp add: ac_in6_def)

lemma on_raddr_reads:
  assumes "reads env (cx_portNetwork cx) f g" and "ev_rel env cx ev"
  obtains ev' where "ev_rel env cx ev'" and "on_raddr f ev = (g (cx_remote cx), ev')"
proof -
  from assms(2) have ok: "cache_ok env (cx_portNetwork cx) (ev_raddr ev)"
    and key: "cache_key (ev_raddr ev) = cx_remote cx"
    by (simp_all add: ev_rel_def)
  from readsE [OF assms(1) ok] obtain a where "f (ev_raddr ev) = (g (cx_remote cx), a)"
      "cache_ok env (cx_portNetwork cx) a" "cache_key a = cx_remote cx"
    by (metis key)
  with assms(2) show thesis
    by (intro that [of "ev\<lparr>ev_raddr := a\<rparr>"]) (simp_all add: on_raddr_def ev_rel_def)
qed

lemma on_laddr_reads:
  assumes "reads env (cx_portNetwork cx) f g" and "ev_rel env cx ev"
  obtains ev' where "ev_rel env cx ev'" and "on_laddr f ev = (g (cx_local cx), ev')"
proof -
  from assms(2) have ok: "cache_ok env (cx_portNetwork cx) (ev_laddr ev)"
    and key: "cache_key (ev_laddr ev) = cx_local cx"
    by (simp_all add: ev_rel_def)
  from readsE [OF assms(1) ok] obtain a where "f (ev_laddr ev) = (g (cx_local cx), a)"
      "cache_ok env (cx_portNetwork cx) a" "cache_key a = cx_local cx"
    by (metis key)
  with assms(2) show thesis
    by (intro that [of "ev\<lparr>ev_laddr := a\<rparr>"]) (simp_all add: on_laddr_def ev_rel_def)
qed

text \<open>\<open>pushes\<close>: the outcome of an instruction that pushes \<open>v\<close> and keeps the context coherent.\<close>

definition pushes :: "'re host_env \<Rightarrow> context_facts \<Rightarrow> bool \<Rightarrow> bool list \<Rightarrow>
    ('r, bool list \<times> bytecodeEval) flow outcome \<Rightarrow> bool" where
  "pushes env cx v stk m \<longleftrightarrow> (\<exists>ev'. ev_rel env cx ev' \<and> m = Done (Continue (v # stk, ev')))"

lemma pushes_pure: "ev_rel env cx ev \<Longrightarrow> pushes env cx v stk (push stk (v, ev))"
  by (auto simp: pushes_def push_def)

lemma pushes_r:
  "reads env (cx_portNetwork cx) f g \<Longrightarrow> ev_rel env cx ev \<Longrightarrow>
   pushes env cx (g (cx_remote cx)) stk (push stk (on_raddr f ev))"
  by (erule (1) on_raddr_reads) (auto simp: pushes_def push_def)

lemma pushes_l:
  "reads env (cx_portNetwork cx) f g \<Longrightarrow> ev_rel env cx ev \<Longrightarrow>
   pushes env cx (g (cx_local cx)) stk (push stk (on_laddr f ev))"
  by (erule (1) on_laddr_reads) (auto simp: pushes_def push_def)

lemma pushes_indexed_r:
  "p < length tbl \<Longrightarrow> reads env (cx_portNetwork cx) (f (tbl ! p)) g \<Longrightarrow> ev_rel env cx ev \<Longrightarrow>
   pushes env cx (g (cx_remote cx)) stk (push_indexed tbl p (\<lambda>x. on_raddr (f x)) stk ev)"
  using pushes_r [of env cx "f (tbl ! p)" g ev stk]
  by (auto simp: push_indexed_def bytecodeParamIndex_def pushes_def push_def)

lemma pushes_regexp_r:
  "p < length tbl \<Longrightarrow> tbl ! p = Some re \<Longrightarrow> reads env (cx_portNetwork cx) (f re) g \<Longrightarrow>
   ev_rel env cx ev \<Longrightarrow>
   pushes env cx (g (cx_remote cx)) stk (push_regexp tbl p (\<lambda>x. on_raddr (f x)) stk ev)"
  using pushes_r [of env cx "f re" g ev stk]
  by (auto simp: push_regexp_def bytecodeParamIndex_def pushes_def push_def)

lemma pushes_indexed_l:
  "p < length tbl \<Longrightarrow> reads env (cx_portNetwork cx) (f (tbl ! p)) g \<Longrightarrow> ev_rel env cx ev \<Longrightarrow>
   pushes env cx (g (cx_local cx)) stk (push_indexed tbl p (\<lambda>x. on_laddr (f x)) stk ev)"
  using pushes_l [of env cx "f (tbl ! p)" g ev stk]
  by (auto simp: push_indexed_def bytecodeParamIndex_def pushes_def push_def)

lemma pushes_regexp_l:
  "p < length tbl \<Longrightarrow> tbl ! p = Some re \<Longrightarrow> reads env (cx_portNetwork cx) (f re) g \<Longrightarrow>
   ev_rel env cx ev \<Longrightarrow>
   pushes env cx (g (cx_local cx)) stk (push_regexp tbl p (\<lambda>x. on_laddr (f x)) stk ev)"
  using pushes_l [of env cx "f re" g ev stk]
  by (auto simp: push_regexp_def bytecodeParamIndex_def pushes_def push_def)

lemma portNetwork_rel: "ev_rel env cx ev \<Longrightarrow> portNetwork ev = cx_portNetwork cx"
  by (simp add: ev_rel_def portNetwork_def cx_portNetwork_def)

lemma pushes_port_r:
  assumes "ev_rel env cx ev"
  shows "pushes env cx (p \<le> 65535 \<and> port_of env (cx_portNetwork cx) (fst (cx_remote cx)) = int p) stk
    (push_port p (\<lambda>ev. on_raddr (ac_port env (portNetwork ev)) ev) stk ev)"
proof -
  obtain ev' where "ev_rel env cx ev'"
      "on_raddr (ac_port env (cx_portNetwork cx)) ev = (port_of env (cx_portNetwork cx) (fst (cx_remote cx)), ev')"
    by (rule on_raddr_reads [OF ac_port_reads assms]) (simp add: case_prod_beta)
  then show ?thesis
    using assms by (simp add: push_port_def bytecodeParamInt_def portNetwork_rel pushes_pure)
qed

lemma pushes_port_l:
  assumes "ev_rel env cx ev"
  shows "pushes env cx (p \<le> 65535 \<and> port_of env (cx_portNetwork cx) (fst (cx_local cx)) = int p) stk
    (push_port p (\<lambda>ev. on_laddr (ac_port env (portNetwork ev)) ev) stk ev)"
proof -
  obtain ev' where "ev_rel env cx ev'"
      "on_laddr (ac_port env (cx_portNetwork cx)) ev = (port_of env (cx_portNetwork cx) (fst (cx_local cx)), ev')"
    by (rule on_laddr_reads [OF ac_port_reads assms]) (simp add: case_prod_beta)
  then show ?thesis
    using assms by (simp add: push_port_def bytecodeParamInt_def portNetwork_rel pushes_pure)
qed

lemma pushes_net:
  assumes "ev_rel env cx ev"
  shows "pushes env cx (atom_value tbl env cx OP_NET4 p) stk (push stk (ev_isNet4 ev))"
    and "pushes env cx (atom_value tbl env cx OP_NET6 p) stk (push stk (ev_isNet6 ev))"
proof -
  have nw: "ev_network ev = cx_network cx" using assms by (simp add: ev_rel_def)
  obtain ev4 where l4: "ev_rel env cx ev4" "on_laddr ac_isIPv4 ev = (is4 (ip_of (fst (cx_local cx))), ev4)"
    by (rule on_laddr_reads [OF ac_isIPv4_reads assms]) (simp add: case_prod_beta)
  obtain ev4' where r4: "ev_rel env cx ev4'" "on_raddr ac_isIPv4 ev4 = (is4 (ip_of (fst (cx_remote cx))), ev4')"
    by (rule on_raddr_reads [OF ac_isIPv4_reads l4(1)]) (simp add: case_prod_beta)
  obtain ev6 where l6: "ev_rel env cx ev6" "on_laddr ac_isIPv6 ev = (is6 (ip_of (fst (cx_local cx))), ev6)"
    by (rule on_laddr_reads [OF ac_isIPv6_reads assms]) (simp add: case_prod_beta)
  obtain ev6' where r6: "ev_rel env cx ev6'" "on_raddr ac_isIPv6 ev6 = (is6 (ip_of (fst (cx_remote cx))), ev6')"
    by (rule on_raddr_reads [OF ac_isIPv6_reads l6(1)]) (simp add: case_prod_beta)
  show "pushes env cx (atom_value tbl env cx OP_NET4 p) stk (push stk (ev_isNet4 ev))"
    using assms l4 r4 by (auto simp: ev_isNet4_def atom_value_def nw pushes_def push_def Let_def)
  show "pushes env cx (atom_value tbl env cx OP_NET6 p) stk (push stk (ev_isNet6 ev))"
    using assms l6 r6 by (auto simp: ev_isNet6_def atom_value_def nw pushes_def push_def Let_def)
qed

lemma pushes_re_r:
  "p < length tbl \<Longrightarrow> tbl ! p = Some re \<Longrightarrow> ev_rel env cx ev \<Longrightarrow>
   pushes env cx (matches_of (e_match env re) (matchDNSNameRegexp (e_match env re)) (cx_remote cx)) stk
     (push_regexp tbl p (\<lambda>x. on_raddr (ac_matchRegexp env x)) stk ev)"
  by (rule pushes_regexp_r [where f = "ac_matchRegexp env" and re = re]) (simp_all add: ac_matchRegexp_reads)

lemma pushes_re_l:
  "p < length tbl \<Longrightarrow> tbl ! p = Some re \<Longrightarrow> ev_rel env cx ev \<Longrightarrow>
   pushes env cx (matches_of (e_match env re) (matchDNSNameRegexp (e_match env re)) (cx_local cx)) stk
     (push_regexp tbl p (\<lambda>x. on_laddr (ac_matchRegexp env x)) stk ev)"
  by (rule pushes_regexp_l [where f = "ac_matchRegexp env" and re = re]) (simp_all add: ac_matchRegexp_reads)

lemmas pushes_intros = pushes_re_r pushes_re_l pushes_pure pushes_net pushes_port_r pushes_port_l
  pushes_r [OF ac_isFQDN_reads] pushes_l [OF ac_isFQDN_reads]
  pushes_indexed_r [where f = ac_matchString, OF _ ac_matchString_reads]
  pushes_indexed_r [where f = ac_matchIPv4, OF _ ac_matchIPv4_reads]
  pushes_indexed_r [where f = ac_is6, OF _ ac_is6_reads]
  pushes_indexed_r [where f = ac_inIPv4Subnet, OF _ ac_inIPv4Subnet_reads]
  pushes_indexed_r [where f = ac_in6, OF _ ac_in6_reads]
  pushes_indexed_l [where f = ac_matchString, OF _ ac_matchString_reads]
  pushes_indexed_l [where f = ac_matchIPv4, OF _ ac_matchIPv4_reads]
  pushes_indexed_l [where f = ac_is6, OF _ ac_is6_reads]
  pushes_indexed_l [where f = ac_inIPv4Subnet, OF _ ac_inIPv4Subnet_reads]
  pushes_indexed_l [where f = ac_in6, OF _ ac_in6_reads]

text \<open>An instruction that pushes an atom.\<close>

lemma atom_pushed:
  assumes "predicate_ok tbl op p" and "ev_rel env cx ev"
    and "op \<notin> {OP_TRUE, OP_FALSE, OP_NOT, OP_AND, OP_OR}"
  shows "pushes env cx (atom_value tbl env cx op p) stk (predicate_body tbl env op p (stk, ev))"
proof (cases "op \<in> {OP_NET4, OP_NET6}")
  case True
  then show ?thesis using assms(2) by (auto simp: predicate_body_def intro: pushes_net)
next
  case False
  note defs = predicate_body_def atom_value_def predicate_ok_def index_ok_def side_def is_action_def
  have rel: "ev_network ev = cx_network cx" "ev_isDial ev = cx_dial cx" "ev_isListen ev = cx_listen cx"
      "ev_isLookup ev = cx_lookup cx"
    using assms(2) by (simp_all add: ev_rel_def)
  show ?thesis
    using assms False
    by (cases op; simp add: defs rel Let_def case_prod_beta; (elim conjE exE)?;
        (simp add: rel pushes_pure pushes_intros [unfolded case_prod_beta])?)
qed

lemma predicate_step:
  assumes "predicate_ok tbl op p" and "ev_rel env cx ev" and "depth_after op (length stk) = Some d"
  shows "\<exists>ev'. ev_rel env cx ev' \<and> predicate_body tbl env op p (stk, ev) =
    Done (Continue (bool_step (atom_value tbl env cx) op p stk, ev'))"
proof (cases "op \<in> {OP_TRUE, OP_FALSE, OP_NOT, OP_AND, OP_OR}")
  case True
  then show ?thesis
    using assms(2,3)
    by (cases stk; cases "tl stk") (auto simp: predicate_body_def push_def depth_after.simps)
next
  case False
  then have "bool_step (atom_value tbl env cx) op p stk = atom_value tbl env cx op p # stk"
    by (cases op) simp_all
  with atom_pushed [OF assms(1,2) False, of stk] show ?thesis by (simp add: pushes_def)
qed

text \<open>The shared index check and \<open>index_ok\<close> say the same.\<close>

lemma index_check_ok: "index_check tbl name pc op p = Inr () \<longleftrightarrow> index_ok tbl op p"
  by (cases op) (auto simp: index_check_def index_ok_def)

lemma new_ev_rel:
  assumes "cx = \<lparr>cx_network = nw, cx_local = cache_key (newAddrCache li ls lb),
      cx_remote = cache_key (newAddrCache ri rs rb), cx_dial = dl, cx_listen = ls', cx_lookup = lk\<rparr>"
  shows "ev_rel env cx \<lparr>ev_network = nw, ev_laddr = newAddrCache li ls lb,
    ev_raddr = newAddrCache ri rs rb, ev_isDial = dl, ev_isListen = ls', ev_isLookup = lk\<rparr>"
  by (simp add: assms ev_rel_def newAddrCache_ok)

end
