(* ===== verification/RouterBytecode.thy ===== *)
theory RouterBytecode
  imports Predicates
begin

text \<open>
  \<^verbatim>\<open>src/routing/router_bytecode.go\<close>: \<^verbatim>\<open>BytecodeRules\<close>, \<^verbatim>\<open>NewBytecodeRouterCfg\<close> with its
  validator, and the router methods that evaluate one program each. The copies of slices the
  constructor makes are values here. The constructor scans validated code with the unchecked
  reader, so its model may panic; \<open>constructor_total\<close> excludes that.
\<close>

definition RouterSlots :: nat where
  "RouterSlots = 16"

record 're bytecodeRules =
  br_tables :: "'re tables"
  br_dnsCacheStorage :: "storage option"
  br_dialTCP :: "byte list"
  br_listenTCP :: "byte list"
  br_dialUDP :: "byte list"
  br_routeUDP :: "byte list"
  br_lookup :: "byte list"

record 're routerCfg =
  rc_tables :: "'re tables"
  rc_dialTCP :: "byte list"
  rc_listenTCP :: "byte list"
  rc_dialUDP :: "byte list"
  rc_routeUDP :: "byte list"
  rc_lookup :: "byte list"
  rc_dnsStorage :: "storage option"
  rc_dialTCPStringOps :: addrStringOps
  rc_listenTCPStringOps :: addrStringOps
  rc_dialUDPStringOps :: addrStringOps
  rc_routeUDPStringOps :: addrStringOps
  rc_lookupStringOps :: addrStringOps
  rc_mentionedSlots :: "nat list"

subsection \<open>Validation\<close>

definition router_validateOpIndex :: "'re tables \<Rightarrow> string \<Rightarrow> nat \<Rightarrow> opcode \<Rightarrow> nat \<Rightarrow> paramKind \<Rightarrow>
    bc_error + unit" where
  "router_validateOpIndex tbl name pc op param kind =
     (if kind = ParamNone then Inr ()
      else if op = OP_SLOT then check (param > RouterSlots) (ErrSlot name pc param RouterSlots)
      else index_check tbl name pc op param)"

definition router_validateOp :: "'re tables \<Rightarrow> string \<Rightarrow> bool \<Rightarrow> bool \<Rightarrow> validate_op" where
  "router_validateOp tbl name hasLAddr lookup pc op param kind =
     ebind (check (\<not> hasLAddr \<and> isLAddrOp op) (ErrLocalAddr name pc)) (\<lambda>_.
     ebind (check (lookup \<and> isLAddrOp op) (ErrLocalAddrLookup name pc)) (\<lambda>_.
     ebind (check (isSplitOnlyOp op) (ErrNotValidFor name pc op)) (\<lambda>_.
     ebind (check (isSnifferOnlyOp op) (ErrNotValidFor name pc op)) (\<lambda>_.
     ebind (check (isDNSOnlyOp op) (ErrNotValidFor name pc op)) (\<lambda>_.
     router_validateOpIndex tbl name pc op param kind)))))"

definition router_validateCode ::
    "'re tables \<Rightarrow> string \<Rightarrow> byte list \<Rightarrow> bool \<Rightarrow> bool \<Rightarrow> bc_error + unit" where
  "router_validateCode tbl name code hasLAddr lookup =
     validateBytecode name code (router_validateOp tbl name hasLAddr lookup)"

definition check_regexps :: "'re option list \<Rightarrow> bc_error + unit" where
  "check_regexps res = first_error (\<lambda>i re. check (re = None) (ErrNilRegexp i)) 0 res"

definition router_validate :: "'re bytecodeRules \<Rightarrow> bc_error + unit" where
  "router_validate cfg =
     (let tbl = br_tables cfg in
      ebind (check_regexps (t_regexps tbl)) (\<lambda>_.
      ebind (validateTables (t_ipv4Subnets tbl) (t_ipv6Addrs tbl) (t_ipv6Subnets tbl)) (\<lambda>_.
      first_error (\<lambda>_ (name, code, hasLAddr, lookup). router_validateCode tbl name code hasLAddr lookup) 0
        [(''DialTCP'', br_dialTCP cfg, True, False),
         (''ListenTCP'', br_listenTCP cfg, True, False),
         (''DialUDP'', br_dialUDP cfg, True, False),
         (''RouteUDP'', br_routeUDP cfg, True, False),
         (''Lookup'', br_lookup cfg, False, True)])))"

definition newBytecodeRouterCfg :: "'re bytecodeRules \<Rightarrow> (bc_error + 're routerCfg) outcome" where
  "newBytecodeRouterCfg rules =
     (case router_validate rules of
        Inl e \<Rightarrow> Done (Inl e)
      | Inr _ \<Rightarrow>
          obind (bytecodeAddrStringOps (br_dialTCP rules)) (\<lambda>dt.
          obind (bytecodeAddrStringOps (br_listenTCP rules)) (\<lambda>lt.
          obind (bytecodeAddrStringOps (br_dialUDP rules)) (\<lambda>du.
          obind (bytecodeAddrStringOps (br_routeUDP rules)) (\<lambda>ru.
          obind (bytecodeAddrStringOps (br_lookup rules)) (\<lambda>lk.
          obind (mentionedBytecodeSlots RouterSlots
                   [br_dialTCP rules, br_listenTCP rules, br_dialUDP rules, br_routeUDP rules,
                    br_lookup rules]) (\<lambda>slots.
          Done (Inr \<lparr>rc_tables = br_tables rules, rc_dialTCP = br_dialTCP rules,
                     rc_listenTCP = br_listenTCP rules, rc_dialUDP = br_dialUDP rules,
                     rc_routeUDP = br_routeUDP rules, rc_lookup = br_lookup rules,
                     rc_dnsStorage = br_dnsCacheStorage rules,
                     rc_dialTCPStringOps = dt, rc_listenTCPStringOps = lt,
                     rc_dialUDPStringOps = du, rc_routeUDPStringOps = ru,
                     rc_lookupStringOps = lk, rc_mentionedSlots = slots\<rparr>))))))))"

subsection \<open>Evaluation\<close>

definition router_body :: "'re tables \<Rightarrow> 're host_env \<Rightarrow> opcode \<Rightarrow> nat \<Rightarrow> bool list \<times> bytecodeEval \<Rightarrow>
    (nat, bool list \<times> bytecodeEval) flow outcome" where
  "router_body tbl env op param s =
     (case op of
        OP_DROP \<Rightarrow>
          obind (popBool (fst s)) (\<lambda>(b, stk). Done (if b then Return 0 else Continue (stk, snd s)))
      | OP_SLOT \<Rightarrow>
          obind (popBool (fst s)) (\<lambda>(b, stk).
            Done (if b then Return (case bytecodeParamInt param (int RouterSlots) of None \<Rightarrow> 0 | Some slot \<Rightarrow> slot)
                  else Continue (stk, snd s)))
      | _ \<Rightarrow> predicate_body tbl env op param s)"

definition router_exec :: "'re routerCfg \<Rightarrow> 're host_env \<Rightarrow> byte list \<Rightarrow> bytecodeMethod \<Rightarrow> string \<Rightarrow>
    addrInput \<Rightarrow> addrInput \<Rightarrow> addrStringOps \<Rightarrow> nat outcome" where
  "router_exec cfg env code method nw la ra stringOps =
     (let ev = \<lparr>ev_network = toLower nw,
                ev_laddr = newAddrCache la (rc_dnsStorage cfg) (so_local stringOps),
                ev_raddr = newAddrCache ra (rc_dnsStorage cfg) (so_remote stringOps),
                ev_isDial = (method = MethodDial), ev_isListen = (method = MethodListen),
                ev_isLookup = (method = MethodLookup)\<rparr> in
      case run_bytecode (router_body (rc_tables cfg) env) code 0 ([], ev) of
        Panic \<Rightarrow> Panic
      | Done (Return slot) \<Rightarrow> Done slot
      | Done (Continue _) \<Rightarrow> Done 0)"

definition str_input :: "string \<Rightarrow> addrInput" where
  "str_input s = \<lparr>in_str = s, in_addr = None\<rparr>"

definition addr_input :: "net_addr option \<Rightarrow> addrInput" where
  "addr_input a = \<lparr>in_str = [], in_addr = a\<rparr>"

definition router_DialTCP where
  "router_DialTCP cfg env nw la ra =
     router_exec cfg env (rc_dialTCP cfg) MethodDial nw (str_input la) (str_input ra) (rc_dialTCPStringOps cfg)"

definition router_ListenTCP where
  "router_ListenTCP cfg env nw la =
     router_exec cfg env (rc_listenTCP cfg) MethodListen nw (str_input la) (str_input []) (rc_listenTCPStringOps cfg)"

definition router_DialUDP where
  "router_DialUDP cfg env nw la ra =
     router_exec cfg env (rc_dialUDP cfg) MethodDial nw (str_input la) (str_input ra) (rc_dialUDPStringOps cfg)"

definition router_RouteUDP where
  "router_RouteUDP cfg env nw la ra =
     router_exec cfg env (rc_routeUDP cfg) MethodDial nw (addr_input la) (addr_input ra) (rc_routeUDPStringOps cfg)"

definition router_Lookup where
  "router_Lookup cfg env nw address =
     router_exec cfg env (rc_lookup cfg) MethodLookup nw (str_input []) (str_input address) (rc_lookupStringOps cfg)"

definition router_MentionedSlots :: "'re routerCfg \<Rightarrow> nat list" where
  "router_MentionedSlots cfg = rc_mentionedSlots cfg"

subsection \<open>The evaluator as a decision machine\<close>

definition router_ok :: "'re tables \<Rightarrow> bool \<Rightarrow> opcode \<Rightarrow> nat \<Rightarrow> bool" where
  "router_ok tbl hasLAddr op p \<longleftrightarrow>
     (\<not> hasLAddr \<longrightarrow> \<not> isLAddrOp op) \<and>
     (op = OP_DROP \<or> (op = OP_SLOT \<and> p \<le> RouterSlots) \<or> predicate_ok tbl op p)"

fun router_act :: "opcode \<Rightarrow> nat \<Rightarrow> nat option" where
  "router_act OP_DROP p = Some 0"
| "router_act OP_SLOT p = Some p"
| "router_act _ p = None"

definition no_nil_regexp :: "'re tables \<Rightarrow> bool" where
  "no_nil_regexp tbl \<longleftrightarrow> list_all (\<lambda>re. re \<noteq> None) (t_regexps tbl)"

lemma router_acts: "acts_on (router_ok tbl hasLAddr) router_act"
  unfolding acts_on_def
proof (intro allI impI)
  fix op p
  assume "router_ok tbl hasLAddr op p"
  then show "(router_act op p \<noteq> None) = is_action op"
    by (cases op) (auto simp: router_ok_def predicate_ok_def is_action_def)
qed

lemma router_validateOp_accepts:
  assumes "no_nil_regexp tbl"
  shows "accepts (router_validateOp tbl name hasLAddr (\<not> hasLAddr)) (router_ok tbl hasLAddr)"
  unfolding accepts_def
proof (intro allI)
  fix pc op p
  from assms have re: "p < length (t_regexps tbl) \<Longrightarrow> \<exists>y. t_regexps tbl ! p = Some y"
    by (auto simp: no_nil_regexp_def list_all_length)
  then show "(router_validateOp tbl name hasLAddr (\<not> hasLAddr) pc op p (param_kind op) = Inr ()) =
      router_ok tbl hasLAddr op p"
    by (cases op)
      (auto simp: router_validateOp_def router_validateOpIndex_def router_ok_def predicate_ok_def
        is_action_def param_kind.simps index_check_ok index_ok_def)
qed

lemma router_step_plain:
  assumes "router_ok tbl hasLAddr op p" and "\<not> is_action op" and "ev_rel env cx ev"
    and "depth_after op (length stk) = Some d"
  shows "\<exists>ev'. ev_rel env cx ev' \<and> router_body tbl env op p (stk, ev) =
    Done (Continue (bool_step (atom_value tbl env cx) op p stk, ev'))"
proof -
  from assms(1,2) have "predicate_ok tbl op p" and "op \<noteq> OP_DROP" "op \<noteq> OP_SLOT"
    by (auto simp: router_ok_def is_action_def)
  then show ?thesis
    using predicate_step [of tbl op p env cx ev stk d] assms(3,4)
    by (cases op) (simp_all add: router_body_def)
qed

interpretation router: validated_machine "router_body tbl env" "router_ok tbl hasLAddr" "ev_rel env cx"
    router_act "atom_value tbl env cx" "router_validateOp tbl name hasLAddr (\<not> hasLAddr)" "no_nil_regexp tbl"
  for tbl env cx hasLAddr name
proof unfold_locales
  show "acts_on (router_ok tbl hasLAddr) router_act" by (rule router_acts)
next
  fix op p r b stk ev
  assume "router_ok tbl hasLAddr op p" and "router_act op p = Some r"
  then show "router_body tbl env op p (b # stk, ev) = Done (if b then Return r else Continue (stk, ev))"
    by (cases op) (auto simp: router_body_def router_ok_def bytecodeParamInt_def predicate_ok_def is_action_def)
qed (rule router_step_plain router_validateOp_accepts; assumption)+

subsection \<open>Facts about the constructor and the evaluator\<close>

lemma check_regexps_ok: "check_regexps (t_regexps tbl) = Inr u \<longleftrightarrow> no_nil_regexp tbl"
  by (simp add: check_regexps_def first_error_ok no_nil_regexp_def list_all_length)

text \<open>The programs of a rule set, each with whether local-address instructions are allowed.\<close>

definition programs :: "'re bytecodeRules \<Rightarrow> (byte list \<times> bool) list" where
  "programs rules =
     [(br_dialTCP rules, True), (br_listenTCP rules, True), (br_dialUDP rules, True),
      (br_routeUDP rules, True), (br_lookup rules, False)]"

definition well_formed :: "'re tables \<Rightarrow> byte list \<times> bool \<Rightarrow> bool" where
  "well_formed tbl cp \<longleftrightarrow>
     (\<exists>is. fst cp = encode_prog is \<and> list_all wf_instr is \<and> valid_instrs (router_ok tbl (snd cp)) is 0)"

lemma router_validateCode_ok:
  assumes "no_nil_regexp tbl"
  shows "router_validateCode tbl name code hasLAddr (\<not> hasLAddr) = Inr u \<longleftrightarrow>
    well_formed tbl (code, hasLAddr)"
  using validateBytecode_iff [OF router_validateOp_accepts [OF assms]]
  by (simp add: router_validateCode_def well_formed_def)

lemma router_validate_ok:
  "router_validate rules = Inr u \<longleftrightarrow>
     no_nil_regexp (br_tables rules) \<and>
     validateTables (t_ipv4Subnets (br_tables rules)) (t_ipv6Addrs (br_tables rules))
       (t_ipv6Subnets (br_tables rules)) = Inr () \<and>
     list_all (well_formed (br_tables rules)) (programs rules)"
proof (cases "no_nil_regexp (br_tables rules)")
  case True
  note v = router_validateCode_ok [OF True]
  show ?thesis
    using v [of _ _ True] v [of _ _ False] True
    by (simp add: router_validate_def Let_def ebind_eq_Inr check_regexps_ok programs_def)
next
  case False
  then show ?thesis by (simp add: router_validate_def Let_def ebind_eq_Inr check_regexps_ok)
qed

lemma constructor_total: "newBytecodeRouterCfg rules \<noteq> Panic"
proof (cases "router_validate rules")
  case (Inl e)
  then show ?thesis by (simp add: newBytecodeRouterCfg_def)
next
  case (Inr u)
  then have wf: "\<forall>cp \<in> set (programs rules). \<exists>is. fst cp = encode_prog is \<and> list_all wf_instr is"
    by (auto simp: router_validate_ok well_formed_def list_all_iff)
  then obtain a b c d e where
      p: "br_dialTCP rules = encode_prog a" "br_listenTCP rules = encode_prog b"
         "br_dialUDP rules = encode_prog c" "br_routeUDP rules = encode_prog d"
         "br_lookup rules = encode_prog e"
      "list_all wf_instr a" "list_all wf_instr b" "list_all wf_instr c" "list_all wf_instr d"
      "list_all wf_instr e"
    by (auto simp: programs_def)
  then have "list_all (list_all wf_instr) [a, b, c, d, e]" by simp
  then obtain ks where "mentionedBytecodeSlots RouterSlots (map encode_prog [a, b, c, d, e]) = Done ks"
    unfolding mentionedBytecodeSlots_def by (rule mentioned_slots_encoded)
  with p Inr show ?thesis
    by (simp add: newBytecodeRouterCfg_def string_ops_encoded)
qed

text \<open>The facts of an operation: reverse names are always available.\<close>

definition operation_facts :: "storage option \<Rightarrow> bytecodeMethod \<Rightarrow> string \<Rightarrow> addrInput \<Rightarrow> addrInput \<Rightarrow>
    context_facts" where
  "operation_facts st method nw la ra =
     \<lparr>cx_network = toLower nw, cx_local = (la, st, True), cx_remote = (ra, st, True),
      cx_dial = (method = MethodDial), cx_listen = (method = MethodListen),
      cx_lookup = (method = MethodLookup)\<rparr>"

definition route_of :: "'re tables \<Rightarrow> 're host_env \<Rightarrow> context_facts \<Rightarrow> instr list \<Rightarrow> nat" where
  "route_of tbl env cx is =
     (case decide router_act (atom_value tbl env cx) is [] of Inl slot \<Rightarrow> slot | Inr _ \<Rightarrow> 0)"

text \<open>Switching reverse names off in programs without string instructions changes no atom.\<close>

lemma names_of_new:
  "matches_of p q (cache_key (newAddrCache inp st True)) = matches_of p q (inp, st, True)"
  by (cases st) (simp_all add: matches_of_def cache_key_def newAddrCache_def names_of_def cachedReverse_None)

lemma fst_key_new: "fst (cache_key (newAddrCache inp st b)) = inp"
  by (simp add: cache_key_def newAddrCache_def Let_def)

lemma atom_value_new:
  assumes "cx' = cx\<lparr>cx_local := cache_key (newAddrCache la st lb), cx_remote := cache_key (newAddrCache ra st rb)\<rparr>"
    and "cx_local cx = (la, st, True)" and "cx_remote cx = (ra, st, True)"
    and "op \<in> {OP_ADDR_S, OP_ADDR_RE} \<Longrightarrow> rb" and "op \<in> {OP_LADDR_S, OP_LADDR_RE} \<Longrightarrow> lb"
  shows "atom_value tbl env cx' op p = atom_value tbl env cx op p"
  using assms
  by (cases op)
    (simp_all add: atom_value_def side_def fst_key_new names_of_new cx_portNetwork_def Let_def
      split: option.splits)

lemma router_exec_route:
  assumes "code = encode_prog is" and "list_all wf_instr is"
    and "valid_instrs (router_ok (rc_tables cfg) hasLAddr) is 0"
    and "bytecodeAddrStringOps code = Done ops"
  shows "router_exec cfg env code method nw la ra ops =
    Done (route_of (rc_tables cfg) env (operation_facts (rc_dnsStorage cfg) method nw la ra) is)"
proof -
  let ?tbl = "rc_tables cfg" and ?st = "rc_dnsStorage cfg"
  let ?cx = "operation_facts ?st method nw la ra"
  let ?cx' = "?cx\<lparr>cx_local := cache_key (newAddrCache la ?st (so_local ops)),
      cx_remote := cache_key (newAddrCache ra ?st (so_remote ops))\<rparr>"
  let ?ev = "\<lparr>ev_network = toLower nw, ev_laddr = newAddrCache la ?st (so_local ops),
      ev_raddr = newAddrCache ra ?st (so_remote ops), ev_isDial = (method = MethodDial),
      ev_isListen = (method = MethodListen), ev_isLookup = (method = MethodLookup)\<rparr>"
  have rel: "ev_rel env ?cx' ?ev" by (rule new_ev_rel) (simp add: operation_facts_def)
  have ops: "ops = \<lparr>so_remote = (\<exists>i \<in> set is. fst i \<in> {OP_ADDR_S, OP_ADDR_RE}),
      so_local = (\<exists>i \<in> set is. fst i \<in> {OP_LADDR_S, OP_LADDR_RE})\<rparr>"
    using assms(1,2,4) string_ops_encoded [of "is"] by simp
  have "decide router_act (atom_value ?tbl env ?cx') is [] = decide router_act (atom_value ?tbl env ?cx) is []"
  proof (rule decide_cong)
    fix i
    assume "i \<in> set is"
    then show "atom_value ?tbl env ?cx' (fst i) (snd i) = atom_value ?tbl env ?cx (fst i) (snd i)"
      by (intro atom_value_new [OF refl]) (auto simp: operation_facts_def ops)
  qed
  moreover from router.run_decides [of ?tbl hasLAddr "is" "[]" env ?cx' ?ev] assms(3) rel
  obtain ev' where "run_instrs (router_body ?tbl env) is ([], ?ev) =
      Done (case decide router_act (atom_value ?tbl env ?cx') is [] of
              Inl r \<Rightarrow> Return r | Inr stk' \<Rightarrow> Continue (stk', ev'))"
    by auto
  ultimately show ?thesis
    using assms(1,2)
    by (simp add: router_exec_def route_of_def run_encode_prog Let_def split: sum.splits)
qed

lemma route_of_bound:
  assumes "valid_instrs (router_ok tbl hasLAddr) is 0"
  shows "route_of tbl env cx is \<le> RouterSlots"
proof (cases "decide router_act (atom_value tbl env cx) is []")
  case (Inl r)
  from decide_result [OF Inl] obtain i where "i \<in> set is" "router_act (fst i) (snd i) = Some r" by blast
  moreover from valid_instrs_ok [OF assms] \<open>i \<in> set is\<close> have "router_ok tbl hasLAddr (fst i) (snd i)"
    by (auto simp: list_all_iff)
  ultimately have "r \<le> RouterSlots"
    by (cases "fst i") (auto simp: router_ok_def predicate_ok_def is_action_def RouterSlots_def)
  with Inl show ?thesis by (simp add: route_of_def)
qed (simp add: route_of_def RouterSlots_def)

lemma route_of_named:
  assumes "route_of tbl env cx is = k" and "k \<noteq> 0"
  shows "\<exists>i \<in> set is. names_slot [] i k"
proof -
  from assms have "decide router_act (atom_value tbl env cx) is [] = Inl k"
    by (auto simp: route_of_def split: sum.splits)
  from decide_result [OF this] obtain i where "i \<in> set is" "router_act (fst i) (snd i) = Some k" by blast
  with assms(2) have "names_slot [] i k" by (cases "fst i") (auto simp: names_slot_def)
  with \<open>i \<in> set is\<close> show ?thesis by blast
qed

text \<open>What a constructed configuration is.\<close>

lemma constructed:
  assumes "newBytecodeRouterCfg rules = Done (Inr cfg)"
  obtains a b c d e where
    "list_all (list_all wf_instr) [a, b, c, d, e]"
    "rc_dialTCP cfg = encode_prog a" "rc_listenTCP cfg = encode_prog b" "rc_dialUDP cfg = encode_prog c"
    "rc_routeUDP cfg = encode_prog d" "rc_lookup cfg = encode_prog e"
    "list_all (\<lambda>is. valid_instrs (router_ok (rc_tables cfg) True) is 0) [a, b, c, d]"
    "valid_instrs (router_ok (rc_tables cfg) False) e 0"
    "bytecodeAddrStringOps (rc_dialTCP cfg) = Done (rc_dialTCPStringOps cfg)"
    "bytecodeAddrStringOps (rc_listenTCP cfg) = Done (rc_listenTCPStringOps cfg)"
    "bytecodeAddrStringOps (rc_dialUDP cfg) = Done (rc_dialUDPStringOps cfg)"
    "bytecodeAddrStringOps (rc_routeUDP cfg) = Done (rc_routeUDPStringOps cfg)"
    "bytecodeAddrStringOps (rc_lookup cfg) = Done (rc_lookupStringOps cfg)"
    "mentionedBytecodeSlots RouterSlots (map encode_prog [a, b, c, d, e]) = Done (rc_mentionedSlots cfg)"
proof -
  from assms have v: "router_validate rules = Inr ()"
    by (auto simp: newBytecodeRouterCfg_def split: sum.splits)
  let ?wf = "\<lambda>hl is code. code = encode_prog is \<and> list_all wf_instr is \<and>
      valid_instrs (router_ok (br_tables rules) hl) is 0"
  from v have w: "well_formed (br_tables rules) (br_dialTCP rules, True)"
      "well_formed (br_tables rules) (br_listenTCP rules, True)"
      "well_formed (br_tables rules) (br_dialUDP rules, True)"
      "well_formed (br_tables rules) (br_routeUDP rules, True)"
      "well_formed (br_tables rules) (br_lookup rules, False)"
    by (simp_all add: router_validate_ok programs_def)
  obtain a where a: "?wf True a (br_dialTCP rules)" using w(1) by (auto simp: well_formed_def)
  obtain b where b: "?wf True b (br_listenTCP rules)" using w(2) by (auto simp: well_formed_def)
  obtain c where c: "?wf True c (br_dialUDP rules)" using w(3) by (auto simp: well_formed_def)
  obtain d where d: "?wf True d (br_routeUDP rules)" using w(4) by (auto simp: well_formed_def)
  obtain e where e: "?wf False e (br_lookup rules)" using w(5) by (auto simp: well_formed_def)
  from assms v obtain dt lt du ru lk slots where s:
      "bytecodeAddrStringOps (br_dialTCP rules) = Done dt" "bytecodeAddrStringOps (br_listenTCP rules) = Done lt"
      "bytecodeAddrStringOps (br_dialUDP rules) = Done du" "bytecodeAddrStringOps (br_routeUDP rules) = Done ru"
      "bytecodeAddrStringOps (br_lookup rules) = Done lk"
      "mentionedBytecodeSlots RouterSlots [br_dialTCP rules, br_listenTCP rules, br_dialUDP rules,
         br_routeUDP rules, br_lookup rules] = Done slots"
    and cfg: "cfg = \<lparr>rc_tables = br_tables rules, rc_dialTCP = br_dialTCP rules,
         rc_listenTCP = br_listenTCP rules, rc_dialUDP = br_dialUDP rules,
         rc_routeUDP = br_routeUDP rules, rc_lookup = br_lookup rules,
         rc_dnsStorage = br_dnsCacheStorage rules,
         rc_dialTCPStringOps = dt, rc_listenTCPStringOps = lt,
         rc_dialUDPStringOps = du, rc_routeUDPStringOps = ru,
         rc_lookupStringOps = lk, rc_mentionedSlots = slots\<rparr>"
    by (simp add: newBytecodeRouterCfg_def obind_eq_Done) blast
  show thesis
    by (rule that [of a b c d e]; use s in \<open>simp add: cfg a b c d e\<close>)
qed

text \<open>The calls of the router interface, the program each one runs and the facts it sees.\<close>

datatype router_call =
    CallDialTCP string string string
  | CallListenTCP string string
  | CallDialUDP string string string
  | CallRouteUDP string "net_addr option" "net_addr option"
  | CallLookup string string

fun router_run :: "'re routerCfg \<Rightarrow> 're host_env \<Rightarrow> router_call \<Rightarrow> nat outcome" where
  "router_run cfg env (CallDialTCP nw la ra) = router_DialTCP cfg env nw la ra"
| "router_run cfg env (CallListenTCP nw la) = router_ListenTCP cfg env nw la"
| "router_run cfg env (CallDialUDP nw la ra) = router_DialUDP cfg env nw la ra"
| "router_run cfg env (CallRouteUDP nw la ra) = router_RouteUDP cfg env nw la ra"
| "router_run cfg env (CallLookup nw ra) = router_Lookup cfg env nw ra"

fun call_code :: "'re bytecodeRules \<Rightarrow> router_call \<Rightarrow> byte list" where
  "call_code rules (CallDialTCP nw la ra) = br_dialTCP rules"
| "call_code rules (CallListenTCP nw la) = br_listenTCP rules"
| "call_code rules (CallDialUDP nw la ra) = br_dialUDP rules"
| "call_code rules (CallRouteUDP nw la ra) = br_routeUDP rules"
| "call_code rules (CallLookup nw ra) = br_lookup rules"

fun call_facts :: "storage option \<Rightarrow> router_call \<Rightarrow> context_facts" where
  "call_facts st (CallDialTCP nw la ra) = operation_facts st MethodDial nw (str_input la) (str_input ra)"
| "call_facts st (CallListenTCP nw la) = operation_facts st MethodListen nw (str_input la) (str_input [])"
| "call_facts st (CallDialUDP nw la ra) = operation_facts st MethodDial nw (str_input la) (str_input ra)"
| "call_facts st (CallRouteUDP nw la ra) = operation_facts st MethodDial nw (addr_input la) (addr_input ra)"
| "call_facts st (CallLookup nw ra) = operation_facts st MethodLookup nw (str_input []) (str_input ra)"

lemma constructed_tables:
  assumes "newBytecodeRouterCfg rules = Done (Inr cfg)"
  shows "rc_tables cfg = br_tables rules" "rc_dnsStorage cfg = br_dnsCacheStorage rules"
    "rc_dialTCP cfg = br_dialTCP rules" "rc_listenTCP cfg = br_listenTCP rules"
    "rc_dialUDP cfg = br_dialUDP rules" "rc_routeUDP cfg = br_routeUDP rules"
    "rc_lookup cfg = br_lookup rules"
  using assms by (auto simp: newBytecodeRouterCfg_def obind_eq_Done split: sum.splits)

lemma router_run_route:
  assumes "newBytecodeRouterCfg rules = Done (Inr cfg)"
  obtains "is" hasLAddr where "call_code rules call = encode_prog is" and "list_all wf_instr is"
    and "valid_instrs (router_ok (br_tables rules) hasLAddr) is 0"
    and "router_run cfg env call =
      Done (route_of (br_tables rules) env (call_facts (br_dnsCacheStorage rules) call) is)"
  using assms
proof (rule constructed, goal_cases)
  case (1 a b c d e)
  note defs = constructed_tables [OF assms] router_DialTCP_def router_ListenTCP_def router_DialUDP_def
    router_RouteUDP_def router_Lookup_def
  have x: "list_all wf_instr is \<Longrightarrow> valid_instrs (router_ok (br_tables rules) hl) is 0 \<Longrightarrow>
      bytecodeAddrStringOps (encode_prog is) = Done ops \<Longrightarrow>
      router_exec cfg env (encode_prog is) mth nw la ra ops =
        Done (route_of (br_tables rules) env (operation_facts (br_dnsCacheStorage rules) mth nw la ra) is)"
    for "is" hl ops mth nw la ra
    using router_exec_route [OF refl, of "is" cfg hl ops] constructed_tables [OF assms] by simp
  show thesis
  proof (cases call)
    case (CallDialTCP nw la ra)
    with 1 show ?thesis by (intro that [of a True]) (simp_all add: defs x [of a True])
  next
    case (CallListenTCP nw la)
    with 1 show ?thesis by (intro that [of b True]) (simp_all add: defs x [of b True])
  next
    case (CallDialUDP nw la ra)
    with 1 show ?thesis by (intro that [of c True]) (simp_all add: defs x [of c True])
  next
    case (CallRouteUDP nw la ra)
    with 1 show ?thesis by (intro that [of d True]) (simp_all add: defs x [of d True])
  next
    case (CallLookup nw ra)
    with 1 show ?thesis by (intro that [of e False]) (simp_all add: defs x [of e False])
  qed
qed

lemma mentioned_constructed:
  assumes "newBytecodeRouterCfg rules = Done (Inr cfg)"
  shows "sorted (router_MentionedSlots cfg) \<and> distinct (router_MentionedSlots cfg) \<and>
    set (router_MentionedSlots cfg) =
      {k. 1 \<le> k \<and> k \<le> RouterSlots \<and>
         (\<exists>cp \<in> set (programs rules). (OP_SLOT, k) \<in> set (decode_prog (fst cp)))}"
  using assms
proof (rule constructed, goal_cases)
  case (1 a b c d e)
  obtain ks where "mentionedBytecodeSlots RouterSlots (map encode_prog [a, b, c, d, e]) = Done ks"
      "sorted ks" "distinct ks" "set ks = {k. 1 \<le> k \<and> k \<le> RouterSlots \<and>
        (\<exists>is \<in> set [a, b, c, d, e]. \<exists>i \<in> set is. names_slot [] i k)}"
    unfolding mentionedBytecodeSlots_def by (rule mentioned_slots_encoded [OF 1(1)])
  moreover from this 1(14) have "ks = rc_mentionedSlots cfg" by simp
  moreover have "(\<exists>i \<in> set is. names_slot [] i k) \<longleftrightarrow> (OP_SLOT, k) \<in> set is" for "is" k
    by (force simp: names_slot_def)
  ultimately show ?thesis
    using 1 constructed_tables [OF assms] by (simp add: router_MentionedSlots_def programs_def decode_encode)
qed


lemma constructed_iff:
  "(\<exists>cfg. newBytecodeRouterCfg rules = Done (Inr cfg)) \<longleftrightarrow> router_validate rules = Inr ()"
proof (cases "router_validate rules")
  case (Inr u)
  obtain r where r: "newBytecodeRouterCfg rules = Done r"
    using constructor_total [of rules] by (cases "newBytecodeRouterCfg rules") auto
  with Inr obtain cfg where "r = Inr cfg"
    by (simp add: newBytecodeRouterCfg_def obind_eq_Done) blast
  with Inr r show ?thesis by simp
qed (simp add: newBytecodeRouterCfg_def)

subsection \<open>A sample configuration\<close>

definition sample_tables :: "unit tables" where
  "sample_tables = \<lparr>t_strings = [''example.com''], t_regexps = [], t_ipv4Addrs = [],
     t_ipv4Subnets = [\<lparr>sn_addr = 0x0a000000, sn_bits = 8\<rparr>], t_ipv6Addrs = [], t_ipv6Subnets = []\<rparr>"

text \<open>\<^verbatim>\<open>TCP PORT 443 AND SLOT 2\<close>, \<^verbatim>\<open>ADDR example.com SLOT 3\<close>, \<^verbatim>\<open>SNET4 10.0.0.0/8 DROP\<close>.\<close>

definition sample_code :: "byte list" where
  "sample_code = [10, 25, 187, 1, 5, 1, 2, 13, 0, 0, 1, 3, 21, 0, 0, 0]"

definition sample_rules :: "unit bytecodeRules" where
  "sample_rules = \<lparr>br_tables = sample_tables, br_dnsCacheStorage = None, br_dialTCP = sample_code,
     br_listenTCP = [], br_dialUDP = [], br_routeUDP = [], br_lookup = []\<rparr>"

definition sample_env :: "unit host_env" where
  "sample_env = \<lparr>e_lookupPort = (\<lambda>_ _. None), e_match = (\<lambda>_ _. False)\<rparr>"

definition sample_call :: router_call where
  "sample_call = CallDialTCP ''TCP'' [] ''host.test:443''"

lemma sample_constructed:
  obtains cfg where "newBytecodeRouterCfg sample_rules = Done (Inr cfg)"
proof -
  have "router_validate sample_rules = Inr ()" by code_simp
  with constructed_iff [of sample_rules] that show thesis by blast
qed

lemma sample_decoded:
  "decode_prog sample_code = [(OP_TCP, 0), (OP_PORT, 443), (OP_AND, 0), (OP_SLOT, 2),
     (OP_ADDR_S, 0), (OP_SLOT, 3), (OP_SNET4, 0), (OP_DROP, 0)]"
  by (simp add: sample_code_def opcode_of_def opcodes_def param_kind.simps le16_def)

lemma sample_port: "port_of sample_env nw (str_input ''host.test:443'') = 443"
proof -
  have "splitHostPort ''host.test:443'' = Some (''host.test'', ''443'')"
    by (simp add: splitHostPort_def splitHostPort_net_def cut_last_def)
  moreover have "parseUint 16 ''443'' = Some 443"
    by (simp add: parseUint_def is_digit_def digit_val_def)
  ultimately show ?thesis by (simp add: port_of_def str_input_def port_text_value_def)
qed

lemma sample_routed:
  "route_of (br_tables sample_rules) sample_env (call_facts (br_dnsCacheStorage sample_rules) sample_call)
     (decode_prog (call_code sample_rules sample_call)) = 2"
  by (simp add: sample_rules_def sample_call_def sample_decoded route_of_def atom_value_def
      operation_facts_def side_def sample_port lower_ascii_def char_of_eq_iff isTCPNet_def cx_portNetwork_def)

subsection \<open>Properties\<close>

text \<open>
  C3. Router refinement. Every call on a constructed configuration returns, without a panic,
  the slot that the decision semantics gives to the call's program on the facts of the call:
  the evaluator's address caches, and the switch that turns reverse names off for programs
  without string instructions, are not observable.
\<close>

theorem router_calls_route:
  assumes "newBytecodeRouterCfg rules = Done (Inr cfg)"
  shows "router_run cfg env call =
    Done (route_of (br_tables rules) env (call_facts (br_dnsCacheStorage rules) call)
      (decode_prog (call_code rules call)))"
  using assms by (rule router_run_route [of rules cfg call env]) (simp add: decode_encode)

theorem router_calls_route_witness:
  "\<exists>cfg. newBytecodeRouterCfg sample_rules = Done (Inr cfg) \<and>
     router_run cfg sample_env sample_call = Done 2"
  by (rule sample_constructed) (use router_calls_route sample_routed in metis)

text \<open>
  C17. Router safety. A call on a constructed configuration never panics, whatever the network,
  the addresses, the service database and the cached names are, and returns a slot in
  \<open>0..RouterSlots\<close>.
\<close>

theorem router_calls_safe:
  assumes "newBytecodeRouterCfg rules = Done (Inr cfg)"
  shows "\<exists>slot. router_run cfg env call = Done slot \<and> slot \<le> RouterSlots"
  using assms by (rule router_run_route [of rules cfg call env]) (simp add: route_of_bound)

theorem router_calls_safe_witness:
  "\<exists>cfg slot. newBytecodeRouterCfg sample_rules = Done (Inr cfg) \<and>
     router_run cfg sample_env (CallLookup ''ip'' ''example.com'') = Done slot \<and> slot \<le> 16"
  by (rule sample_constructed) (use router_calls_safe RouterSlots_def in metis)

text \<open>
  C18. \<open>MentionedSlots\<close> of a constructed configuration is strictly increasing, consists of
  slots in \<open>1..RouterSlots\<close> that some \<open>OP_SLOT\<close> instruction names, and contains every
  non-zero slot that a call can return.
\<close>

theorem router_mentions_results:
  assumes "newBytecodeRouterCfg rules = Done (Inr cfg)"
  shows "sorted (router_MentionedSlots cfg) \<and> distinct (router_MentionedSlots cfg) \<and>
    set (router_MentionedSlots cfg) =
      {k. 1 \<le> k \<and> k \<le> RouterSlots \<and>
         (\<exists>cp \<in> set (programs rules). (OP_SLOT, k) \<in> set (decode_prog (fst cp)))} \<and>
    (router_run cfg env call = Done slot \<longrightarrow> slot \<noteq> 0 \<longrightarrow> slot \<in> set (router_MentionedSlots cfg))"
proof -
  have "slot \<in> set (router_MentionedSlots cfg)" if r: "router_run cfg env call = Done slot" "slot \<noteq> 0"
    using assms
  proof (rule router_run_route [of rules cfg call env])
    fix "is" hasLAddr
    assume "is": "call_code rules call = encode_prog is" "list_all wf_instr is"
      "valid_instrs (router_ok (br_tables rules) hasLAddr) is 0"
      "router_run cfg env call =
        Done (route_of (br_tables rules) env (call_facts (br_dnsCacheStorage rules) call) is)"
    with r route_of_bound [OF "is"(3)] have "slot \<le> RouterSlots" by auto
    moreover from "is"(4) r have "(OP_SLOT, slot) \<in> set is"
      using route_of_named [of "br_tables rules" env _ "is" slot] by (force simp: names_slot_def)
    moreover have "\<exists>hl. (encode_prog is, hl) \<in> set (programs rules)"
      using "is"(1) by (cases call) (auto simp: programs_def)
    ultimately show ?thesis
      using mentioned_constructed [OF assms] r(2) "is"(2)
      by (force simp: decode_encode)
  qed
  with mentioned_constructed [OF assms] show ?thesis by blast
qed

theorem router_mentions_results_witness:
  "\<exists>cfg. newBytecodeRouterCfg sample_rules = Done (Inr cfg) \<and>
     router_run cfg sample_env sample_call = Done 2 \<and> 2 \<in> set (router_MentionedSlots cfg)"
proof (rule sample_constructed)
  fix cfg
  assume c: "newBytecodeRouterCfg sample_rules = Done (Inr cfg)"
  have "router_run cfg sample_env sample_call = Done 2"
    by (rule router_run_route [OF c, of sample_call sample_env])
      (use sample_routed in \<open>simp add: decode_encode\<close>)
  with router_mentions_results [OF c, of sample_env sample_call 2] c show ?thesis by auto
qed


end
