(* ===== verification/DNSBytecode.thy ===== *)
theory DNSBytecode
  imports RouterBytecode
begin

text \<open>
  \<^verbatim>\<open>src/routing/dns_bytecode.go\<close>: rule programs that choose a DNS backend for the first question
  of a message. The evaluator memoises the question and the address its name spells; a nil
  message is \<open>None\<close>. Regular expressions are matched by \<open>e_match\<close>, as in the router.
\<close>

record 're dnsRules =
  dr_backends :: "string list"
  dr_tables :: "'re tables"
  dr_route :: "byte list"

subsection \<open>The evaluation context\<close>

record dnsEval =
  d_msg :: "message option"
  d_questionDone :: bool
  d_question :: question
  d_hasQuestion :: bool
  d_ipDone :: bool
  d_ipVal :: addr

definition zeroQuestion :: question where
  "zeroQuestion = \<lparr>q_name = [], q_type = 0, q_class = 0\<rparr>"

definition newDNSEval :: "message option \<Rightarrow> dnsEval" where
  "newDNSEval msg = \<lparr>d_msg = msg, d_questionDone = False, d_question = zeroQuestion,
     d_hasQuestion = False, d_ipDone = False, d_ipVal = AddrZero\<rparr>"

definition firstQuestion :: "dnsEval \<Rightarrow> question option \<times> dnsEval" where
  "firstQuestion ev =
     (if d_questionDone ev then (if d_hasQuestion ev then Some (d_question ev) else None, ev)
      else let ev1 = ev\<lparr>d_questionDone := True\<rparr> in
           case d_msg ev of
             None \<Rightarrow> (None, ev1)
           | Some msg \<Rightarrow>
               (case msg_questions msg of
                  [] \<Rightarrow> (None, ev1)
                | q # _ \<Rightarrow> (Some q, ev1\<lparr>d_question := q, d_hasQuestion := True\<rparr>)))"

definition d_qname :: "dnsEval \<Rightarrow> string \<times> dnsEval" where
  "d_qname ev = (let (q, ev1) = firstQuestion ev in
     ((case q of None \<Rightarrow> [] | Some q \<Rightarrow> q_name q), ev1))"

definition d_qtype :: "dnsEval \<Rightarrow> u16 option \<times> dnsEval" where
  "d_qtype ev = (let (q, ev1) = firstQuestion ev in
     ((case q of None \<Rightarrow> None | Some q \<Rightarrow> Some (q_type q)), ev1))"

definition d_qclass :: "dnsEval \<Rightarrow> u16 option \<times> dnsEval" where
  "d_qclass ev = (let (q, ev1) = firstQuestion ev in
     ((case q of None \<Rightarrow> None | Some q \<Rightarrow> Some (q_class q)), ev1))"

definition d_opcode :: "dnsEval \<Rightarrow> byte option" where
  "d_opcode ev = (case d_msg ev of None \<Rightarrow> None | Some msg \<Rightarrow> Some (msg_opcode msg))"

definition d_ip :: "dnsEval \<Rightarrow> addr \<times> dnsEval" where
  "d_ip ev =
     (if d_ipDone ev then (d_ipVal ev, ev)
      else let (name, ev1) = d_qname (ev\<lparr>d_ipDone := True\<rparr>);
               ip = parseHostIP (trim name ''[]'')
           in (ip, ev1\<lparr>d_ipVal := ip\<rparr>))"

definition d_isFQDN :: "dnsEval \<Rightarrow> bool \<times> dnsEval" where
  "d_isFQDN ev =
     (let (name, ev1) = d_qname ev in
      if name = [] then (False, ev1)
      else let (ip, ev2) = d_ip ev1 in (\<not> isValid ip, ev2))"

definition d_matchString :: "string \<Rightarrow> dnsEval \<Rightarrow> bool \<times> dnsEval" where
  "d_matchString want ev = (let (name, ev1) = d_qname ev in (equalFold name want, ev1))"

definition d_matchRegexp :: "'re host_env \<Rightarrow> 're \<Rightarrow> dnsEval \<Rightarrow> bool \<times> dnsEval" where
  "d_matchRegexp env re ev = (let (name, ev1) = d_qname ev in (e_match env re name, ev1))"

definition d_matchIPv4 :: "u32 \<Rightarrow> dnsEval \<Rightarrow> bool \<times> dnsEval" where
  "d_matchIPv4 want ev = (let (ip, ev1) = d_ip ev in ((case ip of V4 x \<Rightarrow> x = want | _ \<Rightarrow> False), ev1))"

definition d_inIPv4Subnet :: "ipv4Subnet \<Rightarrow> dnsEval \<Rightarrow> bool \<times> dnsEval" where
  "d_inIPv4Subnet sn ev =
     (let (ip, ev1) = d_ip ev in ((case ip of V4 x \<Rightarrow> subnet_contains sn x | _ \<Rightarrow> False), ev1))"

definition d_ipv6 :: "dnsEval \<Rightarrow> addr \<times> dnsEval" where
  "d_ipv6 ev = (let (ip, ev1) = d_ip ev in (if \<not> is6 ip then AddrZero else ip, ev1))"

definition d_is6 :: "addr \<Rightarrow> dnsEval \<Rightarrow> bool \<times> dnsEval" where
  "d_is6 want ev = (let (ip, ev1) = d_ipv6 ev in (ip = want, ev1))"

definition d_in6 :: "prefix \<Rightarrow> dnsEval \<Rightarrow> bool \<times> dnsEval" where
  "d_in6 p ev = (let (ip, ev1) = d_ipv6 ev in (pfx_contains p ip, ev1))"

subsection \<open>Validation\<close>

definition dns_index :: "string \<Rightarrow> nat \<Rightarrow> nat \<Rightarrow> nat \<Rightarrow> bc_error + unit" where
  "dns_index table pc param n =
     check (bytecodeParamIndex param n = None) (ErrIndex ''DNSRoute'' pc table param n)"

definition dns_validateOp :: "'re dnsRules \<Rightarrow> validate_op" where
  "dns_validateOp cfg pc op param kind =
     (let tbl = dr_tables cfg; invalid = ErrNotValidFor ''DNSRoute'' pc op in
      ebind (check (isLAddrOp op \<or> op = OP_LPORT) invalid) (\<lambda>_.
      ebind (check (isRouterMethodOp op \<or> isSplitOnlyOp op \<or> isSnifferOnlyOp op) invalid) (\<lambda>_.
      ebind (check (op \<in> {OP_UDP, OP_TCP, OP_PORT, OP_SLOT}) invalid) (\<lambda>_.
      if kind = ParamNone then Inr ()
      else (case op of
              OP_BACKEND \<Rightarrow> dns_index ''backend'' pc param (length (dr_backends cfg))
            | OP_ADDR_S \<Rightarrow> dns_index ''string'' pc param (length (t_strings tbl))
            | OP_ADDR_RE \<Rightarrow> dns_index ''regexp'' pc param (length (t_regexps tbl))
            | OP_ADDR4 \<Rightarrow> dns_index ''IPv4 address'' pc param (length (t_ipv4Addrs tbl))
            | OP_ADDR6 \<Rightarrow> dns_index ''IPv6 address'' pc param (length (t_ipv6Addrs tbl))
            | OP_SNET4 \<Rightarrow> dns_index ''IPv4 subnet'' pc param (length (t_ipv4Subnets tbl))
            | OP_SNET6 \<Rightarrow> dns_index ''IPv6 subnet'' pc param (length (t_ipv6Subnets tbl))
            | _ \<Rightarrow> Inr ())))))"

definition dns_validate :: "'re dnsRules \<Rightarrow> bc_error + unit" where
  "dns_validate cfg =
     (let tbl = dr_tables cfg in
      ebind (first_error (\<lambda>i name. check (name = []) (ErrEmptyBackend i)) 0 (dr_backends cfg)) (\<lambda>_.
      ebind (check_regexps (t_regexps tbl)) (\<lambda>_.
      ebind (validateTables (t_ipv4Subnets tbl) (t_ipv6Addrs tbl) (t_ipv6Subnets tbl)) (\<lambda>_.
      validateBytecode ''DNSRoute'' (dr_route cfg) (dns_validateOp cfg)))))"

subsection \<open>Evaluation\<close>

definition dns_body :: "'re dnsRules \<Rightarrow> 're host_env \<Rightarrow> opcode \<Rightarrow> nat \<Rightarrow> bool list \<times> dnsEval \<Rightarrow>
    (string, bool list \<times> dnsEval) flow outcome" where
  "dns_body cfg env op param s =
     (let stk = fst s; ev = snd s; tbl = dr_tables cfg;
          limited = (bytecodeParamInt param 0xffff \<noteq> None) in
      case op of
        OP_DROP \<Rightarrow> obind (popBool stk) (\<lambda>(b, stk). Done (if b then Return [] else Continue (stk, ev)))
      | OP_BACKEND \<Rightarrow>
          obind (popBool stk) (\<lambda>(b, stk).
            Done (if b then Return (case bytecodeParamIndex param (length (dr_backends cfg)) of
                                      None \<Rightarrow> [] | Some idx \<Rightarrow> dr_backends cfg ! idx)
                  else Continue (stk, ev)))
      | OP_TRUE \<Rightarrow> push stk (True, ev)
      | OP_FALSE \<Rightarrow> push stk (False, ev)
      | OP_NOT \<Rightarrow> obind (popBool stk) (\<lambda>(b, stk). push stk (\<not> b, ev))
      | OP_AND \<Rightarrow> obind (popBool stk) (\<lambda>(b, stk). obind (popBool stk) (\<lambda>(a, stk). push stk (a \<and> b, ev)))
      | OP_OR \<Rightarrow> obind (popBool stk) (\<lambda>(b, stk). obind (popBool stk) (\<lambda>(a, stk). push stk (a \<or> b, ev)))
      | OP_NET4 \<Rightarrow> (let (q, ev1) = d_qtype ev in push stk (q = Some TypeA, ev1))
      | OP_NET6 \<Rightarrow> (let (q, ev1) = d_qtype ev in push stk (q = Some TypeAAAA, ev1))
      | OP_FQDN \<Rightarrow> push stk (d_isFQDN ev)
      | OP_ADDR_S \<Rightarrow> push_indexed (t_strings tbl) param d_matchString stk ev
      | OP_ADDR_RE \<Rightarrow> push_regexp (t_regexps tbl) param (d_matchRegexp env) stk ev
      | OP_ADDR4 \<Rightarrow> push_indexed (t_ipv4Addrs tbl) param d_matchIPv4 stk ev
      | OP_ADDR6 \<Rightarrow> push_indexed (t_ipv6Addrs tbl) param d_is6 stk ev
      | OP_SNET4 \<Rightarrow> push_indexed (t_ipv4Subnets tbl) param d_inIPv4Subnet stk ev
      | OP_SNET6 \<Rightarrow> push_indexed (t_ipv6Subnets tbl) param d_in6 stk ev
      | OP_QTYPE \<Rightarrow> (let (q, ev1) = d_qtype ev in
          push stk (limited \<and> (case q of None \<Rightarrow> False | Some t \<Rightarrow> unat t = param), ev1))
      | OP_QCLASS \<Rightarrow> (let (q, ev1) = d_qclass ev in
          push stk (limited \<and> (case q of None \<Rightarrow> False | Some c \<Rightarrow> unat c = param), ev1))
      | OP_OPCODE \<Rightarrow>
          push stk (limited \<and> (case d_opcode ev of None \<Rightarrow> False | Some c \<Rightarrow> unat c = param), ev)
      | _ \<Rightarrow> Done (Continue s))"

definition dns_exec :: "'re dnsRules \<Rightarrow> 're host_env \<Rightarrow> message option \<Rightarrow> string outcome" where
  "dns_exec cfg env msg =
     (case run_bytecode (dns_body cfg env) (dr_route cfg) 0 ([], newDNSEval msg) of
        Panic \<Rightarrow> Panic
      | Done (Return name) \<Rightarrow> Done name
      | Done (Continue _) \<Rightarrow> Done [])"

text \<open>\<^verbatim>\<open>NewBytecodeDNSRouteFunc\<close>: the route function, or the error of the validator.\<close>

definition newBytecodeDNSRouteFunc ::
    "'re dnsRules \<Rightarrow> 're host_env \<Rightarrow> bc_error + (message option \<Rightarrow> string outcome)" where
  "newBytecodeDNSRouteFunc rules env = ebind (dns_validate rules) (\<lambda>_. Inr (dns_exec rules env))"

subsection \<open>What the predicates mean\<close>

definition question_of :: "message option \<Rightarrow> question option" where
  "question_of msg =
     (case msg of None \<Rightarrow> None
      | Some m \<Rightarrow> (case msg_questions m of [] \<Rightarrow> None | q # _ \<Rightarrow> Some q))"

definition qname_of :: "message option \<Rightarrow> string" where
  "qname_of msg = (case question_of msg of None \<Rightarrow> [] | Some q \<Rightarrow> q_name q)"

definition qip_of :: "message option \<Rightarrow> addr" where
  "qip_of msg = parseHostIP (trim (qname_of msg) ''[]'')"

definition dns_atom :: "'re tables \<Rightarrow> 're host_env \<Rightarrow> message option \<Rightarrow> opcode \<Rightarrow> nat \<Rightarrow> bool" where
  "dns_atom tbl env msg op p =
     (case op of
        OP_NET4 \<Rightarrow> map_option q_type (question_of msg) = Some TypeA
      | OP_NET6 \<Rightarrow> map_option q_type (question_of msg) = Some TypeAAAA
      | OP_FQDN \<Rightarrow> qname_of msg \<noteq> [] \<and> \<not> isValid (qip_of msg)
      | OP_ADDR_S \<Rightarrow> equalFold (qname_of msg) (t_strings tbl ! p)
      | OP_ADDR_RE \<Rightarrow> (case t_regexps tbl ! p of None \<Rightarrow> False | Some re \<Rightarrow> e_match env re (qname_of msg))
      | OP_ADDR4 \<Rightarrow> match4 (\<lambda>x. x = t_ipv4Addrs tbl ! p) (qip_of msg)
      | OP_ADDR6 \<Rightarrow> only6 (qip_of msg) = t_ipv6Addrs tbl ! p
      | OP_SNET4 \<Rightarrow> match4 (subnet_contains (t_ipv4Subnets tbl ! p)) (qip_of msg)
      | OP_SNET6 \<Rightarrow> pfx_contains (t_ipv6Subnets tbl ! p) (only6 (qip_of msg))
      | OP_QTYPE \<Rightarrow> (case question_of msg of None \<Rightarrow> False | Some q \<Rightarrow> unat (q_type q) = p)
      | OP_QCLASS \<Rightarrow> (case question_of msg of None \<Rightarrow> False | Some q \<Rightarrow> unat (q_class q) = p)
      | OP_OPCODE \<Rightarrow> (case msg of None \<Rightarrow> False | Some m \<Rightarrow> unat (msg_opcode m) = p)
      | _ \<Rightarrow> False)"

subsection \<open>Memoisation is transparent\<close>

definition dns_inv :: "message option \<Rightarrow> dnsEval \<Rightarrow> bool" where
  "dns_inv msg ev \<longleftrightarrow>
     d_msg ev = msg \<and>
     (d_questionDone ev \<longrightarrow> (if d_hasQuestion ev then Some (d_question ev) else None) = question_of msg) \<and>
     (\<not> d_questionDone ev \<longrightarrow> \<not> d_hasQuestion ev) \<and>
     (d_ipDone ev \<longrightarrow> d_ipVal ev = qip_of msg)"

definition dreads :: "message option \<Rightarrow> (dnsEval \<Rightarrow> 'a \<times> dnsEval) \<Rightarrow> 'a \<Rightarrow> bool" where
  "dreads msg f v \<longleftrightarrow> (\<forall>ev. dns_inv msg ev \<longrightarrow> fst (f ev) = v \<and> dns_inv msg (snd (f ev)))"

lemma dreads_map:
  assumes "dreads msg f v" and "\<And>ev. h ev = (let (x, ev1) = f ev in (k x, ev1))"
  shows "dreads msg h (k v)"
  using assms(1) by (auto simp: dreads_def assms(2) split: prod.splits)

lemma firstQuestion_dreads: "dreads msg firstQuestion (question_of msg)"
  by (auto simp: dreads_def dns_inv_def firstQuestion_def question_of_def Let_def
      split: option.splits list.splits)

lemma d_qname_dreads: "dreads msg d_qname (qname_of msg)"
  unfolding qname_of_def by (rule dreads_map [OF firstQuestion_dreads]) (simp add: d_qname_def)

lemma d_qtype_dreads: "dreads msg d_qtype (map_option q_type (question_of msg))"
  by (rule dreads_map [OF firstQuestion_dreads]) (simp add: d_qtype_def map_option_case)

lemma d_qclass_dreads: "dreads msg d_qclass (map_option q_class (question_of msg))"
  by (rule dreads_map [OF firstQuestion_dreads]) (simp add: d_qclass_def map_option_case)

lemma firstQuestion_ipDone:
  "firstQuestion (ev\<lparr>d_ipDone := b\<rparr>) = (fst (firstQuestion ev), (snd (firstQuestion ev))\<lparr>d_ipDone := b\<rparr>)"
  by (cases "d_msg ev"; cases "msg_questions (the (d_msg ev))") (auto simp: firstQuestion_def)

lemma d_qname_ipDone: "d_qname (ev\<lparr>d_ipDone := b\<rparr>) = (fst (d_qname ev), (snd (d_qname ev))\<lparr>d_ipDone := b\<rparr>)"
  by (simp add: d_qname_def firstQuestion_ipDone case_prod_beta)

lemma d_ip_dreads: "dreads msg d_ip (qip_of msg)"
  unfolding dreads_def
proof (intro allI impI)
  fix ev
  assume inv: "dns_inv msg ev"
  then have q: "fst (d_qname ev) = qname_of msg" "dns_inv msg (snd (d_qname ev))"
    using d_qname_dreads by (auto simp: dreads_def)
  show "fst (d_ip ev) = qip_of msg \<and> dns_inv msg (snd (d_ip ev))"
  proof (cases "d_ipDone ev")
    case True
    with inv show ?thesis by (simp add: d_ip_def dns_inv_def)
  next
    case False
    with q show ?thesis by (simp add: d_ip_def d_qname_ipDone qip_of_def Let_def) (auto simp: dns_inv_def qip_of_def)
  qed
qed

lemma d_isFQDN_dreads: "dreads msg d_isFQDN (qname_of msg \<noteq> [] \<and> \<not> isValid (qip_of msg))"
  using d_qname_dreads [of msg] d_ip_dreads [of msg]
  by (fastforce simp: dreads_def d_isFQDN_def split: prod.splits)

lemma d_matchString_dreads: "dreads msg (d_matchString want) (equalFold (qname_of msg) want)"
  by (rule dreads_map [OF d_qname_dreads]) (simp add: d_matchString_def)

lemma d_matchRegexp_dreads: "dreads msg (d_matchRegexp env re) (e_match env re (qname_of msg))"
  by (rule dreads_map [OF d_qname_dreads]) (simp add: d_matchRegexp_def)

lemma d_matchIPv4_dreads: "dreads msg (d_matchIPv4 want) (match4 (\<lambda>x. x = want) (qip_of msg))"
  by (rule dreads_map [OF d_ip_dreads]) (simp add: d_matchIPv4_def match4_def)

lemma d_inIPv4Subnet_dreads: "dreads msg (d_inIPv4Subnet sn) (match4 (subnet_contains sn) (qip_of msg))"
  by (rule dreads_map [OF d_ip_dreads]) (simp add: d_inIPv4Subnet_def match4_def)

lemma d_ipv6_dreads: "dreads msg d_ipv6 (only6 (qip_of msg))"
  by (rule dreads_map [OF d_ip_dreads]) (simp add: d_ipv6_def only6_def)

lemma d_is6_dreads: "dreads msg (d_is6 want) (only6 (qip_of msg) = want)"
  by (rule dreads_map [OF d_ipv6_dreads]) (simp add: d_is6_def)

lemma d_in6_dreads: "dreads msg (d_in6 p) (pfx_contains p (only6 (qip_of msg)))"
  by (rule dreads_map [OF d_ipv6_dreads]) (simp add: d_in6_def)

definition dns_pushes :: "message option \<Rightarrow> bool \<Rightarrow> bool list \<Rightarrow>
    (string, bool list \<times> dnsEval) flow outcome \<Rightarrow> bool" where
  "dns_pushes msg v stk m \<longleftrightarrow> (\<exists>ev'. dns_inv msg ev' \<and> m = Done (Continue (v # stk, ev')))"

lemma dns_pushes_pure: "dns_inv msg ev \<Longrightarrow> dns_pushes msg v stk (push stk (v, ev))"
  by (auto simp: dns_pushes_def push_def)

lemma dns_pushes_read: "dreads msg f v \<Longrightarrow> dns_inv msg ev \<Longrightarrow> dns_pushes msg v stk (push stk (f ev))"
  by (auto simp: dns_pushes_def push_def dreads_def)

lemma dns_pushes_let:
  "dreads msg f v \<Longrightarrow> dns_inv msg ev \<Longrightarrow> dns_pushes msg (k v) stk (let (x, ev1) = f ev in push stk (k x, ev1))"
  by (auto simp: dns_pushes_def push_def dreads_def split: prod.splits)

lemma dns_pushes_indexed:
  "p < length tbl \<Longrightarrow> dreads msg (f (tbl ! p)) v \<Longrightarrow> dns_inv msg ev \<Longrightarrow>
   dns_pushes msg v stk (push_indexed tbl p f stk ev)"
  using dns_pushes_read [of msg "f (tbl ! p)" v ev stk]
  by (auto simp: push_indexed_def bytecodeParamIndex_def)

lemma dns_pushes_regexp:
  "p < length tbl \<Longrightarrow> tbl ! p = Some re \<Longrightarrow> dreads msg (f re) v \<Longrightarrow> dns_inv msg ev \<Longrightarrow>
   dns_pushes msg v stk (push_regexp tbl p f stk ev)"
  using dns_pushes_read [of msg "f re" v ev stk]
  by (auto simp: push_regexp_def bytecodeParamIndex_def)

subsection \<open>The evaluator as a decision machine\<close>

definition dns_op_ok :: "'re dnsRules \<Rightarrow> opcode \<Rightarrow> nat \<Rightarrow> bool" where
  "dns_op_ok cfg op p \<longleftrightarrow>
     op \<in> {OP_DROP, OP_TRUE, OP_FALSE, OP_NOT, OP_AND, OP_OR, OP_NET4, OP_NET6, OP_FQDN,
            OP_QTYPE, OP_QCLASS, OP_OPCODE} \<or>
     op = OP_BACKEND \<and> p < length (dr_backends cfg) \<or>
     op \<in> {OP_ADDR_S, OP_ADDR4, OP_ADDR6, OP_SNET4, OP_SNET6} \<and> index_ok (dr_tables cfg) op p \<or>
     op = OP_ADDR_RE \<and> index_ok (dr_tables cfg) op p \<and> t_regexps (dr_tables cfg) ! p \<noteq> None"

fun dns_act :: "string list \<Rightarrow> opcode \<Rightarrow> nat \<Rightarrow> string option" where
  "dns_act backends OP_DROP p = Some []"
| "dns_act backends OP_BACKEND p = Some (backends ! p)"
| "dns_act backends _ p = None"

lemma dns_acts: "acts_on (dns_op_ok cfg) (dns_act (dr_backends cfg))"
  unfolding acts_on_def
proof (intro allI impI)
  fix op p
  assume "dns_op_ok cfg op p"
  then show "(dns_act (dr_backends cfg) op p \<noteq> None) = is_action op"
    by (cases op) (auto simp: dns_op_ok_def is_action_def)
qed

lemma dns_validateOp_accepts:
  assumes "no_nil_regexp (dr_tables cfg)"
  shows "accepts (dns_validateOp cfg) (dns_op_ok cfg)"
  unfolding accepts_def
proof (intro allI)
  fix pc op p
  from assms have "p < length (t_regexps (dr_tables cfg)) \<Longrightarrow> \<exists>y. t_regexps (dr_tables cfg) ! p = Some y"
    by (auto simp: no_nil_regexp_def list_all_length)
  then show "(dns_validateOp cfg pc op p (param_kind op) = Inr ()) = dns_op_ok cfg op p"
    by (cases op)
      (auto simp: dns_validateOp_def dns_index_def bytecodeParamIndex_def dns_op_ok_def
        param_kind.simps index_ok_def Let_def)
qed

lemmas dns_push_rules = dns_pushes_pure dns_pushes_read [OF d_isFQDN_dreads]
  dns_pushes_let [OF d_qtype_dreads] dns_pushes_let [OF d_qclass_dreads]
  dns_pushes_indexed [where f = d_matchString, OF _ d_matchString_dreads]
  dns_pushes_indexed [where f = d_matchIPv4, OF _ d_matchIPv4_dreads]
  dns_pushes_indexed [where f = d_is6, OF _ d_is6_dreads]
  dns_pushes_indexed [where f = d_inIPv4Subnet, OF _ d_inIPv4Subnet_dreads]
  dns_pushes_indexed [where f = d_in6, OF _ d_in6_dreads]

lemma limit16:
  "(bytecodeParamInt p 0xffff \<noteq> None \<and> (case q of None \<Rightarrow> False | Some t \<Rightarrow> unat t = p)) \<longleftrightarrow>
   (case q of None \<Rightarrow> False | Some t \<Rightarrow> unat (t :: u16) = p)"
proof (cases q)
  case (Some t)
  then show ?thesis using u16_less [of t] by (auto simp: bytecodeParamInt_def simp del: u16_less)
qed simp

lemma limit8: "(bytecodeParamInt p 0xffff \<noteq> None \<and> unat (t :: byte) = p) \<longleftrightarrow> unat t = p"
  using byte_less [of t] by (auto simp: bytecodeParamInt_def simp del: byte_less)

lemma dns_atom_pushed:
  assumes "dns_op_ok cfg op p" and "dns_inv msg ev" and "\<not> is_action op"
    and "op \<notin> {OP_TRUE, OP_FALSE, OP_NOT, OP_AND, OP_OR}"
  shows "dns_pushes msg (dns_atom (dr_tables cfg) env msg op p) stk (dns_body cfg env op p (stk, ev))"
proof (cases "op \<in> {OP_QTYPE, OP_QCLASS, OP_NET4, OP_NET6}")
  case True
  then show ?thesis
    using dns_pushes_let [OF d_qtype_dreads assms(2), of "\<lambda>q. q = Some TypeA" stk]
      dns_pushes_let [OF d_qtype_dreads assms(2), of "\<lambda>q. q = Some TypeAAAA" stk]
      dns_pushes_let [OF d_qtype_dreads assms(2),
        of "\<lambda>q. case q of None \<Rightarrow> False | Some t \<Rightarrow> unat t = p" stk]
      dns_pushes_let [OF d_qclass_dreads assms(2),
        of "\<lambda>q. case q of None \<Rightarrow> False | Some t \<Rightarrow> unat t = p" stk]
    by (cases "question_of msg") (auto simp: dns_body_def dns_atom_def limit16 Let_def simp del: not_None_eq)
next
  case False
  note defs = dns_body_def dns_atom_def dns_op_ok_def index_ok_def is_action_def
  show ?thesis
  proof (cases "op \<in> {OP_ADDR_RE, OP_OPCODE}")
    case True
    have m: "d_msg ev = msg" using assms(2) by (simp add: dns_inv_def)
    have re: "p < length (t_regexps (dr_tables cfg)) \<Longrightarrow> t_regexps (dr_tables cfg) ! p = Some re \<Longrightarrow>
        dns_pushes msg (e_match env re (qname_of msg)) stk
          (push_regexp (t_regexps (dr_tables cfg)) p (d_matchRegexp env) stk ev)" for re
      by (rule dns_pushes_regexp [where f = "d_matchRegexp env" and re = re])
        (simp_all add: d_matchRegexp_dreads assms(2))
    show ?thesis
      using True assms(1) re dns_pushes_pure [OF assms(2)]
      by (cases msg) (auto simp: defs d_opcode_def m limit8 Let_def simp del: not_None_eq)
  next
    case plain: False
    show ?thesis
      using assms False plain
      by (cases op; simp add: defs Let_def; (simp add: dns_push_rules)?)
  qed
qed

lemma dns_step_plain:
  assumes "dns_op_ok cfg op p" and "\<not> is_action op" and "dns_inv msg ev"
    and "depth_after op (length stk) = Some d"
  shows "\<exists>ev'. dns_inv msg ev' \<and> dns_body cfg env op p (stk, ev) =
    Done (Continue (bool_step (dns_atom (dr_tables cfg) env msg) op p stk, ev'))"
proof (cases "op \<in> {OP_TRUE, OP_FALSE, OP_NOT, OP_AND, OP_OR}")
  case True
  then show ?thesis
    using assms(3,4)
    by (cases stk; cases "tl stk") (auto simp: dns_body_def push_def depth_after.simps)
next
  case False
  then have "bool_step (dns_atom (dr_tables cfg) env msg) op p stk =
      dns_atom (dr_tables cfg) env msg op p # stk"
    by (cases op) simp_all
  with dns_atom_pushed [OF assms(1,3,2) False, of env stk] show ?thesis by (simp add: dns_pushes_def)
qed

interpretation dns: validated_machine "dns_body cfg env" "dns_op_ok cfg" "dns_inv msg"
    "dns_act (dr_backends cfg)" "dns_atom (dr_tables cfg) env msg" "dns_validateOp cfg"
    "no_nil_regexp (dr_tables cfg)"
  for cfg env msg
proof unfold_locales
  show "acts_on (dns_op_ok cfg) (dns_act (dr_backends cfg))" by (rule dns_acts)
next
  fix op p r b stk ev
  assume "dns_op_ok cfg op p" and "dns_act (dr_backends cfg) op p = Some r"
  then show "dns_body cfg env op p (b # stk, ev) = Done (if b then Return r else Continue (stk, ev))"
    by (cases op) (auto simp: dns_body_def dns_op_ok_def bytecodeParamIndex_def)
qed (rule dns_step_plain dns_validateOp_accepts; assumption)+

definition dns_route_of :: "'re dnsRules \<Rightarrow> 're host_env \<Rightarrow> message option \<Rightarrow> instr list \<Rightarrow> string" where
  "dns_route_of cfg env msg is =
     (case decide (dns_act (dr_backends cfg)) (dns_atom (dr_tables cfg) env msg) is [] of
        Inl name \<Rightarrow> name | Inr _ \<Rightarrow> [])"

lemma dns_validate_ok:
  "dns_validate cfg = Inr () \<longleftrightarrow>
     [] \<notin> set (dr_backends cfg) \<and> no_nil_regexp (dr_tables cfg) \<and>
     validateTables (t_ipv4Subnets (dr_tables cfg)) (t_ipv6Addrs (dr_tables cfg))
       (t_ipv6Subnets (dr_tables cfg)) = Inr () \<and>
     validateBytecode ''DNSRoute'' (dr_route cfg) (dns_validateOp cfg) = Inr ()"
  by (auto simp: dns_validate_def Let_def ebind_eq_Inr check_regexps_ok first_error_ok in_set_conv_nth)

lemma newDNSEval_inv: "dns_inv msg (newDNSEval msg)"
  by (simp add: dns_inv_def newDNSEval_def)

lemma dns_exec_route:
  assumes "dns_validate cfg = Inr ()"
  obtains "is" where "dr_route cfg = encode_prog is" and "list_all wf_instr is"
    and "valid_instrs (dns_op_ok cfg) is 0" and "dns_exec cfg env msg = Done (dns_route_of cfg env msg is)"
proof -
  from assms have v: "no_nil_regexp (dr_tables cfg)"
      "validateBytecode ''DNSRoute'' (dr_route cfg) (dns_validateOp cfg) = Inr ()"
    by (simp_all add: dns_validate_ok)
  show thesis
  proof (rule dns.validated_run [OF v newDNSEval_inv, where env = env and msg = msg])
    fix "is" ev'
    assume "dr_route cfg = encode_prog is" "list_all wf_instr is" "valid_instrs (dns_op_ok cfg) is 0"
      and "run_bytecode (dns_body cfg env) (dr_route cfg) 0 ([], newDNSEval msg) =
        Done (case decide (dns_act (dr_backends cfg)) (dns_atom (dr_tables cfg) env msg) is [] of
                Inl r \<Rightarrow> Return r | Inr stk' \<Rightarrow> Continue (stk', ev'))"
    then show thesis
      by (intro that [of "is"]) (simp_all add: dns_exec_def dns_route_of_def split: sum.splits)
  qed
qed

subsection \<open>A sample configuration\<close>

text \<open>\<^verbatim>\<open>QTYPE AAAA DROP\<close>, \<^verbatim>\<open>ADDR_S intra.test BACKEND corp\<close>, \<^verbatim>\<open>TRUE BACKEND public\<close>.\<close>

definition sample_dns :: "unit dnsRules" where
  "sample_dns = \<lparr>dr_backends = [''corp'', ''public''],
     dr_tables = \<lparr>t_strings = [''intra.test''], t_regexps = [], t_ipv4Addrs = [], t_ipv4Subnets = [],
                  t_ipv6Addrs = [], t_ipv6Subnets = []\<rparr>,
     dr_route = [36, 28, 0, 0, 13, 0, 0, 35, 0, 0, 2, 35, 1, 0]\<rparr>"


lemma sample_dns_valid: "dns_validate sample_dns = Inr ()"
  by code_simp



subsection \<open>Properties\<close>



text \<open>
  C23. DNS route safety. The name a route function returns is empty (no backend: the request is
  rejected) or one of the configured backends, and no configured backend has the empty name.
\<close>

theorem dns_route_in_backends:
  assumes "newBytecodeDNSRouteFunc rules env = Inr route"
  shows "[] \<notin> set (dr_backends rules) \<and>
    (\<exists>name. route msg = Done name \<and> (name = [] \<or> name \<in> set (dr_backends rules)))"
proof -
  from assms have v: "dns_validate rules = Inr ()" "route = dns_exec rules env"
    by (auto simp: newBytecodeDNSRouteFunc_def ebind_eq_Inr)
  have "\<exists>name. route msg = Done name \<and> (name = [] \<or> name \<in> set (dr_backends rules))"
    using v(1)
  proof (rule dns_exec_route [of rules env msg])
    fix "is"
    assume "valid_instrs (dns_op_ok rules) is 0" and r: "dns_exec rules env msg = Done (dns_route_of rules env msg is)"
    then have ok: "list_all (\<lambda>i. dns_op_ok rules (fst i) (snd i)) is" by (blast dest: valid_instrs_ok)
    have "dns_route_of rules env msg is = [] \<or> dns_route_of rules env msg is \<in> set (dr_backends rules)"
    proof (cases "decide (dns_act (dr_backends rules)) (dns_atom (dr_tables rules) env msg) is []")
      case (Inl name)
      from decide_result [OF Inl] obtain i where i: "i \<in> set is"
          "dns_act (dr_backends rules) (fst i) (snd i) = Some name"
        by blast
      with ok have "dns_op_ok rules (fst i) (snd i)" by (simp add: list_all_iff)
      with i(2) Inl show ?thesis
        by (cases "fst i") (auto simp: dns_route_of_def dns_op_ok_def)
    qed (simp add: dns_route_of_def)
    with r v(2) show ?thesis by auto
  qed
  with v(1) show ?thesis by (simp add: dns_validate_ok)
qed

theorem dns_route_in_backends_witness:
  "\<exists>route name. newBytecodeDNSRouteFunc sample_dns sample_env = Inr route \<and>
     route None = Done name \<and> (name = [] \<or> name \<in> {''corp'', ''public''})"
proof -
  have r: "newBytecodeDNSRouteFunc sample_dns sample_env = Inr (dns_exec sample_dns sample_env)"
    by (simp add: newBytecodeDNSRouteFunc_def sample_dns_valid)
  have b: "set (dr_backends sample_dns) = {''corp'', ''public''}" by (simp add: sample_dns_def)
  from dns_route_in_backends [OF r, of None] r show ?thesis by (auto simp: b)
qed

end
