(* ===== verification/Remapper.thy ===== *)
theory Remapper
  imports NetAddr
begin

text \<open>
  \<^verbatim>\<open>src/remapper.go\<close>: the middleware that rewrites the address arguments of network operations.
  \<open>remap\<close> is the loop over the rules; the operations of the wrapped network are arguments of
  the methods. A filter is a function that may panic (\<open>None\<close> is Go's nil filter); the
  integer-valued enumerations keep a constructor for other values.
\<close>

datatype remapEndpoint = RemapDst | RemapSrc | EndpointOther int

datatype remapField = RemapAddrPort | RemapAddr | RemapPort | FieldOther int

type_synonym remapOperation = string

definition RemapOpDial :: remapOperation where "RemapOpDial = ''Dial''"
definition RemapOpListen :: remapOperation where "RemapOpListen = ''Listen''"
definition RemapOpPacketDial :: remapOperation where "RemapOpPacketDial = ''PacketDial''"
definition RemapOpListenPacket :: remapOperation where "RemapOpListenPacket = ''ListenPacket''"
definition RemapOpDialTCP :: remapOperation where "RemapOpDialTCP = ''DialTCP''"
definition RemapOpListenTCP :: remapOperation where "RemapOpListenTCP = ''ListenTCP''"
definition RemapOpDialUDP :: remapOperation where "RemapOpDialUDP = ''DialUDP''"
definition RemapOpListenUDP :: remapOperation where "RemapOpListenUDP = ''ListenUDP''"
definition RemapOpListenPacketConfig :: remapOperation where
  "RemapOpListenPacketConfig = ''ListenPacketConfig''"
definition RemapOpListenUDPConfig :: remapOperation where
  "RemapOpListenUDPConfig = ''ListenUDPConfig''"
definition RemapOpListenMulticastUDP :: remapOperation where
  "RemapOpListenMulticastUDP = ''ListenMulticastUDP''"

record remapInfo =
  ri_operation :: remapOperation
  ri_network :: string
  ri_endpoint :: remapEndpoint
  ri_address :: string
  ri_srcAddr :: string
  ri_dstAddr :: string

type_synonym remapFilter = "remapInfo \<Rightarrow> bool outcome"

record remapRule =
  rr_filter :: "remapFilter option"
  rr_endpoint :: remapEndpoint
  rr_field :: remapField
  rr_addr :: string
  rr_port :: string

definition remapAddressFilter :: "(string \<Rightarrow> string \<Rightarrow> bool) option \<Rightarrow> remapFilter option" where
  "remapAddressFilter flt =
     (case flt of None \<Rightarrow> None | Some f \<Rightarrow> Some (\<lambda>info. Done (f (ri_network info) (ri_address info))))"

subsection \<open>Rewriting one address\<close>

definition remapSplitHostPort :: "string \<Rightarrow> (string \<times> string) option" where
  "remapSplitHostPort address = splitHostPort_net address"

definition remapAddress :: "string \<Rightarrow> remapRule \<Rightarrow> string \<times> bool" where
  "remapAddress address rule =
     (case rr_field rule of
        RemapAddrPort \<Rightarrow> (joinHostPort (rr_addr rule) (rr_port rule), True)
      | RemapAddr \<Rightarrow>
          (case remapSplitHostPort address of
             None \<Rightarrow> (rr_addr rule, True)
           | Some (_, port) \<Rightarrow> (joinHostPort (rr_addr rule) port, True))
      | RemapPort \<Rightarrow>
          (case remapSplitHostPort address of
             None \<Rightarrow> (address, False)
           | Some (host, _) \<Rightarrow> (joinHostPort host (rr_port rule), False))
      | FieldOther _ \<Rightarrow> (address, False))"

definition remapHostFamily :: "string \<Rightarrow> string" where
  "remapHostFamily host =
     (let host = (case splitHostPort_net host of Some (h, _) \<Rightarrow> h | None \<Rightarrow> host);
          host = (if hasPrefix host ''['' \<and> hasSuffix host '']''
                  then trimPrefix (trimSuffix host '']'') ''['' else host);
          host = (case cut_at (CHR ''%'') host of Some (h, _) \<Rightarrow> h | None \<Rightarrow> host)
      in case parseAddr host of
           None \<Rightarrow> []
         | Some a \<Rightarrow> if is4 a then ''4'' else if is6 a then ''6'' else [])"

definition remapNetworkForHost :: "string \<Rightarrow> string \<Rightarrow> string" where
  "remapNetworkForHost network host =
     (let family = remapHostFamily host in
      if family = [] then network
      else if network = ''tcp4'' \<or> network = ''tcp6'' then ''tcp'' @ family
      else if network = ''udp4'' \<or> network = ''udp6'' then ''udp'' @ family
      else if network = ''ip4'' \<or> network = ''ip6'' then ''ip'' @ family
      else network)"

subsection \<open>The rule loop\<close>

text \<open>One iteration: the network, source and destination after \<open>rule\<close>.\<close>

definition remap_step :: "remapOperation \<Rightarrow> bool \<Rightarrow> bool \<Rightarrow> remapRule \<Rightarrow> string \<times> string \<times> string \<Rightarrow>
    (string \<times> string \<times> string) outcome" where
  "remap_step op hasSrc hasDst rule = (\<lambda>(network, src, dst).
     let apply = (\<lambda>current set_next.
           let info = \<lparr>ri_operation = op, ri_network = network, ri_endpoint = rr_endpoint rule,
                       ri_address = current, ri_srcAddr = src, ri_dstAddr = dst\<rparr> in
           obind (case rr_filter rule of None \<Rightarrow> Done True | Some f \<Rightarrow> f info) (\<lambda>matches.
           if \<not> matches then Done (network, src, dst)
           else let (next, changedAddr) = remapAddress current rule in
                Done (if changedAddr then remapNetworkForHost network (rr_addr rule) else network,
                      set_next next)))
     in case rr_endpoint rule of
          RemapSrc \<Rightarrow> if \<not> hasSrc then Done (network, src, dst) else apply src (\<lambda>next. (next, dst))
        | RemapDst \<Rightarrow> if \<not> hasDst then Done (network, src, dst) else apply dst (\<lambda>next. (src, next))
        | EndpointOther _ \<Rightarrow> Done (network, src, dst))"

fun remap_loop :: "remapOperation \<Rightarrow> bool \<Rightarrow> bool \<Rightarrow> remapRule list \<Rightarrow> string \<times> string \<times> string \<Rightarrow>
    (string \<times> string \<times> string) outcome" where
  "remap_loop op hasSrc hasDst [] s = Done s"
| "remap_loop op hasSrc hasDst (rule # rules) s =
     obind (remap_step op hasSrc hasDst rule s) (remap_loop op hasSrc hasDst rules)"

definition remap :: "remapRule list \<Rightarrow> remapOperation \<Rightarrow> string \<Rightarrow> string \<Rightarrow> bool \<Rightarrow> string \<Rightarrow> bool \<Rightarrow>
    (string \<times> string \<times> string) outcome" where
  "remap rules op network src hasSrc dst hasDst = remap_loop op hasSrc hasDst rules (network, src, dst)"

subsection \<open>The network methods\<close>

text \<open>The last argument of each method is the wrapped network's operation.\<close>

definition remap_dst_call :: "remapRule list \<Rightarrow> remapOperation \<Rightarrow> string \<Rightarrow> string \<Rightarrow>
    (string \<Rightarrow> string \<Rightarrow> 'r) \<Rightarrow> 'r outcome" where
  "remap_dst_call rules op network address f =
     obind (remap rules op network [] False address True) (\<lambda>(network, _, address). Done (f network address))"

definition remap_src_call :: "remapRule list \<Rightarrow> remapOperation \<Rightarrow> string \<Rightarrow> string \<Rightarrow>
    (string \<Rightarrow> string \<Rightarrow> 'r) \<Rightarrow> 'r outcome" where
  "remap_src_call rules op network address f =
     obind (remap rules op network address True [] False) (\<lambda>(network, address, _). Done (f network address))"

definition remap_both_call :: "remapRule list \<Rightarrow> remapOperation \<Rightarrow> string \<Rightarrow> string \<Rightarrow> string \<Rightarrow>
    (string \<Rightarrow> string \<Rightarrow> string \<Rightarrow> 'r) \<Rightarrow> 'r outcome" where
  "remap_both_call rules op network laddr raddr f =
     obind (remap rules op network laddr (laddr \<noteq> []) raddr True)
       (\<lambda>(network, laddr, raddr). Done (f network laddr raddr))"

definition remapper_Dial where
  "remapper_Dial rules network address dial = remap_dst_call rules RemapOpDial network address dial"

definition remapper_Listen where
  "remapper_Listen rules network address listen = remap_src_call rules RemapOpListen network address listen"

definition remapper_PacketDial where
  "remapper_PacketDial rules network address dial =
     remap_dst_call rules RemapOpPacketDial network address dial"

definition remapper_ListenPacket where
  "remapper_ListenPacket rules network address listen =
     remap_src_call rules RemapOpListenPacket network address listen"

definition remapper_DialTCP where
  "remapper_DialTCP rules network laddr raddr dial =
     remap_both_call rules RemapOpDialTCP network laddr raddr dial"

definition remapper_ListenTCP where
  "remapper_ListenTCP rules network laddr listen = remap_src_call rules RemapOpListenTCP network laddr listen"

definition remapper_DialUDP where
  "remapper_DialUDP rules network laddr raddr dial =
     remap_both_call rules RemapOpDialUDP network laddr raddr dial"

definition remapper_ListenUDP where
  "remapper_ListenUDP rules network laddr listen = remap_src_call rules RemapOpListenUDP network laddr listen"

definition remapper_ListenPacketConfig where
  "remapper_ListenPacketConfig rules lc network address listen =
     remap_src_call rules RemapOpListenPacketConfig network address (listen lc)"

definition remapper_ListenUDPConfig where
  "remapper_ListenUDPConfig rules lc network laddr listen =
     remap_src_call rules RemapOpListenUDPConfig network laddr (listen lc)"

definition remapper_ListenMulticastUDP where
  "remapper_ListenMulticastUDP rules network address opts listen =
     remap_src_call rules RemapOpListenMulticastUDP network address (\<lambda>network address. listen network address opts)"

subsection \<open>Facts\<close>

lemma remap_loop_append:
  "remap_loop op hs ds (rules @ rules') s = obind (remap_loop op hs ds rules s) (remap_loop op hs ds rules')"
proof (induction rules arbitrary: s)
  case (Cons rule rules)
  then show ?case by (cases "remap_step op hs ds rule s") simp_all
qed simp


definition total_filter :: "remapRule \<Rightarrow> bool" where
  "total_filter rule \<longleftrightarrow> (\<forall>f info. rr_filter rule = Some f \<longrightarrow> f info \<noteq> Panic)"

lemma remap_step_total: "total_filter rule \<Longrightarrow> remap_step op hs ds rule s \<noteq> Panic"
  by (cases s; cases "rr_endpoint rule"; cases "rr_filter rule")
    (auto simp: remap_step_def total_filter_def Let_def obind_eq_Panic case_prod_beta split: if_splits)

lemma remap_total:
  "list_all total_filter rules \<Longrightarrow> remap_loop op hs ds rules s \<noteq> Panic"
proof (induction rules arbitrary: s)
  case Nil
  then show ?case by simp
next
  case (Cons rule rules)
  then obtain s' where "remap_step op hs ds rule s = Done s'"
    using remap_step_total [of rule op hs ds s] by (cases "remap_step op hs ds rule s") auto
  with Cons show ?case by simp
qed

definition family_networks :: "string list" where
  "family_networks = [''tcp4'', ''tcp6'', ''udp4'', ''udp6'', ''ip4'', ''ip6'']"

text \<open>A network name without its family digit.\<close>

definition net_base :: "string \<Rightarrow> string" where
  "net_base nw = (if nw \<in> set family_networks then butlast nw else nw)"

lemma remapHostFamily_values: "remapHostFamily host \<in> {[], ''4'', ''6''}"
  by (simp add: remapHostFamily_def Let_def split: option.splits)

lemma remapNetworkForHost_base:
  "net_base (remapNetworkForHost nw host) = net_base nw \<and>
   (nw \<notin> set family_networks \<longrightarrow> remapNetworkForHost nw host = nw) \<and>
   (nw \<in> set family_networks \<longrightarrow> remapNetworkForHost nw host \<in> set family_networks)"
  using remapHostFamily_values [of host]
  by (auto simp: remapNetworkForHost_def net_base_def family_networks_def Let_def)


definition kept :: "bool \<Rightarrow> bool \<Rightarrow> string \<times> string \<times> string \<Rightarrow> string \<times> string \<times> string \<Rightarrow> bool" where
  "kept hs ds s s' \<longleftrightarrow>
     (case s of (nw, src, dst) \<Rightarrow> case s' of (nw', src', dst') \<Rightarrow>
        (\<not> hs \<longrightarrow> src' = src) \<and> (\<not> ds \<longrightarrow> dst' = dst) \<and> net_base nw' = net_base nw \<and>
        (nw \<notin> set family_networks \<longrightarrow> nw' = nw) \<and>
        (nw \<in> set family_networks \<longrightarrow> nw' \<in> set family_networks))"

lemma kept_trans: "kept hs ds s s' \<Longrightarrow> kept hs ds s' s'' \<Longrightarrow> kept hs ds s s''"
  by (auto simp: kept_def split: prod.splits)

lemma kept_refl: "kept hs ds s s"
  by (simp add: kept_def split: prod.splits)

lemma remap_step_kept: "remap_step op hs ds rule s = Done s' \<Longrightarrow> kept hs ds s s'"
  using remapNetworkForHost_base [of "fst s" "rr_addr rule"]
  by (cases s; cases "rr_endpoint rule")
    (auto simp: remap_step_def kept_def Let_def obind_eq_Done split: if_splits prod.splits)

lemma remap_loop_kept: "remap_loop op hs ds rules s = Done s' \<Longrightarrow> kept hs ds s s'"
proof (induction rules arbitrary: s)
  case Nil
  then show ?case by (simp add: kept_refl)
next
  case (Cons rule rules)
  then show ?case by (auto simp: obind_eq_Done dest: remap_step_kept intro: kept_trans)
qed

lemma remapAddress_split:
  assumes "remapSplitHostPort address = Some (host, port)"
    and "set (rr_addr rule) \<inter> set ''[]'' = {}" and "set (rr_port rule) \<inter> set '':[]'' = {}"
  shows "remapSplitHostPort (fst (remapAddress address rule)) =
    (case rr_field rule of
       RemapAddrPort \<Rightarrow> Some (rr_addr rule, rr_port rule)
     | RemapAddr \<Rightarrow> Some (rr_addr rule, port)
     | RemapPort \<Rightarrow> Some (host, rr_port rule)
     | FieldOther _ \<Rightarrow> Some (host, port))"
proof -
  have "set host \<inter> set ''[]'' = {}" "set port \<inter> set '':[]'' = {}"
    using assms(1) split_clean [of address host port] by (simp_all add: remapSplitHostPort_def)
  with assms show ?thesis
    using split_join [of "rr_addr rule" port] split_join [of host "rr_port rule"]
      split_join [of "rr_addr rule" "rr_port rule"]
    by (simp add: remapAddress_def remapSplitHostPort_def split: remapField.splits)
qed

subsection \<open>Properties\<close>

text \<open>
  C24. Remapping keeps what it must not touch. Whatever the rules and their filters do, an
  endpoint that the operation does not have is left as it is, the transport of the network name
  never changes, a network name without a family digit is left as it is, and one of \<^verbatim>\<open>tcp4\<close>,
  \<^verbatim>\<open>tcp6\<close>, \<^verbatim>\<open>udp4\<close>, \<^verbatim>\<open>udp6\<close>, \<^verbatim>\<open>ip4\<close>, \<^verbatim>\<open>ip6\<close> stays one of them.
\<close>

theorem remap_keeps:
  assumes "remap rules op nw src hasSrc dst hasDst = Done (nw', src', dst')"
  shows "(\<not> hasSrc \<longrightarrow> src' = src) \<and> (\<not> hasDst \<longrightarrow> dst' = dst) \<and> net_base nw' = net_base nw \<and>
    (nw \<notin> set family_networks \<longrightarrow> nw' = nw) \<and>
    (nw \<in> set family_networks \<longrightarrow> nw' \<in> set family_networks)"
  using remap_loop_kept [of op hasSrc hasDst rules "(nw, src, dst)" "(nw', src', dst')"] assms
  by (simp add: remap_def kept_def)

definition sample_remap :: "remapRule list" where
  "sample_remap =
     [\<lparr>rr_filter = Some (\<lambda>info. Done (ri_network info = ''tcp4'')), rr_endpoint = RemapDst,
       rr_field = RemapAddr, rr_addr = ''::'', rr_port = []\<rparr>,
      \<lparr>rr_filter = None, rr_endpoint = RemapSrc, rr_field = RemapPort, rr_addr = [], rr_port = ''53''\<rparr>]"

lemma sample_family: "remapHostFamily ''::'' = ''6''"
proof -
  have "parseAddr ''::'' = Some (V6 0 [])" by (simp add: parseAddr_def parseIPv6_def)
  then show ?thesis
    by (simp add: remapHostFamily_def splitHostPort_net_def cut_last_def Let_def)
qed

lemma sample_split: "splitHostPort_net ''h:80'' = Some (''h'', ''80'')"
  by (simp add: splitHostPort_net_def cut_last_def)

lemma sample_remapped:
  "remap sample_remap RemapOpDial ''tcp4'' [] False ''h:80'' True = Done (''tcp6'', [], ''[::]:80'')"
  by (simp add: remap_def sample_remap_def remap_step_def remapAddress_def remapSplitHostPort_def
      sample_split sample_family remapNetworkForHost_def joinHostPort_def Let_def)

theorem remap_keeps_witness:
  "remap sample_remap RemapOpDial ''tcp4'' [] False ''h:80'' True = Done (''tcp6'', [], ''[::]:80'') \<and>
   net_base ''tcp6'' = net_base ''tcp4''"
  using remap_keeps [OF sample_remapped] sample_remapped by simp

text \<open>
  C25. Rewriting a part of an endpoint. If the current endpoint is a host:port pair and the
  rule's address and port contain no separators, then splitting the rewritten endpoint gives
  back exactly the intended parts: \<^verbatim>\<open>RemapAddr\<close> keeps the port, \<^verbatim>\<open>RemapPort\<close> keeps the host
  and \<^verbatim>\<open>RemapAddrPort\<close> replaces both; IPv6 literals are bracketed and unbracketed consistently.
\<close>

theorem remapAddress_parts:
  assumes "remapSplitHostPort address = Some (host, port)"
    and "set (rr_addr rule) \<inter> set ''[]'' = {}" and "set (rr_port rule) \<inter> set '':[]'' = {}"
  shows "remapSplitHostPort (fst (remapAddress address rule)) =
    (case rr_field rule of
       RemapAddrPort \<Rightarrow> Some (rr_addr rule, rr_port rule)
     | RemapAddr \<Rightarrow> Some (rr_addr rule, port)
     | RemapPort \<Rightarrow> Some (host, rr_port rule)
     | FieldOther _ \<Rightarrow> Some (host, port))"
  using assms by (rule remapAddress_split)

theorem remapAddress_parts_witness:
  "remapSplitHostPort (fst (remapAddress ''h:80'' (hd sample_remap))) = Some (''::'', ''80'')"
  using remapAddress_parts [of "''h:80''" "''h''" "''80''" "hd sample_remap"]
  by (simp add: sample_remap_def remapSplitHostPort_def sample_split)



end
