(* ===== verification/RemapperBytecode.thy ===== *)
theory RemapperBytecode
  imports RouterBytecode Remapper
begin

text \<open>
  \<^verbatim>\<open>src/routing/remapper_bytecode.go\<close>: remap rules whose filter is a bytecode predicate. The
  predicate must leave exactly one value on the stack; \<open>validatePredicate\<close> checks that with
  its own loop. The rule text (\<^verbatim>\<open>NewRemapperBytecodeRules\<close>) is in \<open>RuleParser\<close>.
\<close>

record remapAction =
  ra_endpoint :: remapEndpoint
  ra_field :: remapField
  ra_addr :: string
  ra_port :: string

record remapperRule =
  rb_predicate :: "byte list"
  rb_action :: remapAction

record 're remapperRules =
  mr_tables :: "'re tables"
  mr_dnsCacheStorage :: "storage option"
  mr_rules :: "remapperRule list"

subsection \<open>Validation\<close>

definition validateRemapAction :: "nat \<Rightarrow> remapAction \<Rightarrow> bc_error + unit" where
  "validateRemapAction i action =
     (case ra_endpoint action of
        EndpointOther _ \<Rightarrow> Inl (ErrRemapEndpoint i)
      | _ \<Rightarrow>
          (case ra_field action of
             RemapAddrPort \<Rightarrow> check (ra_addr action = [] \<or> ra_port action = []) (ErrRemapEmpty i)
           | RemapAddr \<Rightarrow> check (ra_addr action = []) (ErrRemapEmpty i)
           | RemapPort \<Rightarrow> check (ra_port action = []) (ErrRemapEmpty i)
           | FieldOther _ \<Rightarrow> Inl (ErrRemapField i)))"

definition remap_validateOpIndex :: "'re tables \<Rightarrow> string \<Rightarrow> nat \<Rightarrow> opcode \<Rightarrow> nat \<Rightarrow> paramKind \<Rightarrow>
    bc_error + unit" where
  "remap_validateOpIndex tbl name pc op param kind =
     (if kind = ParamNone then Inr () else index_check tbl name pc op param)"

definition validatePredicateOp :: "'re tables \<Rightarrow> string \<Rightarrow> validate_op" where
  "validatePredicateOp tbl name pc op param kind =
     (if op \<in> {OP_DROP, OP_SLOT, OP_RULE, OP_INTERCEPT, OP_SNIFF, OP_SNIFF_NONE, OP_ROUTE,
               OP_BACKEND, OP_QTYPE, OP_QCLASS, OP_OPCODE}
      then Inl (ErrNotValidFor name pc op)
      else remap_validateOpIndex tbl name pc op param kind)"

text \<open>The loop of \<^verbatim>\<open>validatePredicate\<close>: the final stack depth, or the first error.\<close>

function validatePredicate_from ::
    "'re tables \<Rightarrow> string \<Rightarrow> byte list \<Rightarrow> nat \<Rightarrow> nat \<Rightarrow> bc_error + nat" where
  "validatePredicate_from tbl name code pc depth =
     (if pc \<ge> length code then Inr depth
      else (case readBytecodeParam name code (pc + 1) (code ! pc) of
              Inl e \<Rightarrow> Inl e
            | Inr (param, kind, op, next) \<Rightarrow>
                (case validatePredicateOp tbl name pc op param kind of
                   Inl e \<Rightarrow> Inl e
                 | Inr _ \<Rightarrow>
                     if op = OP_NOT then
                       (if depth < 1 then Inl (ErrUnderflow name pc)
                        else validatePredicate_from tbl name code next depth)
                     else if op = OP_AND \<or> op = OP_OR then
                       (if depth < 2 then Inl (ErrUnderflow name pc)
                        else validatePredicate_from tbl name code next (depth - 1))
                     else validatePredicate_from tbl name code next (depth + 1))))"
  by pat_completeness auto
termination
  by (relation "measure (\<lambda>(tbl, name, code, pc, depth). length code - pc)")
    (auto simp: readBytecodeParam_def split: option.splits paramKind.splits if_splits)

declare validatePredicate_from.simps [simp del]

definition validatePredicate :: "'re tables \<Rightarrow> string \<Rightarrow> byte list \<Rightarrow> bc_error + unit" where
  "validatePredicate tbl name code =
     ebind (validatePredicate_from tbl name code 0 0) (\<lambda>depth. check (depth \<noteq> 1) (ErrDepth name depth))"

definition remap_validate :: "'re remapperRules \<Rightarrow> bc_error + unit" where
  "remap_validate cfg =
     (let tbl = mr_tables cfg in
      ebind (check_regexps (t_regexps tbl)) (\<lambda>_.
      ebind (validateTables (t_ipv4Subnets tbl) (t_ipv6Addrs tbl) (t_ipv6Subnets tbl)) (\<lambda>_.
      first_error (\<lambda>i rule.
          ebind (validateRemapAction i (rb_action rule)) (\<lambda>_.
          if rb_predicate rule = [] then Inr ()
          else validatePredicate tbl (''Remapper rule '' @ itoa i) (rb_predicate rule)))
        0 (mr_rules cfg))))"

subsection \<open>Evaluation\<close>

definition remapOperationClass :: "remapOperation \<Rightarrow> bool \<times> bool" where
  "remapOperationClass op =
     (if op \<in> {RemapOpDial, RemapOpPacketDial, RemapOpDialTCP, RemapOpDialUDP} then (True, False)
      else if op \<in> {RemapOpListen, RemapOpListenPacket, RemapOpListenTCP, RemapOpListenUDP,
                    RemapOpListenPacketConfig, RemapOpListenUDPConfig, RemapOpListenMulticastUDP}
        then (False, True)
      else (False, False))"

definition remap_body :: "'re tables \<Rightarrow> 're host_env \<Rightarrow> opcode \<Rightarrow> nat \<Rightarrow> bool list \<times> bytecodeEval \<Rightarrow>
    (unit, bool list \<times> bytecodeEval) flow outcome" where
  "remap_body tbl env op param s =
     (case op of
        OP_LOOKUP \<Rightarrow> push (fst s) (False, snd s)
      | _ \<Rightarrow> predicate_body tbl env op param s)"

definition remap_exec :: "'re tables \<Rightarrow> storage option \<Rightarrow> 're host_env \<Rightarrow> byte list \<Rightarrow> remapInfo \<Rightarrow>
    addrStringOps \<Rightarrow> bool outcome" where
  "remap_exec tbl st env code info stringOps =
     (let (dial, listen) = remapOperationClass (ri_operation info);
          ev = \<lparr>ev_network = toLower (ri_network info),
                ev_laddr = newAddrCache (str_input (ri_srcAddr info)) st (so_local stringOps),
                ev_raddr = newAddrCache (str_input (ri_dstAddr info)) st (so_remote stringOps),
                ev_isDial = dial, ev_isListen = listen, ev_isLookup = False\<rparr> in
      case run_bytecode (remap_body tbl env) code 0 ([], ev) of
        Panic \<Rightarrow> Panic
      | Done (Return _) \<Rightarrow> Panic
      | Done (Continue (stk, _)) \<Rightarrow> Done (case stk of [b] \<Rightarrow> b | _ \<Rightarrow> False))"

text \<open>\<open>remap_body\<close> never returns early, so the \<open>Return\<close> branch does not arise.\<close>

definition remap_rule_of :: "'re remapperRules \<Rightarrow> 're host_env \<Rightarrow> remapperRule \<Rightarrow> remapRule outcome" where
  "remap_rule_of cfg env rule =
     (let code = rb_predicate rule; action = rb_action rule;
          mk = (\<lambda>flt. \<lparr>rr_filter = flt, rr_endpoint = ra_endpoint action, rr_field = ra_field action,
                       rr_addr = ra_addr action, rr_port = ra_port action\<rparr>) in
      if code = [] then Done (mk None)
      else obind (bytecodeAddrStringOps code) (\<lambda>stringOps.
           Done (mk (Some (\<lambda>info. remap_exec (mr_tables cfg) (mr_dnsCacheStorage cfg) env code info stringOps)))))"

fun remapRules :: "'re remapperRules \<Rightarrow> 're host_env \<Rightarrow> remapperRule list \<Rightarrow> remapRule list outcome" where
  "remapRules cfg env [] = Done []"
| "remapRules cfg env (rule # rules) =
     obind (remap_rule_of cfg env rule) (\<lambda>r. obind (remapRules cfg env rules) (\<lambda>rs. Done (r # rs)))"

definition newBytecodeRemapRules :: "'re remapperRules \<Rightarrow> 're host_env \<Rightarrow>
    (bc_error + remapRule list) outcome" where
  "newBytecodeRemapRules rules env =
     (case remap_validate rules of
        Inl e \<Rightarrow> Done (Inl e)
      | Inr _ \<Rightarrow> omap Inr (remapRules rules env (mr_rules rules)))"

subsection \<open>The evaluator as a decision machine\<close>

definition never_acts :: "opcode \<Rightarrow> nat \<Rightarrow> unit option" where
  "never_acts op p = None"

lemma predicate_acts: "acts_on (predicate_ok tbl) never_acts"
  by (auto simp: acts_on_def never_acts_def predicate_ok_def)

lemma validatePredicateOp_accepts:
  assumes "no_nil_regexp tbl"
  shows "accepts (validatePredicateOp tbl name) (predicate_ok tbl)"
  unfolding accepts_def
proof (intro allI)
  fix pc op p
  from assms have re: "p < length (t_regexps tbl) \<Longrightarrow> \<exists>y. t_regexps tbl ! p = Some y"
    by (auto simp: no_nil_regexp_def list_all_length)
  then show "(validatePredicateOp tbl name pc op p (param_kind op) = Inr ()) = predicate_ok tbl op p"
    by (cases op)
      (auto simp: validatePredicateOp_def remap_validateOpIndex_def predicate_ok_def
        is_action_def param_kind.simps index_check_ok index_ok_def)
qed

text \<open>In \<open>remap_exec\<close> the call is never a lookup.\<close>

definition remap_rel :: "'re host_env \<Rightarrow> context_facts \<Rightarrow> bytecodeEval \<Rightarrow> bool" where
  "remap_rel env cx ev \<longleftrightarrow> ev_rel env cx ev \<and> \<not> cx_lookup cx"

lemma remap_step_plain:
  assumes "predicate_ok tbl op p" and "\<not> is_action op" and "remap_rel env cx ev"
    and "depth_after op (length stk) = Some d"
  shows "\<exists>ev'. remap_rel env cx ev' \<and> remap_body tbl env op p (stk, ev) =
    Done (Continue (bool_step (atom_value tbl env cx) op p stk, ev'))"
proof -
  from assms(3) have rel: "ev_rel env cx ev" "\<not> cx_lookup cx" by (simp_all add: remap_rel_def)
  then have "\<not> ev_isLookup ev" by (simp add: ev_rel_def)
  then have "remap_body tbl env op p (stk, ev) = predicate_body tbl env op p (stk, ev)"
    by (cases op) (simp_all add: remap_body_def predicate_body_def)
  with predicate_step [OF assms(1) rel(1) assms(4)] rel(2) show ?thesis
    by (simp only: remap_rel_def) blast
qed

interpretation remapper: validated_machine "remap_body tbl env" "predicate_ok tbl" "remap_rel env cx"
    never_acts "atom_value tbl env cx" "validatePredicateOp tbl name" "no_nil_regexp tbl"
  for tbl env cx name
proof unfold_locales
  show "acts_on (predicate_ok tbl) never_acts" by (rule predicate_acts)
qed (simp add: never_acts_def, (rule remap_step_plain validatePredicateOp_accepts; assumption)+)

subsection \<open>Facts about the validator\<close>

lemma predicate_depth:
  "predicate_ok tbl op p \<Longrightarrow> depth_after op d =
     (if op = OP_NOT then (if d < 1 then None else Some d)
      else if op = OP_AND \<or> op = OP_OR then (if d < 2 then None else Some (d - 1))
      else Some (d + 1))"
  by (cases op) (auto simp: predicate_ok_def is_action_def depth_after.simps)

lemma predicate_decodes:
  assumes re: "no_nil_regexp tbl"
  shows "pc \<le> length code \<Longrightarrow> validatePredicate_from tbl name code pc d = Inr d' \<Longrightarrow>
    \<exists>is. drop pc code = encode_prog is \<and> list_all wf_instr is \<and> valid_instrs (predicate_ok tbl) is d \<and>
      final_depth is d = d'"
  using re
proof (induction tbl name code pc d rule: validatePredicate_from.induct)
  case (1 tbl name code pc d)
  show ?case
  proof (cases "pc \<ge> length code")
    case True
    with "1.prems" show ?thesis
      by (intro exI [of _ "[]"]) (simp add: validatePredicate_from.simps)
  next
    case False
    with "1.prems"(2) obtain param kind op nxt where
        r: "readBytecodeParam name code (Suc pc) (code ! pc) = Inr (param, kind, op, nxt)"
        and v: "validatePredicateOp tbl name pc op param kind = Inr ()"
      by (subst (asm) validatePredicate_from.simps) (auto split: sum.splits prod.splits)
    from False r have dec: "wf_instr (op, param)" "kind = param_kind op"
        "drop pc code = encode_instr (op, param) @ drop nxt code" "nxt \<le> length code"
      using read_checked_decodes [of pc code name param kind op nxt] by auto
    have ok: "predicate_ok tbl op param"
      using validatePredicateOp_accepts [OF "1.prems"(3), of name] v dec(2) by (auto simp: accepts_def)
    from False "1.prems"(2) r v predicate_depth [OF ok, of d] obtain d1 where
        d1: "depth_after op d = Some d1" "validatePredicate_from tbl name code nxt d1 = Inr d'"
      by (subst (asm) validatePredicate_from.simps) (auto split: if_splits)
    have "\<exists>is. drop nxt code = encode_prog is \<and> list_all wf_instr is \<and>
        valid_instrs (predicate_ok tbl) is d1 \<and> final_depth is d1 = d'"
      using "1.IH" [OF False] r v d1 predicate_depth [OF ok, of d] dec(4) "1.prems"(3)
      by (cases "op = OP_NOT"; cases "op = OP_AND \<or> op = OP_OR") (auto split: if_splits)
    then obtain "is" where "drop nxt code = encode_prog is" "list_all wf_instr is"
        "valid_instrs (predicate_ok tbl) is d1" "final_depth is d1 = d'" by blast
    with dec ok d1(1) show ?thesis by (intro exI [of _ "(op, param) # is"]) simp
  qed
qed

lemma predicate_encoded:
  assumes re: "no_nil_regexp tbl"
  shows "list_all wf_instr is \<Longrightarrow> valid_instrs (predicate_ok tbl) is d \<Longrightarrow>
    validatePredicate_from tbl name (c0 @ encode_prog is) (length c0) d = Inr (final_depth is d)"
proof (induction "is" arbitrary: c0 d)
  case Nil
  then show ?case by (simp add: validatePredicate_from.simps)
next
  case (Cons i "is")
  from Cons.prems obtain d' where d': "depth_after (fst i) d = Some d'" "valid_instrs (predicate_ok tbl) is d'"
    and wf: "wf_instr i" and ok: "predicate_ok tbl (fst i) (snd i)"
    by (auto split: option.splits)
  have v: "validatePredicateOp tbl name pc (fst i) (snd i) (param_kind (fst i)) = Inr ()" for pc
    using validatePredicateOp_accepts [OF re, of name] ok by (simp add: accepts_def)
  have "validatePredicate_from tbl name ((c0 @ encode_instr i) @ encode_prog is)
      (length (c0 @ encode_instr i)) d' = Inr (final_depth is d')"
    using Cons.prems d'(2) by (intro Cons.IH) simp_all
  then show ?case
    using predicate_depth [OF ok, of d] d'(1)
    by (subst validatePredicate_from.simps) (auto simp: not_le decode_simps wf v split: if_splits)
qed

lemma validatePredicate_iff:
  assumes "no_nil_regexp tbl"
  shows "validatePredicate tbl name code = Inr () \<longleftrightarrow>
    (\<exists>is. code = encode_prog is \<and> list_all wf_instr is \<and> valid_instrs (predicate_ok tbl) is 0 \<and>
       final_depth is 0 = 1)"
  using predicate_decodes [OF assms, of 0 code name 0 1] predicate_encoded [OF assms, of _ 0 name "[]"]
  by (auto simp: validatePredicate_def ebind_eq_Inr)

subsection \<open>Facts about the filters\<close>

definition remap_facts :: "storage option \<Rightarrow> remapInfo \<Rightarrow> context_facts" where
  "remap_facts st info =
     \<lparr>cx_network = toLower (ri_network info), cx_local = (str_input (ri_srcAddr info), st, True),
      cx_remote = (str_input (ri_dstAddr info), st, True),
      cx_dial = fst (remapOperationClass (ri_operation info)),
      cx_listen = snd (remapOperationClass (ri_operation info)), cx_lookup = False\<rparr>"

definition holds :: "'re tables \<Rightarrow> 're host_env \<Rightarrow> context_facts \<Rightarrow> instr list \<Rightarrow> bool" where
  "holds tbl env cx is = (decide never_acts (atom_value tbl env cx) is [] = Inr [True])"

lemma decide_never: "\<exists>stk'. decide never_acts atom is stk = Inr stk'"
  by (induction "is" arbitrary: stk) (simp_all add: never_acts_def)

lemma remap_exec_holds:
  assumes "code = encode_prog is" and "list_all wf_instr is"
    and "valid_instrs (predicate_ok tbl) is 0" and "final_depth is 0 = 1"
    and "bytecodeAddrStringOps code = Done ops"
  shows "remap_exec tbl st env code info ops = Done (holds tbl env (remap_facts st info) is)"
proof -
  let ?cx = "remap_facts st info"
  let ?la = "newAddrCache (str_input (ri_srcAddr info)) st (so_local ops)"
  let ?ra = "newAddrCache (str_input (ri_dstAddr info)) st (so_remote ops)"
  let ?cx' = "?cx\<lparr>cx_local := cache_key ?la, cx_remote := cache_key ?ra\<rparr>"
  let ?ev = "\<lparr>ev_network = toLower (ri_network info), ev_laddr = ?la, ev_raddr = ?ra,
      ev_isDial = fst (remapOperationClass (ri_operation info)),
      ev_isListen = snd (remapOperationClass (ri_operation info)), ev_isLookup = False\<rparr>"
  have "ev_rel env ?cx' ?ev" by (rule new_ev_rel) (simp add: remap_facts_def)
  then have rel: "remap_rel env ?cx' ?ev" by (simp add: remap_rel_def remap_facts_def)
  have ops: "ops = \<lparr>so_remote = (\<exists>i \<in> set is. fst i \<in> {OP_ADDR_S, OP_ADDR_RE}),
      so_local = (\<exists>i \<in> set is. fst i \<in> {OP_LADDR_S, OP_LADDR_RE})\<rparr>"
    using assms(1,2,5) string_ops_encoded [of "is"] by simp
  have same: "decide never_acts (atom_value tbl env ?cx') is [] = decide never_acts (atom_value tbl env ?cx) is []"
  proof (rule decide_cong)
    fix i
    assume "i \<in> set is"
    then show "atom_value tbl env ?cx' (fst i) (snd i) = atom_value tbl env ?cx (fst i) (snd i)"
      by (intro atom_value_new [OF refl]) (auto simp: remap_facts_def ops)
  qed
  obtain stk where stk: "decide never_acts (atom_value tbl env ?cx) is [] = Inr stk"
    using decide_never by blast
  have "length stk = 1"
    using decide_depth [OF predicate_acts, of tbl "is" "[]"] assms(3,4) stk by simp
  then obtain b where b: "stk = [b]" by (cases stk) auto
  from remapper.run_decides [of tbl "is" "[]" env ?cx' ?ev] assms(3) rel
  obtain ev' where "run_instrs (remap_body tbl env) is ([], ?ev) = Done (Continue ([b], ev'))"
    by (auto simp: same stk b)
  with assms(1,2) stk b show ?thesis
    by (simp add: remap_exec_def holds_def run_encode_prog case_prod_beta Let_def)
qed

text \<open>What the validated rules of a configuration are.\<close>

lemma remap_validate_rules:
  assumes "remap_validate rules = Inr ()" and "rule \<in> set (mr_rules rules)"
  shows "rb_predicate rule = [] \<or>
    (\<exists>is. rb_predicate rule = encode_prog is \<and> list_all wf_instr is \<and>
       valid_instrs (predicate_ok (mr_tables rules)) is 0 \<and> final_depth is 0 = 1)"
proof -
  from assms(1) have re: "no_nil_regexp (mr_tables rules)"
    by (simp add: remap_validate_def Let_def ebind_eq_Inr check_regexps_ok)
  from assms(2) obtain j where j: "j < length (mr_rules rules)" "mr_rules rules ! j = rule"
    by (auto simp: in_set_conv_nth)
  with assms(1) have "rb_predicate rule = [] \<or>
      validatePredicate (mr_tables rules) (''Remapper rule '' @ itoa j) (rb_predicate rule) = Inr ()"
    by (auto simp: remap_validate_def Let_def ebind_eq_Inr first_error_ok split: if_splits)
  with validatePredicate_iff [OF re] show ?thesis by blast
qed

lemma remapRules_Done:
  "remapRules cfg env rules = Done rs \<longleftrightarrow> list_all2 (\<lambda>r r'. remap_rule_of cfg env r = Done r') rules rs"
  by (induction rules arbitrary: rs) (auto simp: obind_eq_Done list_all2_Cons1)

lemma remap_rule_of_valid:
  assumes "remap_validate rules = Inr ()" and "rule \<in> set (mr_rules rules)"
  obtains r where "remap_rule_of rules env rule = Done r"
    and "rr_endpoint r = ra_endpoint (rb_action rule)" and "rr_field r = ra_field (rb_action rule)"
    and "rr_addr r = ra_addr (rb_action rule)" and "rr_port r = ra_port (rb_action rule)"
    and "rb_predicate rule = [] \<Longrightarrow> rr_filter r = None"
    and "rb_predicate rule \<noteq> [] \<Longrightarrow> \<exists>f. rr_filter r = Some f \<and>
      (\<forall>info. f info = Done (holds (mr_tables rules) env (remap_facts (mr_dnsCacheStorage rules) info)
         (decode_prog (rb_predicate rule))))"
proof (cases "rb_predicate rule = []")
  case True
  then show thesis
    by (intro that [of "\<lparr>rr_filter = None, rr_endpoint = ra_endpoint (rb_action rule),
        rr_field = ra_field (rb_action rule), rr_addr = ra_addr (rb_action rule),
        rr_port = ra_port (rb_action rule)\<rparr>"])
      (simp_all add: remap_rule_of_def Let_def)
next
  case False
  with remap_validate_rules [OF assms] obtain "is" where
      "is": "rb_predicate rule = encode_prog is" "list_all wf_instr is"
      "valid_instrs (predicate_ok (mr_tables rules)) is 0" "final_depth is 0 = 1"
    by blast
  obtain ops where ops: "bytecodeAddrStringOps (encode_prog is) = Done ops"
    using string_ops_encoded [OF "is"(2)] by simp
  have f: "remap_exec (mr_tables rules) (mr_dnsCacheStorage rules) env (encode_prog is) info ops =
      Done (holds (mr_tables rules) env (remap_facts (mr_dnsCacheStorage rules) info) is)" for info
    using remap_exec_holds [OF refl "is"(2-4) ops] .
  from False show thesis
    by (intro that [of "\<lparr>rr_filter = Some (\<lambda>info. remap_exec (mr_tables rules) (mr_dnsCacheStorage rules)
          env (encode_prog is) info ops), rr_endpoint = ra_endpoint (rb_action rule),
        rr_field = ra_field (rb_action rule), rr_addr = ra_addr (rb_action rule),
        rr_port = ra_port (rb_action rule)\<rparr>"])
      (simp_all add: remap_rule_of_def Let_def "is"(1) ops f decode_encode [OF "is"(2)])
qed

lemma remapRules_total:
  assumes "remap_validate rules = Inr ()"
  shows "set rs \<subseteq> set (mr_rules rules) \<Longrightarrow> \<exists>out. remapRules rules env rs = Done out"
proof (induction rs)
  case (Cons rule rs)
  from Cons.prems have m: "rule \<in> set (mr_rules rules)" by simp
  obtain r where "remap_rule_of rules env rule = Done r"
    by (rule remap_rule_of_valid [OF assms m, of env]) auto
  with Cons show ?case by auto
qed simp

lemma built_rule:
  assumes "newBytecodeRemapRules rules env = Done (Inr rs)"
  shows "remap_validate rules = Inr () \<and>
    list_all2 (\<lambda>rule r. remap_rule_of rules env rule = Done r) (mr_rules rules) rs"
proof -
  from assms have v: "remap_validate rules = Inr ()"
    by (auto simp: newBytecodeRemapRules_def split: sum.splits)
  with assms have "remapRules rules env (mr_rules rules) = Done rs"
    by (cases "remapRules rules env (mr_rules rules)") (auto simp: newBytecodeRemapRules_def)
  with v show ?thesis by (simp add: remapRules_Done)
qed

lemma built_filters:
  assumes "newBytecodeRemapRules rules env = Done (Inr rs)"
  shows "list_all2 (\<lambda>rule r.
      rr_endpoint r = ra_endpoint (rb_action rule) \<and> rr_field r = ra_field (rb_action rule) \<and>
      rr_addr r = ra_addr (rb_action rule) \<and> rr_port r = ra_port (rb_action rule) \<and>
      (case rr_filter r of
         None \<Rightarrow> rb_predicate rule = []
       | Some f \<Rightarrow> rb_predicate rule \<noteq> [] \<and>
           (\<forall>info. f info = Done (holds (mr_tables rules) env
              (remap_facts (mr_dnsCacheStorage rules) info) (decode_prog (rb_predicate rule))))))
    (mr_rules rules) rs"
proof -
  from built_rule [OF assms] have v: "remap_validate rules = Inr ()"
    and l: "list_all2 (\<lambda>rule r. remap_rule_of rules env rule = Done r) (mr_rules rules) rs"
    by blast+
  from l show ?thesis
  proof (rule list.rel_mono_strong)
    fix rule r
    assume m: "rule \<in> set (mr_rules rules)" and r: "remap_rule_of rules env rule = Done r"
    show "rr_endpoint r = ra_endpoint (rb_action rule) \<and> rr_field r = ra_field (rb_action rule) \<and>
      rr_addr r = ra_addr (rb_action rule) \<and> rr_port r = ra_port (rb_action rule) \<and>
      (case rr_filter r of
         None \<Rightarrow> rb_predicate rule = []
       | Some f \<Rightarrow> rb_predicate rule \<noteq> [] \<and>
           (\<forall>info. f info = Done (holds (mr_tables rules) env
              (remap_facts (mr_dnsCacheStorage rules) info) (decode_prog (rb_predicate rule)))))"
      by (rule remap_rule_of_valid [OF v m, of env])
        (cases "rb_predicate rule = []"; use r in auto)
  qed
qed

subsection \<open>Properties\<close>

text \<open>
  C27. Remap filters. The rules built from a validated rule set keep the order and the actions of
  the rule set. A rule with an empty predicate has no filter; the filter of every other rule
  never panics and answers whether the predicate's decision semantics leaves the single value
  \<open>True\<close> on the facts of the call.
\<close>

theorem remap_rules_built:
  assumes "newBytecodeRemapRules rules env = Done (Inr rs)"
  shows "list_all2 (\<lambda>rule r.
      rr_endpoint r = ra_endpoint (rb_action rule) \<and> rr_field r = ra_field (rb_action rule) \<and>
      rr_addr r = ra_addr (rb_action rule) \<and> rr_port r = ra_port (rb_action rule) \<and>
      (case rr_filter r of
         None \<Rightarrow> rb_predicate rule = []
       | Some f \<Rightarrow> rb_predicate rule \<noteq> [] \<and>
           (\<forall>info. f info = Done (holds (mr_tables rules) env
              (remap_facts (mr_dnsCacheStorage rules) info) (decode_prog (rb_predicate rule))))))
    (mr_rules rules) rs"
  using assms by (rule built_filters)

definition sample_remapper :: "unit remapperRules" where
  "sample_remapper = \<lparr>mr_tables = sample_tables, mr_dnsCacheStorage = None,
     mr_rules = [\<lparr>rb_predicate = [10, 28, 5],
                  rb_action = \<lparr>ra_endpoint = RemapDst, ra_field = RemapPort, ra_addr = [], ra_port = ''8443''\<rparr>\<rparr>]\<rparr>"

lemma sample_remapper_built:
  obtains rs where "newBytecodeRemapRules sample_remapper env = Done (Inr rs)"
proof -
  have v: "remap_validate sample_remapper = Inr ()" by code_simp
  from remapRules_total [OF v, of "mr_rules sample_remapper" env] v that show thesis
    by (auto simp: newBytecodeRemapRules_def)
qed

theorem remap_rules_built_witness:
  "\<exists>rs. newBytecodeRemapRules sample_remapper sample_env = Done (Inr rs) \<and>
     length rs = 1 \<and> rr_port (hd rs) = ''8443''"
proof (rule sample_remapper_built)
  fix rs
  assume b: "newBytecodeRemapRules sample_remapper sample_env = Done (Inr rs)"
  from remap_rules_built [OF b] b show ?thesis
    by (auto simp: sample_remapper_def list_all2_Cons1)
qed

text \<open>
  C28. Remapping with rules built from bytecode never panics: the constructor is total, and the
  rule loop returns for every operation, network and pair of addresses.
\<close>

theorem bytecode_remap_total:
  "newBytecodeRemapRules rules env \<noteq> Panic \<and>
   (newBytecodeRemapRules rules env = Done (Inr rs) \<longrightarrow>
      (\<exists>nw' src' dst'. remap rs op nw src hasSrc dst hasDst = Done (nw', src', dst')))"
proof -
  have "newBytecodeRemapRules rules env \<noteq> Panic"
  proof (cases "remap_validate rules")
    case (Inr u)
    with remapRules_total [of rules "mr_rules rules" env] show ?thesis
      by (auto simp: newBytecodeRemapRules_def)
  qed (simp add: newBytecodeRemapRules_def)
  moreover have "\<exists>nw' src' dst'. remap rs op nw src hasSrc dst hasDst = Done (nw', src', dst')"
    if b: "newBytecodeRemapRules rules env = Done (Inr rs)"
  proof -
    from built_rule [OF b] have v: "remap_validate rules = Inr ()"
      and l: "list_all2 (\<lambda>rule r. remap_rule_of rules env rule = Done r) (mr_rules rules) rs"
      by blast+
    have "total_filter r" if "r \<in> set rs" for r
    proof -
      from that obtain i where "i < length rs" "r = rs ! i" by (auto simp: in_set_conv_nth)
      with l have m: "mr_rules rules ! i \<in> set (mr_rules rules)"
          "remap_rule_of rules env (mr_rules rules ! i) = Done r"
        by (simp_all add: list_all2_conv_all_nth)
      show ?thesis
        by (rule remap_rule_of_valid [OF v m(1), of env])
          (cases "rb_predicate (mr_rules rules ! i) = []"; use m(2) in \<open>auto simp: total_filter_def\<close>)
    qed
    then have "remap_loop op hasSrc hasDst rs (nw, src, dst) \<noteq> Panic"
      by (intro remap_total) (simp add: list_all_iff)
    then show ?thesis
      by (cases "remap_loop op hasSrc hasDst rs (nw, src, dst)") (auto simp: remap_def)
  qed
  ultimately show ?thesis by blast
qed

theorem bytecode_remap_total_witness:
  "\<exists>rs nw' src' dst'. newBytecodeRemapRules sample_remapper sample_env = Done (Inr rs) \<and>
     remap rs RemapOpDial ''tcp'' [] False ''h:80'' True = Done (nw', src', dst')"
  by (rule sample_remapper_built [of sample_env]) (use bytecode_remap_total in blast)

text \<open>
  C32. The predicate validator accepts exactly the encodings of instruction lists with admissible
  opcodes and indices that never underflow the stack and leave exactly one value.
\<close>

theorem validatePredicate_accepts:
  assumes "no_nil_regexp tbl"
  shows "validatePredicate tbl name code = Inr () \<longleftrightarrow>
    (\<exists>is. code = encode_prog is \<and> list_all wf_instr is \<and> valid_instrs (predicate_ok tbl) is 0 \<and>
       final_depth is 0 = 1)"
  using assms by (rule validatePredicate_iff)

theorem validatePredicate_accepts_witness:
  "\<exists>is. [10, 28, 5] = encode_prog is \<and> list_all wf_instr is \<and>
     valid_instrs (predicate_ok sample_tables) is 0 \<and> final_depth is 0 = 1"
proof -
  have "validatePredicate sample_tables ''p'' [10, 28, 5] = Inr ()" by code_simp
  moreover have "no_nil_regexp sample_tables" by (simp add: no_nil_regexp_def sample_tables_def)
  ultimately show ?thesis using validatePredicate_accepts by blast
qed

end
