(* ===== verification/RuleParser.thy ===== *)
theory RuleParser
  imports RuleText RouterBytecode DNSBytecode RemapperBytecode
begin

text \<open>
  \<^verbatim>\<open>src/routing/parser.go\<close> and the inline classifier part of \<^verbatim>\<open>src/routing/sniff_specs.go\<close>:
  from rule text to bytecode and tables.

  A table of the parser and its index map (\<^verbatim>\<open>strings\<close> and \<^verbatim>\<open>stringIndex\<close>, and so on) are one
  \<open>itable\<close>; \<open>intern\<close> is the code every \<^verbatim>\<open>...Param\<close> method has for it. \<open>compile\<close> is
  \<^verbatim>\<open>regexp.Compile\<close>, a classifier factory (\<^verbatim>\<open>sniffer.Factory\<close>) is a value of type \<open>'f\<close>, a nil one
  is \<open>None\<close>, and the classifier constructors are the functions the caller passes.
\<close>

subsection \<open>Interned tables\<close>

record ('k, 'v) itable =
  it_vals :: "'v list"
  it_index :: "'k \<Rightarrow> u16 option"

definition empty_table :: "('k, 'v) itable" where
  "empty_table = \<lparr>it_vals = [], it_index = (\<lambda>_. None)\<rparr>"

definition nextTableIndex :: "string \<Rightarrow> nat \<Rightarrow> perr + u16" where
  "nextTableIndex name n = (if n > 0xffff then Inl (PTooManyEntries name) else Inr (of_nat n))"

text \<open>\<open>mk\<close> computes the entry of a key that is not in the table yet.\<close>

definition intern :: "string \<Rightarrow> 'k \<Rightarrow> perr + 'v \<Rightarrow> ('k, 'v) itable \<Rightarrow> perr + (u16 \<times> ('k, 'v) itable)" where
  "intern name key mk t =
     (case it_index t key of
        Some idx \<Rightarrow> Inr (idx, t)
      | None \<Rightarrow>
          ebind mk (\<lambda>v.
          ebind (nextTableIndex name (length (it_vals t))) (\<lambda>idx.
          Inr (idx, \<lparr>it_vals = it_vals t @ [v], it_index = (it_index t)(key := Some idx)\<rparr>))))"

subsection \<open>State\<close>

record sysnetRule =
  sr_type :: string
  sr_rule :: string

record snifferCallMutation =
  sm_setNetwork :: bool
  sm_network :: string
  sm_setSrc :: bool
  sm_src :: string
  sm_setDst :: bool
  sm_dst :: string
  sm_setSrcAddr :: bool
  sm_srcAddr :: string
  sm_setSrcPort :: bool
  sm_srcPort :: string
  sm_setDstAddr :: bool
  sm_dstAddr :: string
  sm_setDstPort :: bool
  sm_dstPort :: string
  sm_setHost :: bool
  sm_host :: string
  sm_setService :: bool
  sm_service :: string
  sm_setProto :: bool
  sm_proto :: string

definition zeroMutation :: snifferCallMutation where
  "zeroMutation = \<lparr>sm_setNetwork = False, sm_network = [], sm_setSrc = False, sm_src = [],
     sm_setDst = False, sm_dst = [], sm_setSrcAddr = False, sm_srcAddr = [], sm_setSrcPort = False,
     sm_srcPort = [], sm_setDstAddr = False, sm_dstAddr = [], sm_setDstPort = False, sm_dstPort = [],
     sm_setHost = False, sm_host = [], sm_setService = False, sm_service = [], sm_setProto = False,
     sm_proto = []\<rparr>"

record snifferRouteAction =
  sa_slot :: byte
  sa_mutation :: snifferCallMutation

record 'f namedClassifier =
  nc_name :: string
  nc_factory :: "'f option"

record sniffOption =
  op_key :: string
  op_value :: string

text \<open>A constructor returns the canonical options and a factory, or an error.\<close>

type_synonym 'f sniffConstructor = "sniffOption list \<Rightarrow> string + (string \<times> 'f option)"

record ('re, 'f) parser =
  p_strings :: "(string, string) itable"
  p_regexps :: "(string, 're option) itable"
  p_ipv4Addrs :: "(u32, u32) itable"
  p_ipv4Subnets :: "(ipv4Subnet, ipv4Subnet) itable"
  p_ipv6Addrs :: "(addr, addr) itable"
  p_ipv6Subnets :: "(prefix, prefix) itable"
  p_rules :: "(sysnetRule, sysnetRule) itable"
  p_sniff :: "(string, 'f namedClassifier) itable"
  p_sniffConstructors :: "string \<Rightarrow> 'f sniffConstructor option"
  p_sniffSpecIndex :: "string \<Rightarrow> u16 option"
  p_routeActions :: "(snifferRouteAction, snifferRouteAction) itable"
  p_backends :: "(string, string) itable"

definition newBytecodeParser :: "('re, 'f) parser" where
  "newBytecodeParser = \<lparr>p_strings = empty_table, p_regexps = empty_table, p_ipv4Addrs = empty_table,
     p_ipv4Subnets = empty_table, p_ipv6Addrs = empty_table, p_ipv6Subnets = empty_table,
     p_rules = empty_table, p_sniff = empty_table, p_sniffConstructors = (\<lambda>_. None),
     p_sniffSpecIndex = (\<lambda>_. None), p_routeActions = empty_table, p_backends = empty_table\<rparr>"

text \<open>The shared tables that \<^verbatim>\<open>apply\<close>, \<^verbatim>\<open>applyDNS\<close> and \<^verbatim>\<open>applyRemapper\<close> copy.\<close>

definition parser_tables :: "('re, 'f) parser \<Rightarrow> 're tables" where
  "parser_tables p = \<lparr>t_strings = it_vals (p_strings p), t_regexps = it_vals (p_regexps p),
     t_ipv4Addrs = it_vals (p_ipv4Addrs p), t_ipv4Subnets = it_vals (p_ipv4Subnets p),
     t_ipv6Addrs = it_vals (p_ipv6Addrs p), t_ipv6Subnets = it_vals (p_ipv6Subnets p)\<rparr>"

subsection \<open>Arguments\<close>

definition requiredTextArg :: "opcode \<Rightarrow> string option \<Rightarrow> perr + string" where
  "requiredTextArg op arg =
     (case arg of
        None \<Rightarrow> Inl (PNeedsArgument (bytecodeName op))
      | Some a \<Rightarrow> if a = [] then Inl (PNeedsArgument (bytecodeName op)) else Inr a)"

definition parseUintArg :: "opcode \<Rightarrow> string option \<Rightarrow> nat \<Rightarrow> perr + nat" where
  "parseUintArg op arg bits =
     (case arg of
        None \<Rightarrow> Inl (PNeedsArgument (bytecodeName op))
      | Some a \<Rightarrow>
          if trimSpace a = [] then Inl (PNeedsArgument (bytecodeName op))
          else (case parseUint bits (trimSpace a) of
                  None \<Rightarrow> Inl (PInvalidUint (bytecodeName op) a)
                | Some v \<Rightarrow> Inr v))"

definition dnsUintArg :: "opcode \<Rightarrow> string option \<Rightarrow> (string \<times> u16) list \<Rightarrow> perr + u16" where
  "dnsUintArg op arg names =
     (case arg of
        None \<Rightarrow> Inl (PNeedsArgument (bytecodeName op))
      | Some a \<Rightarrow>
          if trimSpace a = [] then Inl (PNeedsArgument (bytecodeName op))
          else (case map_of names (toUpper (trimSpace a)) of
                  Some v \<Rightarrow> Inr v
                | None \<Rightarrow>
                    (case parseUint 16 (trimSpace a) of
                       None \<Rightarrow> Inl (PInvalidUint (bytecodeName op) a)
                     | Some v \<Rightarrow> Inr (of_nat v))))"

definition dnsTypeNames :: "(string \<times> u16) list" where
  "dnsTypeNames = [(''A'', 1), (''NS'', 2), (''CNAME'', 5), (''SOA'', 6), (''PTR'', 12), (''MX'', 15),
     (''TXT'', 16), (''AAAA'', 28), (''SRV'', 33)]"

definition dnsClassNames :: "(string \<times> u16) list" where
  "dnsClassNames = [(''IN'', 1)]"

definition dnsOpcodeNames :: "(string \<times> u16) list" where
  "dnsOpcodeNames = [(''QUERY'', 0)]"

definition checkedUint8 :: "string \<Rightarrow> int \<Rightarrow> perr + byte" where
  "checkedUint8 name v = (if v < 0 \<or> v > 0xff then Inl (PRange name (nat v)) else Inr (of_int v))"

definition checkedUint16 :: "string \<Rightarrow> nat \<Rightarrow> perr + u16" where
  "checkedUint16 name v = (if v > 0xffff then Inl (PRange name v) else Inr (of_nat v))"

definition appendParam16 :: "byte list \<Rightarrow> opcode \<Rightarrow> u16 \<Rightarrow> byte list" where
  "appendParam16 code op param =
     code @ [byte_of op, of_nat (unat param mod 256), of_nat (unat param div 256)]"

subsection \<open>Parameters\<close>

definition stringParam :: "('re, 'f) parser \<Rightarrow> opcode \<Rightarrow> string option \<Rightarrow> perr + (u16 \<times> ('re, 'f) parser)" where
  "stringParam p op arg =
     ebind (requiredTextArg op arg) (\<lambda>a.
     ebind (intern (bytecodeName op) a (Inr a) (p_strings p)) (\<lambda>(idx, t).
     Inr (idx, p\<lparr>p_strings := t\<rparr>)))"

definition regexpParam :: "(string \<Rightarrow> 're option) \<Rightarrow> ('re, 'f) parser \<Rightarrow> opcode \<Rightarrow> string option \<Rightarrow>
    perr + (u16 \<times> ('re, 'f) parser)" where
  "regexpParam compile p op arg =
     ebind (requiredTextArg op arg) (\<lambda>a.
     ebind (intern (bytecodeName op) a
              (case compile a of None \<Rightarrow> Inl (PInvalidRegexp (bytecodeName op) a) | Some re \<Rightarrow> Inr (Some re))
              (p_regexps p)) (\<lambda>(idx, t).
     Inr (idx, p\<lparr>p_regexps := t\<rparr>)))"

definition ipv4Param :: "('re, 'f) parser \<Rightarrow> opcode \<Rightarrow> string option \<Rightarrow> perr + (u16 \<times> ('re, 'f) parser)" where
  "ipv4Param p op arg =
     ebind (requiredTextArg op arg) (\<lambda>text.
     case parseAddr (trimSpace text) of
       Some (V4 v) \<Rightarrow>
         ebind (intern (bytecodeName op) v (Inr v) (p_ipv4Addrs p)) (\<lambda>(idx, t).
         Inr (idx, p\<lparr>p_ipv4Addrs := t\<rparr>))
     | _ \<Rightarrow> Inl (PInvalidIPv4 (bytecodeName op) text))"

definition ipv6Param :: "('re, 'f) parser \<Rightarrow> opcode \<Rightarrow> string option \<Rightarrow> perr + (u16 \<times> ('re, 'f) parser)" where
  "ipv6Param p op arg =
     ebind (requiredTextArg op arg) (\<lambda>text.
     case parseAddr (trimSpace text) of
       None \<Rightarrow> Inl (PInvalidIPv6 (bytecodeName op) text)
     | Some a \<Rightarrow>
         if \<not> is6 a then Inl (PInvalidIPv6 (bytecodeName op) text)
         else ebind (intern (bytecodeName op) a (Inr a) (p_ipv6Addrs p)) (\<lambda>(idx, t).
              Inr (idx, p\<lparr>p_ipv6Addrs := t\<rparr>)))"

definition ipv4_value :: "addr \<Rightarrow> u32" where
  "ipv4_value a = (case a of V4 v \<Rightarrow> v | _ \<Rightarrow> 0)"

definition ipv4SubnetParam :: "('re, 'f) parser \<Rightarrow> opcode \<Rightarrow> string option \<Rightarrow> perr + (u16 \<times> ('re, 'f) parser)" where
  "ipv4SubnetParam p op arg =
     ebind (requiredTextArg op arg) (\<lambda>text.
     case parsePrefix (trimSpace text) of
       None \<Rightarrow> Inl (PInvalidIPv4Subnet (bytecodeName op) text)
     | Some pfx \<Rightarrow>
         if \<not> is4 (pfx_addr pfx) then Inl (PInvalidIPv4Subnet (bytecodeName op) text)
         else ebind (checkedUint8 (bytecodeName op) (pfx_bits pfx)) (\<lambda>bits.
              let subnet = \<lparr>sn_addr = ipv4_value (pfx_addr (pfx_masked pfx)), sn_bits = bits\<rparr> in
              ebind (intern (bytecodeName op) subnet (Inr subnet) (p_ipv4Subnets p)) (\<lambda>(idx, t).
              Inr (idx, p\<lparr>p_ipv4Subnets := t\<rparr>))))"

definition ipv6SubnetParam :: "('re, 'f) parser \<Rightarrow> opcode \<Rightarrow> string option \<Rightarrow> perr + (u16 \<times> ('re, 'f) parser)" where
  "ipv6SubnetParam p op arg =
     ebind (requiredTextArg op arg) (\<lambda>text.
     case parsePrefix (trimSpace text) of
       None \<Rightarrow> Inl (PInvalidIPv6Subnet (bytecodeName op) text)
     | Some pfx \<Rightarrow>
         if \<not> is6 (pfx_addr pfx) then Inl (PInvalidIPv6Subnet (bytecodeName op) text)
         else let pfx = pfx_masked pfx in
              ebind (intern (bytecodeName op) pfx (Inr pfx) (p_ipv6Subnets p)) (\<lambda>(idx, t).
              Inr (idx, p\<lparr>p_ipv6Subnets := t\<rparr>)))"

definition splitRuleParam :: "string \<Rightarrow> (string \<times> string) option" where
  "splitRuleParam arg =
     (case cut_blank (trimLeft arg blank) of
        None \<Rightarrow> None
      | Some (ruleType, rule) \<Rightarrow> if ruleType = [] then None else Some (ruleType, rule))"

definition ruleParam :: "('re, 'f) parser \<Rightarrow> opcode \<Rightarrow> string option \<Rightarrow> perr + (u16 \<times> ('re, 'f) parser)" where
  "ruleParam p op arg =
     ebind (requiredTextArg op arg) (\<lambda>a.
     case splitRuleParam a of
       None \<Rightarrow> Inl (PRuleParam (bytecodeName op))
     | Some (ruleType, rule) \<Rightarrow>
         let entry = \<lparr>sr_type = ruleType, sr_rule = rule\<rparr> in
         ebind (intern (bytecodeName op) entry (Inr entry) (p_rules p)) (\<lambda>(idx, t).
         Inr (idx, p\<lparr>p_rules := t\<rparr>)))"

definition backendParam :: "('re, 'f) parser \<Rightarrow> opcode \<Rightarrow> string option \<Rightarrow> perr + (u16 \<times> ('re, 'f) parser)" where
  "backendParam p op arg =
     ebind (requiredTextArg op arg) (\<lambda>a.
     let name = trimSpace a in
     if name = [] then Inl (PBackendName (bytecodeName op))
     else ebind (intern (bytecodeName op) name (Inr name) (p_backends p)) (\<lambda>(idx, t).
          Inr (idx, p\<lparr>p_backends := t\<rparr>)))"

subsection \<open>ROUTE actions\<close>

definition setSnifferRouteField :: "snifferCallMutation \<Rightarrow> string \<Rightarrow> string \<Rightarrow> perr + snifferCallMutation" where
  "setSnifferRouteField m key v =
     (if key = ''NETWORK'' then Inr (m\<lparr>sm_setNetwork := True, sm_network := v\<rparr>)
      else if key = ''SRC'' then Inr (m\<lparr>sm_setSrc := True, sm_src := v\<rparr>)
      else if key = ''DST'' then Inr (m\<lparr>sm_setDst := True, sm_dst := v\<rparr>)
      else if key = ''SRC_ADDR'' then Inr (m\<lparr>sm_setSrcAddr := True, sm_srcAddr := v\<rparr>)
      else if key = ''SRC_PORT'' then Inr (m\<lparr>sm_setSrcPort := True, sm_srcPort := v\<rparr>)
      else if key = ''DST_ADDR'' then Inr (m\<lparr>sm_setDstAddr := True, sm_dstAddr := v\<rparr>)
      else if key = ''DST_PORT'' then Inr (m\<lparr>sm_setDstPort := True, sm_dstPort := v\<rparr>)
      else if key = ''HOST'' then Inr (m\<lparr>sm_setHost := True, sm_host := v\<rparr>)
      else if key = ''SERVICE'' then Inr (m\<lparr>sm_setService := True, sm_service := v\<rparr>)
      else if key = ''PROTO'' then Inr (m\<lparr>sm_setProto := True, sm_proto := v\<rparr>)
      else Inl (PRouteUnknown key))"

text \<open>The loop over the fields; \<open>seen\<close> holds the keys read so far.\<close>

fun route_fields :: "string list \<Rightarrow> string list \<Rightarrow> snifferCallMutation \<Rightarrow> perr + snifferCallMutation" where
  "route_fields [] seen m = Inr m"
| "route_fields (field # rest) seen m =
     (case cut_at (CHR '':'') field of
        None \<Rightarrow> Inl (PRouteField field)
      | Some (k, v) \<Rightarrow>
          let key = toUpper k in
          if key = [] then Inl (PRouteField field)
          else if v = [] then Inl (PRouteEmptyValue key)
          else if key \<in> set seen then Inl (PRouteDuplicate key)
          else ebind (setSnifferRouteField m key v) (route_fields rest (key # seen)))"

definition routeParam :: "('re, 'f) parser \<Rightarrow> opcode \<Rightarrow> string option \<Rightarrow> perr + (u16 \<times> ('re, 'f) parser)" where
  "routeParam p op arg =
     ebind (requiredTextArg op arg) (\<lambda>a.
     case strFields a of
       [] \<Rightarrow> Inl (PNeedsArgument (bytecodeName op))
     | f # rest \<Rightarrow>
         (case parseUint 8 f of
            None \<Rightarrow> Inl (PRouteSlot f)
          | Some slot \<Rightarrow>
              ebind (route_fields rest [] zeroMutation) (\<lambda>m.
              let action = \<lparr>sa_slot = of_nat slot, sa_mutation = m\<rparr> in
              ebind (intern (bytecodeName op) action (Inr action) (p_routeActions p)) (\<lambda>(idx, t).
              Inr (idx, p\<lparr>p_routeActions := t\<rparr>)))))"

subsection \<open>Sniff classifiers\<close>

definition sniff_space :: string where
  "sniff_space = [CHR '' '', CHR 0x09, CHR 0x0D, CHR 0x0A]"

definition normalizeSniffClassifierName :: "string \<Rightarrow> perr + string" where
  "normalizeSniffClassifierName name =
     (let name = trimSpace name in
      if name = [] \<or> containsAny name sniff_space then Inl (PSniffName name) else Inr name)"

definition normalizeSniffClassifierConstructorName :: "string \<Rightarrow> perr + string" where
  "normalizeSniffClassifierConstructorName name =
     (let name = trimSpace name in
      if name = [] \<or> containsAny name (sniff_space @ '':'') then Inl (PSniffConstructorName name)
      else Inr name)"

definition addSniffClassifier :: "('re, 'f) parser \<Rightarrow> 'f namedClassifier \<Rightarrow> perr + (u16 \<times> ('re, 'f) parser)" where
  "addSniffClassifier p classifier =
     ebind (normalizeSniffClassifierName (nc_name classifier)) (\<lambda>name.
     if nc_factory classifier = None then Inl (PSniffNilFactory name)
     else if it_index (p_sniff p) name \<noteq> None then Inl (PSniffDuplicate name)
     else ebind (nextTableIndex ''SNIFF'' (length (it_vals (p_sniff p)))) (\<lambda>idx.
          Inr (idx, p\<lparr>p_sniff := \<lparr>it_vals = it_vals (p_sniff p) @ [classifier\<lparr>nc_name := name\<rparr>],
                                 it_index = (it_index (p_sniff p))(name := Some idx)\<rparr>\<rparr>)))"

fun setSniffClassifiers_from :: "nat \<Rightarrow> 'f namedClassifier list \<Rightarrow> ('re, 'f) parser \<Rightarrow> perr + ('re, 'f) parser" where
  "setSniffClassifiers_from i [] p = Inr p"
| "setSniffClassifiers_from i (c # cs) p =
     (case addSniffClassifier p c of
        Inl e \<Rightarrow> Inl (PSniffClassifier i e)
      | Inr (_, p') \<Rightarrow> setSniffClassifiers_from (Suc i) cs p')"

record 'f namedConstructor =
  cn_name :: string
  cn_constructor :: "'f sniffConstructor option"

fun setSniffClassifierConstructors_from :: "nat \<Rightarrow> 'f namedConstructor list \<Rightarrow> ('re, 'f) parser \<Rightarrow>
    perr + ('re, 'f) parser" where
  "setSniffClassifierConstructors_from i [] p = Inr p"
| "setSniffClassifierConstructors_from i (c # cs) p =
     (case normalizeSniffClassifierConstructorName (cn_name c) of
        Inl e \<Rightarrow> Inl (PSniffConstructor i e)
      | Inr name \<Rightarrow>
          (case cn_constructor c of
             None \<Rightarrow> Inl (PSniffNilConstructor name)
           | Some f \<Rightarrow>
               if p_sniffConstructors p name \<noteq> None then Inl (PSniffDuplicateConstructor name)
               else setSniffClassifierConstructors_from (Suc i) cs
                      (p\<lparr>p_sniffConstructors := (p_sniffConstructors p)(name := Some f)\<rparr>)))"

fun sniff_options :: "string list \<Rightarrow> perr + sniffOption list" where
  "sniff_options [] = Inr []"
| "sniff_options (field # rest) =
     (case cut_at (CHR '':'') field of
        None \<Rightarrow> Inl (PSniffSpec field)
      | Some (k, v) \<Rightarrow>
          if k = [] then Inl (PSniffSpec field)
          else let key = toUpper k in
               if containsAny key (sniff_space @ '':'') then Inl (PSniffSpec key)
               else if v = [] then Inl (PSniffSpec key)
               else ebind (sniff_options rest) (\<lambda>os. Inr (\<lparr>op_key = key, op_value = v\<rparr> # os)))"

definition parseSniffClassifierSpec :: "string \<Rightarrow> perr + (string \<times> sniffOption list)" where
  "parseSniffClassifierSpec arg =
     (case strFields arg of
        [] \<Rightarrow> Inl (PSniffSpec arg)
      | f # rest \<Rightarrow>
          ebind (normalizeSniffClassifierConstructorName f) (\<lambda>name.
          ebind (sniff_options rest) (\<lambda>os. Inr (name, os))))"

text \<open>
  \<open>nextInlineSniffClassifierName\<close>: the loop tries \<open>n, n + 1, ...\<close> where \<open>n\<close> is the number of
  classifiers. The index holds at most \<open>n\<close> names, so one of \<open>n + 1\<close> candidates is free.
\<close>

definition inline_name :: "nat \<Rightarrow> string" where
  "inline_name i = ''@inline-'' @ itoa i"

definition nextInlineSniffClassifierName :: "('re, 'f) parser \<Rightarrow> string option" where
  "nextInlineSniffClassifierName p =
     (let n = length (it_vals (p_sniff p)) in
      map_option inline_name (find (\<lambda>i. it_index (p_sniff p) (inline_name i) = None) [n..<n + n + 1]))"

text \<open>The end of \<open>constructSniffClassifier\<close>: share the classifier of an equivalent specification.\<close>

definition shareSniffSpec :: "('re, 'f) parser \<Rightarrow> string \<Rightarrow> 'f option \<Rightarrow> perr + (u16 \<times> ('re, 'f) parser)" where
  "shareSniffSpec p specKey factory =
     (case p_sniffSpecIndex p specKey of
        Some idx \<Rightarrow> Inr (idx, p)
      | None \<Rightarrow>
          (case nextInlineSniffClassifierName p of
             None \<Rightarrow> Inl (PSniffName [])
           | Some name \<Rightarrow>
               (case addSniffClassifier p \<lparr>nc_name = name, nc_factory = factory\<rparr> of
                  Inl e \<Rightarrow> Inl (PSniffInline specKey e)
                | Inr (idx, p') \<Rightarrow>
                    Inr (idx, p'\<lparr>p_sniffSpecIndex := (p_sniffSpecIndex p')(specKey := Some idx)\<rparr>))))"

definition constructSniffClassifier :: "('re, 'f) parser \<Rightarrow> string \<Rightarrow> perr + (u16 \<times> ('re, 'f) parser)" where
  "constructSniffClassifier p arg =
     ebind (parseSniffClassifierSpec arg) (\<lambda>(constructorName, options).
     case p_sniffConstructors p constructorName of
       None \<Rightarrow> Inl (PSniffUnknown (if options = [] then trimSpace arg else constructorName))
     | Some constructor \<Rightarrow>
         (case constructor options of
            Inl e \<Rightarrow> Inl (PSniffConstruct constructorName e)
          | Inr (canonical, factory) \<Rightarrow>
              if factory = None then Inl (PSniffNilFactory constructorName)
              else let canonical = trimSpace canonical in
                   shareSniffSpec p
                     (if canonical \<noteq> [] then constructorName @ '' '' @ canonical else constructorName)
                     factory))"

definition sniffParam :: "('re, 'f) parser \<Rightarrow> opcode \<Rightarrow> string option \<Rightarrow> perr + (u16 \<times> ('re, 'f) parser)" where
  "sniffParam p op arg =
     ebind (requiredTextArg op arg) (\<lambda>a.
     case (case normalizeSniffClassifierName a of
             Inl _ \<Rightarrow> None | Inr name \<Rightarrow> it_index (p_sniff p) name) of
       Some idx \<Rightarrow> Inr (idx, p)
     | None \<Rightarrow> constructSniffClassifier p a)"

subsection \<open>One line\<close>

text \<open>The result of a parameter method, appended to the code.\<close>

definition append16 :: "byte list \<Rightarrow> opcode \<Rightarrow> perr + (u16 \<times> ('re, 'f) parser) \<Rightarrow>
    perr + (byte list \<times> ('re, 'f) parser)" where
  "append16 code op r = ebind r (\<lambda>(idx, p). Inr (appendParam16 code op idx, p))"

definition appendOp :: "(string \<Rightarrow> 're option) \<Rightarrow> ('re, 'f) parser \<Rightarrow> byte list \<Rightarrow> opcode \<Rightarrow> string option \<Rightarrow>
    perr + (byte list \<times> ('re, 'f) parser)" where
  "appendOp compile p code op arg =
     (if op \<in> {OP_DROP, OP_TRUE, OP_FALSE, OP_NOT, OP_AND, OP_OR, OP_NET4, OP_NET6, OP_UDP, OP_TCP,
               OP_FQDN, OP_LFQDN, OP_DIAL, OP_LISTEN, OP_LOOKUP, OP_INTERCEPT, OP_SNIFF_NONE} then
        (case arg of
           Some a \<Rightarrow> if trimSpace a \<noteq> [] then Inl (PNoArgument (bytecodeName op))
                     else Inr (code @ [byte_of op], p)
         | None \<Rightarrow> Inr (code @ [byte_of op], p))
      else if op = OP_SLOT then
        ebind (parseUintArg op arg 8) (\<lambda>v. Inr (code @ [byte_of op, of_nat v], p))
      else if op \<in> {OP_ADDR_S, OP_LADDR_S} then append16 code op (stringParam p op arg)
      else if op \<in> {OP_ADDR_RE, OP_LADDR_RE} then append16 code op (regexpParam compile p op arg)
      else if op \<in> {OP_ADDR4, OP_LADDR4} then append16 code op (ipv4Param p op arg)
      else if op \<in> {OP_ADDR6, OP_LADDR6} then append16 code op (ipv6Param p op arg)
      else if op \<in> {OP_SNET4, OP_LSNET4} then append16 code op (ipv4SubnetParam p op arg)
      else if op \<in> {OP_SNET6, OP_LSNET6} then append16 code op (ipv6SubnetParam p op arg)
      else if op \<in> {OP_PORT, OP_LPORT} then
        ebind (parseUintArg op arg 16) (\<lambda>v.
        ebind (checkedUint16 (bytecodeName op) v) (\<lambda>param. Inr (appendParam16 code op param, p)))
      else if op = OP_RULE then append16 code op (ruleParam p op arg)
      else if op = OP_SNIFF then append16 code op (sniffParam p op arg)
      else if op = OP_ROUTE then append16 code op (routeParam p op arg)
      else if op = OP_BACKEND then append16 code op (backendParam p op arg)
      else if op = OP_QTYPE then
        ebind (dnsUintArg op arg dnsTypeNames) (\<lambda>v. Inr (appendParam16 code op v, p))
      else if op = OP_QCLASS then
        ebind (dnsUintArg op arg dnsClassNames) (\<lambda>v. Inr (appendParam16 code op v, p))
      else
        ebind (dnsUintArg op arg dnsOpcodeNames) (\<lambda>v. Inr (appendParam16 code op v, p)))"

fun parseProgramLines_from :: "(string \<Rightarrow> 're option) \<Rightarrow> string \<Rightarrow> ruleLine list \<Rightarrow> byte list \<Rightarrow>
    ('re, 'f) parser \<Rightarrow> perr + (byte list \<times> ('re, 'f) parser)" where
  "parseProgramLines_from compile name [] code p = Inr (code, p)"
| "parseProgramLines_from compile name (line # lines) code p =
     (if skipped_line (ln_text line) then parseProgramLines_from compile name lines code p
      else let (opName, arg) = splitRuleLine (ln_text line) in
        case bytecodeOpByName (toUpper opName) of
          None \<Rightarrow> Inl (PUnknownOperation name (ln_no line) opName)
        | Some op \<Rightarrow>
            (case appendOp compile p code op arg of
               Inl e \<Rightarrow> Inl (PLine name (ln_no line) e)
             | Inr (code', p') \<Rightarrow> parseProgramLines_from compile name lines code' p'))"

definition parseProgramLines :: "(string \<Rightarrow> 're option) \<Rightarrow> ('re, 'f) parser \<Rightarrow> string \<Rightarrow> ruleLine list \<Rightarrow>
    perr + (byte list \<times> ('re, 'f) parser)" where
  "parseProgramLines compile p name lines = parseProgramLines_from compile name lines [] p"

definition parseProgram :: "(string \<Rightarrow> 're option) \<Rightarrow> ('re, 'f) parser \<Rightarrow> string \<Rightarrow> string \<Rightarrow>
    perr + (byte list \<times> ('re, 'f) parser)" where
  "parseProgram compile p name src = parseProgramLines compile p name (splitBytecodeRuleLines src)"

subsection \<open>Rule sets\<close>

definition router_rules :: "('re, 'f) parser \<Rightarrow> byte list \<Rightarrow> byte list \<Rightarrow> byte list \<Rightarrow> byte list \<Rightarrow> byte list \<Rightarrow>
    're bytecodeRules" where
  "router_rules p dt lt du ru lk =
     \<lparr>br_tables = parser_tables p, br_dnsCacheStorage = None, br_dialTCP = dt, br_listenTCP = lt,
      br_dialUDP = du, br_routeUDP = ru, br_lookup = lk\<rparr>"

text \<open>The last step of the constructors: the rules are returned if a configuration accepts them.\<close>

definition accept_router_rules :: "'re bytecodeRules \<Rightarrow> (perr + 're bytecodeRules) outcome" where
  "accept_router_rules rules =
     omap (\<lambda>r. case r of Inl e \<Rightarrow> Inl (PValidate e) | Inr _ \<Rightarrow> Inr rules) (newBytecodeRouterCfg rules)"

definition newBytecodeRules :: "(string \<Rightarrow> 're option) \<Rightarrow> string \<Rightarrow> string \<Rightarrow> string \<Rightarrow> string \<Rightarrow> string \<Rightarrow>
    (perr + 're bytecodeRules) outcome" where
  "newBytecodeRules compile dialTCP listenTCP dialUDP routeUDP lookup =
     (case
        ebind (parseProgram compile (newBytecodeParser :: ('re, unit) parser) ''DialTCP'' dialTCP) (\<lambda>(dt, p).
        ebind (parseProgram compile p ''ListenTCP'' listenTCP) (\<lambda>(lt, p).
        ebind (parseProgram compile p ''DialUDP'' dialUDP) (\<lambda>(du, p).
        ebind (parseProgram compile p ''RouteUDP'' routeUDP) (\<lambda>(ru, p).
        ebind (parseProgram compile p ''Lookup'' lookup) (\<lambda>(lk, p).
        Inr (router_rules p dt lt du ru lk))))))
      of Inl e \<Rightarrow> Done (Inl e)
       | Inr rules \<Rightarrow> accept_router_rules rules)"

text \<open>
  \<^verbatim>\<open>NewBytecodeRulesProgram\<close>: the inner loop over the five targets of one segment, and the outer
  loop over the segments.
\<close>

type_synonym target = "string \<times> bytecodeMethod \<times> byte list"

fun derive_targets :: "(string \<Rightarrow> 're option) \<Rightarrow> ruleLine list \<Rightarrow> target list \<Rightarrow> ('re, 'f) parser \<Rightarrow>
    perr + (target list \<times> ('re, 'f) parser)" where
  "derive_targets compile segment [] p = Inr ([], p)"
| "derive_targets compile segment ((name, method, dst) # targets) p =
     (if \<not> bytecodeSegmentCanTrigger segment method
      then ebind (derive_targets compile segment targets p) (\<lambda>(ts, p). Inr ((name, method, dst) # ts, p))
      else ebind (parseProgramLines compile p name segment) (\<lambda>(code, p).
           ebind (derive_targets compile segment targets p) (\<lambda>(ts, p). Inr ((name, method, dst @ code) # ts, p))))"

fun derive_segments :: "(string \<Rightarrow> 're option) \<Rightarrow> ruleLine list list \<Rightarrow> target list \<Rightarrow> ('re, 'f) parser \<Rightarrow>
    perr + (target list \<times> ('re, 'f) parser)" where
  "derive_segments compile [] targets p = Inr (targets, p)"
| "derive_segments compile (segment # segments) targets p =
     ebind (derive_targets compile segment targets p) (\<lambda>(ts, p). derive_segments compile segments ts p)"

definition router_targets :: "target list" where
  "router_targets = [(''DialTCP'', MethodDial, []), (''ListenTCP'', MethodListen, []),
     (''DialUDP'', MethodDial, []), (''RouteUDP'', MethodDial, []), (''Lookup'', MethodLookup, [])]"

definition newBytecodeRulesProgram :: "(string \<Rightarrow> 're option) \<Rightarrow> string \<Rightarrow> (perr + 're bytecodeRules) outcome" where
  "newBytecodeRulesProgram compile program =
     (case derive_segments compile (splitBytecodeRuleSegments program) router_targets
             (newBytecodeParser :: ('re, unit) parser) of
        Inl e \<Rightarrow> Done (Inl e)
      | Inr (ts, p) \<Rightarrow>
          (case map (\<lambda>(_, _, code). code) ts of
             [dt, lt, du, ru, lk] \<Rightarrow> accept_router_rules (router_rules p dt lt du ru lk)
           | _ \<Rightarrow> Panic))"

text \<open>There are always five targets, so the last branch does not arise.\<close>

definition newDNSBytecodeRules :: "(string \<Rightarrow> 're option) \<Rightarrow> string \<Rightarrow> perr + 're dnsRules" where
  "newDNSBytecodeRules compile route =
     ebind (parseProgram compile (newBytecodeParser :: ('re, unit) parser) ''DNSRoute'' route) (\<lambda>(code, p).
     let rules = \<lparr>dr_backends = it_vals (p_backends p), dr_tables = parser_tables p, dr_route = code\<rparr> in
     case dns_validate rules of Inl e \<Rightarrow> Inl (PValidate e) | Inr _ \<Rightarrow> Inr rules)"

subsection \<open>Remap rules\<close>

definition parseRemapEndpoint :: "string \<Rightarrow> perr + remapEndpoint" where
  "parseRemapEndpoint s =
     (if toUpper s \<in> {''SRC'', ''SOURCE'', ''LADDR'', ''LOCAL''} then Inr RemapSrc
      else if toUpper s \<in> {''DST'', ''DEST'', ''RADDR'', ''REMOTE''} then Inr RemapDst
      else Inl (PRemapEndpoint s))"

definition parseRemapField :: "string \<Rightarrow> perr + remapField" where
  "parseRemapField s =
     (if toUpper s \<in> {''ADDR_PORT'', ''ADDRPORT'', ''ADDRESS_PORT''} then Inr RemapAddrPort
      else if toUpper s \<in> {''ADDR'', ''ADDRESS''} then Inr RemapAddr
      else if toUpper s = ''PORT'' then Inr RemapPort
      else Inl (PRemapField s))"

definition parseRemapAction :: "string option \<Rightarrow> perr + remapAction" where
  "parseRemapAction arg =
     (case arg of
        None \<Rightarrow> Inl PRemapArgs
      | Some a \<Rightarrow>
          (case strFields a of
             [e, f, v] \<Rightarrow>
               ebind (parseRemapEndpoint e) (\<lambda>endpoint.
               ebind (parseRemapField f) (\<lambda>field.
               let action = \<lparr>ra_endpoint = endpoint, ra_field = field, ra_addr = [], ra_port = []\<rparr> in
               case field of
                 RemapAddrPort \<Rightarrow>
                   (case splitHostPort v of
                      None \<Rightarrow> Inl (PRemapHostPort v)
                    | Some (host, port) \<Rightarrow> Inr (action\<lparr>ra_addr := trim host ''[]'', ra_port := port\<rparr>))
               | RemapAddr \<Rightarrow> Inr (action\<lparr>ra_addr := trim v ''[]''\<rparr>)
               | RemapPort \<Rightarrow> Inr (action\<lparr>ra_port := v\<rparr>)
               | FieldOther _ \<Rightarrow> Inr action))
           | _ \<Rightarrow> Inl PRemapArgs))"

definition segmentHasOnlyComments :: "ruleLine list \<Rightarrow> bool" where
  "segmentHasOnlyComments segment = list_all (\<lambda>line. skipped_line (ln_text line)) segment"

text \<open>
  The backward loop of \<open>parseRemapRuleSegment\<close> over the reversed segment: the last line that is
  neither blank nor a comment must be the REMAP line; the lines before it are the predicate.
  \<open>None\<close> is the source's \<^verbatim>\<open>skip\<close>.
\<close>

fun remap_segment_back :: "nat \<Rightarrow> ruleLine list \<Rightarrow> perr + (ruleLine list \<times> remapAction) option" where
  "remap_segment_back index [] = Inr None"
| "remap_segment_back index (line # before_rev) =
     (if skipped_line (ln_text line) then remap_segment_back index before_rev
      else let (opName, arg) = splitRuleLine (ln_text line) in
           if toUpper opName \<noteq> ''REMAP'' then Inl (PRemapSegment index (ln_no line))
           else (case parseRemapAction arg of
                   Inl e \<Rightarrow> Inl (PRemapLine (ln_no line) e)
                 | Inr action \<Rightarrow> Inr (Some (rev before_rev, action))))"

definition parseRemapRuleSegment :: "nat \<Rightarrow> ruleLine list \<Rightarrow> perr + (ruleLine list \<times> remapAction) option" where
  "parseRemapRuleSegment index segment =
     (if segmentHasOnlyComments segment then Inr None else remap_segment_back index (rev segment))"

fun remap_segments :: "(string \<Rightarrow> 're option) \<Rightarrow> nat \<Rightarrow> ruleLine list list \<Rightarrow> ('re, 'f) parser \<Rightarrow>
    perr + (remapperRule list \<times> ('re, 'f) parser)" where
  "remap_segments compile i [] p = Inr ([], p)"
| "remap_segments compile i (segment # segments) p =
     ebind (parseRemapRuleSegment i segment) (\<lambda>r.
     case r of
       None \<Rightarrow> remap_segments compile (Suc i) segments p
     | Some (predicateLines, action) \<Rightarrow>
         ebind (parseProgramLines compile p ''Remapper'' predicateLines) (\<lambda>(code, p).
         ebind (remap_segments compile (Suc i) segments p) (\<lambda>(rules, p).
         Inr (\<lparr>rb_predicate = code, rb_action = action\<rparr> # rules, p))))"

definition newRemapperBytecodeRules :: "(string \<Rightarrow> 're option) \<Rightarrow> 're host_env \<Rightarrow> string \<Rightarrow>
    (perr + 're remapperRules) outcome" where
  "newRemapperBytecodeRules compile env program =
     (case remap_segments compile 0 (splitBytecodeRuleSegments program) (newBytecodeParser :: ('re, unit) parser) of
        Inl e \<Rightarrow> Done (Inl e)
      | Inr (rs, p) \<Rightarrow>
          let rules = \<lparr>mr_tables = parser_tables p, mr_dnsCacheStorage = None, mr_rules = rs\<rparr> in
          omap (\<lambda>r. case r of Inl e \<Rightarrow> Inl (PValidate e) | Inr _ \<Rightarrow> Inr rules) (newBytecodeRemapRules rules env))"

definition newRemapRules :: "(string \<Rightarrow> 're option) \<Rightarrow> 're host_env \<Rightarrow> string \<Rightarrow>
    (perr + remapRule list) outcome" where
  "newRemapRules compile env program =
     obind (newRemapperBytecodeRules compile env program) (\<lambda>r.
     case r of
       Inl e \<Rightarrow> Done (Inl e)
     | Inr rules \<Rightarrow>
         omap (\<lambda>r. case r of Inl e \<Rightarrow> Inl (PValidate e) | Inr rs \<Rightarrow> Inr rs) (newBytecodeRemapRules rules env))"

end
