(* ===== verification/ParserFacts.thy ===== *)
theory ParserFacts
  imports RuleParser
begin

text \<open>
  What the rule parser guarantees: its tables stay coherent with their index maps, only grow, and
  every line it accepts adds exactly one well-formed instruction whose index is in range.
\<close>

subsection \<open>Interned tables\<close>

text \<open>
  The entries belong to distinct keys (\<open>R\<close> relates key and entry), there are at most 65536 of
  them, and the index map is the inverse of the position of the keys.
\<close>

definition itable_inv :: "('k \<Rightarrow> 'v \<Rightarrow> bool) \<Rightarrow> ('k, 'v) itable \<Rightarrow> bool" where
  "itable_inv R t \<longleftrightarrow>
     (\<exists>ks. distinct ks \<and> list_all2 R ks (it_vals t) \<and> length ks \<le> 65536 \<and>
        (\<forall>k i. it_index t k = Some i \<longleftrightarrow> unat i < length ks \<and> ks ! unat i = k))"

definition grows :: "'v list \<Rightarrow> 'v list \<Rightarrow> bool" where
  "grows xs ys \<longleftrightarrow> (\<exists>zs. ys = xs @ zs)"

lemma grows_refl [simp]: "grows xs xs"
  by (simp add: grows_def)

lemma grows_trans: "grows xs ys \<Longrightarrow> grows ys zs \<Longrightarrow> grows xs zs"
  by (auto simp: grows_def)

lemma grows_length: "grows xs ys \<Longrightarrow> length xs \<le> length ys"
  by (auto simp: grows_def)

lemma grows_nth: "grows xs ys \<Longrightarrow> i < length xs \<Longrightarrow> ys ! i = xs ! i"
  by (auto simp: grows_def nth_append)

lemma empty_table_inv [simp]: "itable_inv R empty_table"
  by (simp add: itable_inv_def empty_table_def)

lemma itable_inv_all: "itable_inv R t \<Longrightarrow> v \<in> set (it_vals t) \<Longrightarrow> \<exists>k. R k v"
  by (auto simp: itable_inv_def list_all2_conv_all_nth in_set_conv_nth)

lemma itable_inv_lookup:
  "itable_inv R t \<Longrightarrow> it_index t k = Some i \<Longrightarrow> unat i < length (it_vals t) \<and> R k (it_vals t ! unat i)"
  by (auto simp: itable_inv_def list_all2_conv_all_nth)

lemma itable_insert:
  assumes inv: "itable_inv R t" and fresh: "it_index t key = None" and "R key v"
    and idx: "nextTableIndex name (length (it_vals t)) = Inr idx"
  shows "itable_inv R \<lparr>it_vals = it_vals t @ [v], it_index = (it_index t)(key := Some idx)\<rparr> \<and>
    unat idx = length (it_vals t)"
proof -
  from inv obtain ks where ks: "distinct ks" "list_all2 R ks (it_vals t)" "length ks \<le> 65536"
      "\<And>k i. it_index t k = Some i \<longleftrightarrow> unat i < length ks \<and> ks ! unat i = k"
    by (auto simp: itable_inv_def)
  have len: "length ks = length (it_vals t)" using ks(2) by (rule list_all2_lengthD)
  from idx have n: "length ks < 65536" "idx = of_nat (length ks)"
    by (auto simp: nextTableIndex_def len split: if_splits)
  then have i: "unat idx = length ks" by simp
  have new: "key \<notin> set ks"
  proof
    assume "key \<in> set ks"
    then obtain j where j: "j < length ks" "ks ! j = key" by (auto simp: in_set_conv_nth)
    with n(1) have "it_index t key = Some (of_nat j)" by (simp add: ks(4))
    with fresh show False by simp
  qed
  have "((it_index t)(key := Some idx)) k = Some x \<longleftrightarrow>
      unat x < length (ks @ [key]) \<and> (ks @ [key]) ! unat x = k" for k x
  proof (cases "k = key")
    case True
    have "x = idx \<longleftrightarrow> unat x = length ks" using i by (metis unsigned_word_eqI)
    with True new show ?thesis by (auto simp: nth_append less_Suc_eq)
  next
    case False
    then show ?thesis by (auto simp: ks(4) nth_append less_Suc_eq)
  qed
  moreover have "list_all2 R (ks @ [key]) (it_vals t @ [v])"
    using ks(2) assms(3) by (simp add: list_all2_appendI)
  ultimately show ?thesis
    using ks(1) new n(1) i len
    unfolding itable_inv_def by (intro conjI exI [of _ "ks @ [key]"]) simp_all
qed

lemma intern_inv:
  assumes "itable_inv R t" and "intern name key mk t = Inr (idx, t')"
    and "\<And>v. mk = Inr v \<Longrightarrow> R key v"
  shows "itable_inv R t' \<and> grows (it_vals t) (it_vals t') \<and> it_index t' key = Some idx \<and>
    unat idx < length (it_vals t') \<and> R key (it_vals t' ! unat idx)"
proof (cases "it_index t key")
  case (Some i)
  with assms show ?thesis by (auto simp: intern_def dest: itable_inv_lookup)
next
  case None
  with assms(2) obtain v where v: "mk = Inr v" "nextTableIndex name (length (it_vals t)) = Inr idx"
      "t' = \<lparr>it_vals = it_vals t @ [v], it_index = (it_index t)(key := Some idx)\<rparr>"
    by (auto simp: intern_def ebind_eq_Inr)
  from itable_insert [OF assms(1) None assms(3) [OF v(1)] v(2)] assms(3) [OF v(1)] v(3)
  show ?thesis by (auto simp: grows_def nth_append)
qed

text \<open>Interning a key again changes nothing and gives the same index.\<close>

lemma intern_again:
  assumes "it_index t key = Some idx"
  shows "intern name key mk t = Inr (idx, t)"
  using assms by (simp add: intern_def)

subsection \<open>The parser's invariant\<close>

definition parser_inv :: "(string \<Rightarrow> 're option) \<Rightarrow> ('re, 'f) parser \<Rightarrow> bool" where
  "parser_inv compile p \<longleftrightarrow>
     itable_inv (\<lambda>k v. v = k) (p_strings p) \<and>
     itable_inv (\<lambda>k v. v = compile k \<and> v \<noteq> None) (p_regexps p) \<and>
     itable_inv (\<lambda>k v. v = k) (p_ipv4Addrs p) \<and>
     itable_inv (\<lambda>k v. v = k \<and> sn_bits v \<le> 32) (p_ipv4Subnets p) \<and>
     itable_inv (\<lambda>k v. v = k \<and> is6 v) (p_ipv6Addrs p) \<and>
     itable_inv (\<lambda>k v. v = k \<and> pfx_isValid v \<and> is6 (pfx_addr v)) (p_ipv6Subnets p) \<and>
     itable_inv (\<lambda>k v. v = k) (p_rules p) \<and>
     itable_inv (\<lambda>k v. nc_name v = k \<and> nc_factory v \<noteq> None) (p_sniff p) \<and>
     (\<forall>k i. p_sniffSpecIndex p k = Some i \<longrightarrow> unat i < length (it_vals (p_sniff p))) \<and>
     itable_inv (\<lambda>k v. v = k) (p_routeActions p) \<and>
     itable_inv (\<lambda>k v. v = k \<and> v \<noteq> []) (p_backends p)"

definition extends :: "('re, 'f) parser \<Rightarrow> ('re, 'f) parser \<Rightarrow> bool" where
  "extends p p' \<longleftrightarrow>
     grows (it_vals (p_strings p)) (it_vals (p_strings p')) \<and>
     grows (it_vals (p_regexps p)) (it_vals (p_regexps p')) \<and>
     grows (it_vals (p_ipv4Addrs p)) (it_vals (p_ipv4Addrs p')) \<and>
     grows (it_vals (p_ipv4Subnets p)) (it_vals (p_ipv4Subnets p')) \<and>
     grows (it_vals (p_ipv6Addrs p)) (it_vals (p_ipv6Addrs p')) \<and>
     grows (it_vals (p_ipv6Subnets p)) (it_vals (p_ipv6Subnets p')) \<and>
     grows (it_vals (p_rules p)) (it_vals (p_rules p')) \<and>
     grows (it_vals (p_sniff p)) (it_vals (p_sniff p')) \<and>
     grows (it_vals (p_routeActions p)) (it_vals (p_routeActions p')) \<and>
     grows (it_vals (p_backends p)) (it_vals (p_backends p'))"

lemma extends_refl [simp]: "extends p p"
  by (simp add: extends_def)

lemma extends_trans: "extends p q \<Longrightarrow> extends q r \<Longrightarrow> extends p r"
  unfolding extends_def by (meson grows_trans)

lemma newBytecodeParser_inv: "parser_inv compile newBytecodeParser"
  by (simp add: parser_inv_def newBytecodeParser_def)

subsection \<open>The contract of a parameter method\<close>

text \<open>
  \<open>param\<close> interns its argument in the table \<open>entries\<close>: it keeps the parser's invariant, only
  extends the tables, and returns the index of an entry that the argument denotes.
\<close>

locale param_method =
  fixes compile :: "string \<Rightarrow> 're option"
    and param :: "('re, 'f) parser \<Rightarrow> opcode \<Rightarrow> string option \<Rightarrow> perr + (u16 \<times> ('re, 'f) parser)"
    and entries :: "('re, 'f) parser \<Rightarrow> 'v list"
    and denotes :: "string option \<Rightarrow> 'v \<Rightarrow> bool"
  assumes param_keeps: "parser_inv compile p \<Longrightarrow> param p op arg = Inr (idx, p') \<Longrightarrow>
    parser_inv compile p' \<and> extends p p' \<and> unat idx < length (entries p') \<and>
    denotes arg (entries p' ! unat idx)"
begin

lemma append16_instr:
  assumes "parser_inv compile p" and "append16 code op (param p op arg) = Inr (code', p')"
    and "param_kind op = ParamUint16"
  shows "\<exists>i. code' = code @ encode_instr (op, i) \<and> wf_instr (op, i) \<and> i < length (entries p') \<and>
    denotes arg (entries p' ! i) \<and> parser_inv compile p' \<and> extends p p'"
proof -
  from assms(2) obtain idx where r: "param p op arg = Inr (idx, p')"
    and c: "code' = appendParam16 code op idx"
    by (auto simp: append16_def ebind_eq_Inr)
  from param_keeps [OF assms(1) r] c assms(3) show ?thesis
    by (intro exI [of _ "unat idx"]) (simp add: appendParam16_def encode_instr_def wf_instr_def)
qed

end

text \<open>What the argument of an instruction denotes, for each table.\<close>

definition denotes_regexp :: "(string \<Rightarrow> 're option) \<Rightarrow> string option \<Rightarrow> 're option \<Rightarrow> bool" where
  "denotes_regexp compile arg v \<longleftrightarrow> (\<exists>a. arg = Some a \<and> v = compile a \<and> v \<noteq> None)"

definition denotes_addr4 :: "string option \<Rightarrow> u32 \<Rightarrow> bool" where
  "denotes_addr4 arg v \<longleftrightarrow> (\<exists>a. arg = Some a \<and> parseAddr (trimSpace a) = Some (V4 v))"

definition denotes_addr6 :: "string option \<Rightarrow> addr \<Rightarrow> bool" where
  "denotes_addr6 arg v \<longleftrightarrow> (\<exists>a. arg = Some a \<and> parseAddr (trimSpace a) = Some v \<and> is6 v)"

definition denotes_subnet4 :: "string option \<Rightarrow> ipv4Subnet \<Rightarrow> bool" where
  "denotes_subnet4 arg v \<longleftrightarrow>
     (\<exists>a pfx. arg = Some a \<and> parsePrefix (trimSpace a) = Some pfx \<and> is4 (pfx_addr pfx) \<and>
        v = \<lparr>sn_addr = ipv4_value (pfx_addr (pfx_masked pfx)), sn_bits = of_int (pfx_bits pfx)\<rparr>)"

definition denotes_subnet6 :: "string option \<Rightarrow> prefix \<Rightarrow> bool" where
  "denotes_subnet6 arg v \<longleftrightarrow>
     (\<exists>a pfx. arg = Some a \<and> parsePrefix (trimSpace a) = Some pfx \<and> is6 (pfx_addr pfx) \<and>
        v = pfx_masked pfx)"

definition denotes_rule :: "string option \<Rightarrow> sysnetRule \<Rightarrow> bool" where
  "denotes_rule arg v \<longleftrightarrow> (\<exists>a. arg = Some a \<and> splitRuleParam a = Some (sr_type v, sr_rule v))"

definition denotes_backend :: "string option \<Rightarrow> string \<Rightarrow> bool" where
  "denotes_backend arg v \<longleftrightarrow> v \<noteq> [] \<and> (\<exists>a. arg = Some a \<and> v = trimSpace a)"

definition denotes_route :: "string option \<Rightarrow> snifferRouteAction \<Rightarrow> bool" where
  "denotes_route arg v \<longleftrightarrow>
     (\<exists>a f rest slot. arg = Some a \<and> strFields a = f # rest \<and> parseUint 8 f = Some slot \<and>
        route_fields rest [] zeroMutation = Inr (sa_mutation v) \<and> sa_slot v = of_nat slot)"

definition denotes_sniff :: "string option \<Rightarrow> 'f namedClassifier \<Rightarrow> bool" where
  "denotes_sniff arg v \<longleftrightarrow> nc_factory v \<noteq> None"

lemma requiredTextArg_Some: "requiredTextArg op arg = Inr a \<Longrightarrow> arg = Some a"
  by (auto simp: requiredTextArg_def split: option.splits if_splits)

lemma string_method:
  assumes inv: "parser_inv compile p" and r: "stringParam p op arg = Inr (idx, p')"
  shows "parser_inv compile p' \<and> extends p p' \<and> unat idx < length (it_vals (p_strings p')) \<and>
    arg = Some (it_vals (p_strings p') ! unat idx)"
proof -
  from r obtain a t where i: "intern (bytecodeName op) a (Inr a) (p_strings p) = Inr (idx, t)"
    and p': "p' = p\<lparr>p_strings := t\<rparr>" and d: "arg = Some a"
    by (auto simp: stringParam_def ebind_eq_Inr dest: requiredTextArg_Some)
  have "itable_inv (\<lambda>k v. v = k) (p_strings p)" using inv by (simp add: parser_inv_def)
  from intern_inv [OF this i] inv p' d show ?thesis by (simp add: parser_inv_def extends_def)
qed

interpretation strings: param_method compile stringParam "\<lambda>p. it_vals (p_strings p)" "\<lambda>arg v. arg = Some v" for compile
  by unfold_locales (rule string_method)

lemma regexp_method:
  assumes inv: "parser_inv compile p" and r: "regexpParam compile p op arg = Inr (idx, p')"
  shows "parser_inv compile p' \<and> extends p p' \<and> unat idx < length (it_vals (p_regexps p')) \<and>
    denotes_regexp compile arg (it_vals (p_regexps p') ! unat idx)"
proof -
  from r obtain a t where i: "intern (bytecodeName op) a
        (case compile a of None \<Rightarrow> Inl (PInvalidRegexp (bytecodeName op) a) | Some re \<Rightarrow> Inr (Some re))
        (p_regexps p) = Inr (idx, t)" and p': "p' = p\<lparr>p_regexps := t\<rparr>" and d: "arg = Some a"
    by (auto simp: regexpParam_def ebind_eq_Inr dest: requiredTextArg_Some)
  have t: "itable_inv (\<lambda>k v. v = compile k \<and> v \<noteq> None) (p_regexps p)" using inv by (simp add: parser_inv_def)
  have "v = compile a \<and> v \<noteq> None" if "(case compile a of None \<Rightarrow> Inl (PInvalidRegexp (bytecodeName op) a)
      | Some re \<Rightarrow> Inr (Some re)) = Inr v" for v
    using that by (cases "compile a") auto
  note f = intern_inv [OF t i this]
  then have "compile a \<noteq> None" by metis
  with f inv p' d show ?thesis by (simp add: parser_inv_def extends_def denotes_regexp_def)
qed

interpretation regexps: param_method compile "regexpParam compile" "\<lambda>p. it_vals (p_regexps p)" "denotes_regexp compile" for compile
  by unfold_locales (rule regexp_method)

lemma ipv4_method:
  assumes inv: "parser_inv compile p" and r: "ipv4Param p op arg = Inr (idx, p')"
  shows "parser_inv compile p' \<and> extends p p' \<and> unat idx < length (it_vals (p_ipv4Addrs p')) \<and>
    denotes_addr4 arg (it_vals (p_ipv4Addrs p') ! unat idx)"
proof -
  from r obtain a t where i: "intern (bytecodeName op) a (Inr a) (p_ipv4Addrs p) = Inr (idx, t)"
    and p': "p' = p\<lparr>p_ipv4Addrs := t\<rparr>" and d: "denotes_addr4 arg a"
  proof -
    from r obtain b where a: "requiredTextArg op arg = Inr b"
      by (cases "requiredTextArg op arg") (auto simp: ipv4Param_def)
    with r obtain v where "parseAddr (trimSpace b) = Some (V4 v)"
      by (cases "parseAddr (trimSpace b)"; cases "the (parseAddr (trimSpace b))")
        (auto simp: ipv4Param_def)
    with r a requiredTextArg_Some [OF a] that show thesis
      by (auto simp: ipv4Param_def ebind_eq_Inr denotes_addr4_def)
  qed
  have "itable_inv (\<lambda>k v. v = k) (p_ipv4Addrs p)" using inv by (simp add: parser_inv_def)
  from intern_inv [OF this i] inv p' d show ?thesis by (simp add: parser_inv_def extends_def)
qed

interpretation ipv4Addrs: param_method compile ipv4Param "\<lambda>p. it_vals (p_ipv4Addrs p)" "denotes_addr4" for compile
  by unfold_locales (rule ipv4_method)

lemma ipv6_method:
  assumes inv: "parser_inv compile p" and r: "ipv6Param p op arg = Inr (idx, p')"
  shows "parser_inv compile p' \<and> extends p p' \<and> unat idx < length (it_vals (p_ipv6Addrs p')) \<and>
    denotes_addr6 arg (it_vals (p_ipv6Addrs p') ! unat idx)"
proof -
  from r obtain a t where i: "intern (bytecodeName op) a (Inr a) (p_ipv6Addrs p) = Inr (idx, t)"
    and p': "p' = p\<lparr>p_ipv6Addrs := t\<rparr>" and c: "is6 a"
    and d: "denotes_addr6 arg a"
    by (auto simp: ipv6Param_def ebind_eq_Inr Let_def denotes_addr6_def
        dest!: requiredTextArg_Some split: option.splits if_splits)
  have "itable_inv (\<lambda>k v. v = k \<and> is6 v) (p_ipv6Addrs p)" using inv by (simp add: parser_inv_def)
  from intern_inv [OF this i] inv p' c d show ?thesis by (simp add: parser_inv_def extends_def)
qed

interpretation ipv6Addrs: param_method compile ipv6Param "\<lambda>p. it_vals (p_ipv6Addrs p)" "denotes_addr6" for compile
  by unfold_locales (rule ipv6_method)

lemma rule_method:
  assumes inv: "parser_inv compile p" and r: "ruleParam p op arg = Inr (idx, p')"
  shows "parser_inv compile p' \<and> extends p p' \<and> unat idx < length (it_vals (p_rules p')) \<and>
    denotes_rule arg (it_vals (p_rules p') ! unat idx)"
proof -
  from r obtain e t where i: "intern (bytecodeName op) e (Inr e) (p_rules p) = Inr (idx, t)"
    and p': "p' = p\<lparr>p_rules := t\<rparr>" and c: "denotes_rule arg e"
    by (auto simp: ruleParam_def ebind_eq_Inr Let_def denotes_rule_def
        dest!: requiredTextArg_Some split: option.splits)
  have "itable_inv (\<lambda>k v. v = k) (p_rules p)" using inv by (simp add: parser_inv_def)
  from intern_inv [OF this i] inv p' c show ?thesis by (simp add: parser_inv_def extends_def)
qed

interpretation sysRules: param_method compile ruleParam "\<lambda>p. it_vals (p_rules p)" "denotes_rule" for compile
  by unfold_locales (rule rule_method)

lemma backend_method:
  assumes inv: "parser_inv compile p" and r: "backendParam p op arg = Inr (idx, p')"
  shows "parser_inv compile p' \<and> extends p p' \<and> unat idx < length (it_vals (p_backends p')) \<and>
    denotes_backend arg (it_vals (p_backends p') ! unat idx)"
proof -
  from r obtain e t where i: "intern (bytecodeName op) e (Inr e) (p_backends p) = Inr (idx, t)"
    and p': "p' = p\<lparr>p_backends := t\<rparr>" and c: "e \<noteq> []" and d: "denotes_backend arg e"
    by (auto simp: backendParam_def ebind_eq_Inr Let_def denotes_backend_def
        dest!: requiredTextArg_Some split: if_splits)
  have "itable_inv (\<lambda>k v. v = k \<and> v \<noteq> []) (p_backends p)" using inv by (simp add: parser_inv_def)
  from intern_inv [OF this i] inv p' c d show ?thesis by (simp add: parser_inv_def extends_def)
qed

interpretation backends: param_method compile backendParam "\<lambda>p. it_vals (p_backends p)" "denotes_backend" for compile
  by unfold_locales (rule backend_method)

lemma route_method:
  assumes inv: "parser_inv compile p" and r: "routeParam p op arg = Inr (idx, p')"
  shows "parser_inv compile p' \<and> extends p p' \<and> unat idx < length (it_vals (p_routeActions p')) \<and>
    denotes_route arg (it_vals (p_routeActions p') ! unat idx)"
proof -
  from r obtain e t where i: "intern (bytecodeName op) e (Inr e) (p_routeActions p) = Inr (idx, t)"
    and p': "p' = p\<lparr>p_routeActions := t\<rparr>" and c: "denotes_route arg e"
  proof -
    from r obtain a where a: "requiredTextArg op arg = Inr a"
      by (cases "requiredTextArg op arg") (auto simp: routeParam_def)
    with r obtain f rest where f: "strFields a = f # rest"
      by (cases "strFields a") (auto simp: routeParam_def)
    with r a obtain slot where "parseUint 8 f = Some slot"
      by (cases "parseUint 8 f") (auto simp: routeParam_def)
    with r a f requiredTextArg_Some [OF a] that show thesis
      by (auto simp: routeParam_def ebind_eq_Inr Let_def denotes_route_def)
  qed
  have "itable_inv (\<lambda>k v. v = k) (p_routeActions p)" using inv by (simp add: parser_inv_def)
  from intern_inv [OF this i] inv p' c show ?thesis by (simp add: parser_inv_def extends_def)
qed

interpretation routeActions: param_method compile routeParam "\<lambda>p. it_vals (p_routeActions p)" "denotes_route" for compile
  by unfold_locales (rule route_method)

lemma parseAddr_valid: "parseAddr s = Some a \<Longrightarrow> isValid a"
proof -
  have 4: "parseIPv4 s = Some a \<Longrightarrow> isValid a" for s by (auto simp: parseIPv4_def)
  have 6: "parseIPv6 s = Some a \<Longrightarrow> isValid a" for s
    by (auto simp: parseIPv6_def Let_def split: option.splits prod.splits if_splits)
  have "parseAddr_scan s r = Some a \<Longrightarrow> isValid a" for r
    by (induction r) (auto dest: 4 6 split: if_splits)
  then show "parseAddr s = Some a \<Longrightarrow> isValid a" by (simp add: parseAddr_def)
qed

lemma parsePrefix_valid:
  assumes "parsePrefix s = Some pfx"
  shows "pfx_isValid pfx \<and> isValid (pfx_addr pfx) \<and> pfx_bits pfx \<le> int (bitLen (pfx_addr pfx))"
proof -
  from assms obtain a bs ip where "cut_last (CHR ''/'') s = Some (a, bs)" "parseAddr a = Some ip"
      "decimal 0 bs \<le> bitLen ip" "pfx = prefixFrom ip (int (decimal 0 bs))"
    by (auto simp: parsePrefix_def split: option.splits if_splits)
  moreover from this have "isValid ip" by (blast dest: parseAddr_valid)
  ultimately show ?thesis by (cases ip) (simp_all add: prefixFrom_def pfx_isValid_def)
qed

lemma masked6:
  assumes "pfx_isValid pfx" and "is6 (pfx_addr pfx)" and "pfx_bits pfx \<le> int (bitLen (pfx_addr pfx))"
  shows "pfx_isValid (pfx_masked pfx) \<and> is6 (pfx_addr (pfx_masked pfx))"
  using assms by (cases "pfx_addr pfx") (auto simp: pfx_masked_def prefixFrom_def pfx_isValid_def)

lemma subnet6_method:
  assumes inv: "parser_inv compile p" and r: "ipv6SubnetParam p op arg = Inr (idx, p')"
  shows "parser_inv compile p' \<and> extends p p' \<and> unat idx < length (it_vals (p_ipv6Subnets p')) \<and>
    denotes_subnet6 arg (it_vals (p_ipv6Subnets p') ! unat idx)"
proof -
  from r obtain a pfx t where "parsePrefix a = Some pfx" "is6 (pfx_addr pfx)"
      and d: "denotes_subnet6 arg (pfx_masked pfx)"
      and i: "intern (bytecodeName op) (pfx_masked pfx) (Inr (pfx_masked pfx)) (p_ipv6Subnets p) = Inr (idx, t)"
      and p': "p' = p\<lparr>p_ipv6Subnets := t\<rparr>"
    by (auto simp: ipv6SubnetParam_def ebind_eq_Inr Let_def denotes_subnet6_def
        dest!: requiredTextArg_Some split: option.splits if_splits)
  then have c: "pfx_isValid (pfx_masked pfx)" "is6 (pfx_addr (pfx_masked pfx))"
    using parsePrefix_valid [of a pfx] masked6 [of pfx] by simp_all
  have "itable_inv (\<lambda>k v. v = k \<and> pfx_isValid v \<and> is6 (pfx_addr v)) (p_ipv6Subnets p)"
    using inv by (simp add: parser_inv_def)
  from intern_inv [OF this i] inv p' c d show ?thesis by (simp add: parser_inv_def extends_def)
qed

interpretation ipv6Subnets: param_method compile ipv6SubnetParam "\<lambda>p. it_vals (p_ipv6Subnets p)" "denotes_subnet6" for compile
  by unfold_locales (rule subnet6_method)

lemma checkedUint8_bits: "checkedUint8 name v = Inr b \<Longrightarrow> v \<le> 32 \<Longrightarrow> b \<le> 32"
proof -
  assume c: "checkedUint8 name v = Inr b" and "v \<le> 32"
  then have "0 \<le> v" "b = of_int v" by (auto simp: checkedUint8_def split: if_splits)
  then obtain n where "v = int n" "b = of_nat n" by (metis nat_0_le of_int_of_nat_eq)
  with \<open>v \<le> 32\<close> show "b \<le> 32" by (simp add: word_le_nat_alt)
qed

lemma subnet4_method:
  assumes inv: "parser_inv compile p" and r: "ipv4SubnetParam p op arg = Inr (idx, p')"
  shows "parser_inv compile p' \<and> extends p p' \<and> unat idx < length (it_vals (p_ipv4Subnets p')) \<and>
    denotes_subnet4 arg (it_vals (p_ipv4Subnets p') ! unat idx)"
proof -
  from r obtain a pfx bits sn t where pfx: "parsePrefix a = Some pfx" "is4 (pfx_addr pfx)"
      "checkedUint8 (bytecodeName op) (pfx_bits pfx) = Inr bits"
      and sn: "sn = \<lparr>sn_addr = ipv4_value (pfx_addr (pfx_masked pfx)), sn_bits = bits\<rparr>"
      and i: "intern (bytecodeName op) sn (Inr sn) (p_ipv4Subnets p) = Inr (idx, t)"
      and p': "p' = p\<lparr>p_ipv4Subnets := t\<rparr>" and d: "denotes_subnet4 arg sn"
    by (auto simp: ipv4SubnetParam_def ebind_eq_Inr Let_def denotes_subnet4_def checkedUint8_def
        dest!: requiredTextArg_Some split: option.splits if_splits)
  from pfx(1,2) have "pfx_bits pfx \<le> 32"
    using parsePrefix_valid [of a pfx] by (cases "pfx_addr pfx") auto
  with checkedUint8_bits [OF pfx(3)] sn have c: "sn_bits sn \<le> 32" by simp
  have "itable_inv (\<lambda>k v. v = k \<and> sn_bits v \<le> 32) (p_ipv4Subnets p)"
    using inv by (simp add: parser_inv_def)
  from intern_inv [OF this i] inv p' c d show ?thesis by (simp add: parser_inv_def extends_def)
qed

interpretation ipv4Subnets: param_method compile ipv4SubnetParam "\<lambda>p. it_vals (p_ipv4Subnets p)" "denotes_subnet4" for compile
  by unfold_locales (rule subnet4_method)

lemma addSniff_method:
  assumes inv: "parser_inv compile p" and r: "addSniffClassifier p c = Inr (idx, p')"
  shows "parser_inv compile p' \<and> extends p p' \<and> unat idx < length (it_vals (p_sniff p'))"
proof -
  from r obtain name where n: "nc_factory c \<noteq> None" "it_index (p_sniff p) name = None"
      "nextTableIndex ''SNIFF'' (length (it_vals (p_sniff p))) = Inr idx"
    and p': "p' = p\<lparr>p_sniff := \<lparr>it_vals = it_vals (p_sniff p) @ [c\<lparr>nc_name := name\<rparr>],
        it_index = (it_index (p_sniff p))(name := Some idx)\<rparr>\<rparr>"
    by (auto simp: addSniffClassifier_def ebind_eq_Inr split: if_splits)
  have "itable_inv (\<lambda>k v. nc_name v = k \<and> nc_factory v \<noteq> None) (p_sniff p)"
    using inv by (simp add: parser_inv_def)
  from itable_insert [OF this n(2) _ n(3), of "c\<lparr>nc_name := name\<rparr>"] n(1) inv p' show ?thesis
    by (auto simp: parser_inv_def extends_def grows_def intro: less_SucI)
qed

lemma share_method:
  assumes inv: "parser_inv compile p" and r: "shareSniffSpec p key f = Inr (idx, p')"
  shows "parser_inv compile p' \<and> extends p p' \<and> unat idx < length (it_vals (p_sniff p'))"
proof (cases "p_sniffSpecIndex p key")
  case (Some i)
  with r inv show ?thesis by (simp add: shareSniffSpec_def parser_inv_def)
next
  case None
  with r obtain name q where q: "addSniffClassifier p \<lparr>nc_name = name, nc_factory = f\<rparr> = Inr (idx, q)"
      "p' = q\<lparr>p_sniffSpecIndex := (p_sniffSpecIndex q)(key := Some idx)\<rparr>"
    by (auto simp: shareSniffSpec_def split: option.splits sum.splits)
  from addSniff_method [OF inv q(1)] q(2) show ?thesis by (simp add: parser_inv_def extends_def)
qed

lemma construct_method:
  assumes inv: "parser_inv compile p" and r: "constructSniffClassifier p a = Inr (idx, p')"
  shows "parser_inv compile p' \<and> extends p p' \<and> unat idx < length (it_vals (p_sniff p'))"
proof -
  from r obtain name os where 1: "parseSniffClassifierSpec a = Inr (name, os)"
    by (cases "parseSniffClassifierSpec a") (auto simp: constructSniffClassifier_def)
  with r obtain c where 2: "p_sniffConstructors p name = Some c"
    by (cases "p_sniffConstructors p name") (auto simp: constructSniffClassifier_def)
  with r 1 obtain canonical f where "c os = Inr (canonical, f)"
    by (cases "c os") (auto simp: constructSniffClassifier_def)
  with r 1 2 obtain key where "shareSniffSpec p key f = Inr (idx, p')"
    by (auto simp: constructSniffClassifier_def Let_def split: if_splits)
  with inv show ?thesis by (rule share_method)
qed

lemma sniff_method:
  assumes inv: "parser_inv compile p" and r: "sniffParam p op arg = Inr (idx, p')"
  shows "parser_inv compile p' \<and> extends p p' \<and> unat idx < length (it_vals (p_sniff p'))"
proof -
  from r obtain a name where "it_index (p_sniff p) name = Some idx \<and> p' = p \<or>
      constructSniffClassifier p a = Inr (idx, p')"
    by (auto simp: sniffParam_def ebind_eq_Inr split: option.splits sum.splits)
  then show ?thesis
  proof (elim disjE conjE)
    assume "it_index (p_sniff p) name = Some idx" "p' = p"
    with inv itable_inv_lookup [of "\<lambda>k v. nc_name v = k \<and> nc_factory v \<noteq> None" "p_sniff p" name idx]
    show ?thesis by (simp add: parser_inv_def)
  qed (rule construct_method [OF inv])
qed

lemma sniff_entries:
  assumes "parser_inv compile p" and "unat idx < length (it_vals (p_sniff p))"
  shows "nc_factory (it_vals (p_sniff p) ! unat idx) \<noteq> None"
proof -
  have "itable_inv (\<lambda>k v. nc_name v = k \<and> nc_factory v \<noteq> None) (p_sniff p)"
    using assms(1) by (simp add: parser_inv_def)
  from itable_inv_all [OF this nth_mem [OF assms(2)]] show ?thesis by blast
qed

interpretation sniffs: param_method compile sniffParam "\<lambda>p. it_vals (p_sniff p)" "denotes_sniff" for compile
proof unfold_locales
  fix p p' :: "('a, 'b) parser" and op arg idx
  assume "parser_inv compile p" and "sniffParam p op arg = Inr (idx, p')"
  from sniff_method [OF this] sniff_entries [of compile p' idx]
  show "parser_inv compile p' \<and> extends p p' \<and> unat idx < length (it_vals (p_sniff p')) \<and>
      denotes_sniff arg (it_vals (p_sniff p') ! unat idx)"
    by (simp add: denotes_sniff_def)
qed

end
