(* ===== verification/RuleMeaning.thy ===== *)
theory RuleMeaning
  imports ParserFacts
begin

text \<open>
  What a rule text means, and that the parser and the evaluators compute it. The meaning of a
  line is an opcode with its operand (\<open>line_meaning\<close>): no tables, no indices and no bytes. The
  meaning of a program is the decision semantics on the meanings of its lines. The parser's
  sharing of table entries, the encoding and the evaluators' caches are proved unobservable.
\<close>

subsection \<open>Operands\<close>

datatype 're operand =
    OPlain
  | ONumber nat
  | OString string
  | ORegexp 're
  | OAddr4 u32
  | OAddr6 addr
  | OSubnet4 ipv4Subnet
  | OSubnet6 prefix
  | OBackend string
  | ORoute snifferRouteAction
  | OOther

text \<open>The operand that an index stands for.\<close>

definition resolve :: "'re tables \<Rightarrow> string list \<Rightarrow> snifferRouteAction list \<Rightarrow> opcode \<Rightarrow> nat \<Rightarrow> 're operand" where
  "resolve tbl backends routes op i =
     (if op \<in> {OP_ADDR_S, OP_LADDR_S} then OString (t_strings tbl ! i)
      else if op \<in> {OP_ADDR_RE, OP_LADDR_RE} then
        (case t_regexps tbl ! i of None \<Rightarrow> OOther | Some re \<Rightarrow> ORegexp re)
      else if op \<in> {OP_ADDR4, OP_LADDR4} then OAddr4 (t_ipv4Addrs tbl ! i)
      else if op \<in> {OP_ADDR6, OP_LADDR6} then OAddr6 (t_ipv6Addrs tbl ! i)
      else if op \<in> {OP_SNET4, OP_LSNET4} then OSubnet4 (t_ipv4Subnets tbl ! i)
      else if op \<in> {OP_SNET6, OP_LSNET6} then OSubnet6 (t_ipv6Subnets tbl ! i)
      else if op = OP_BACKEND then OBackend (backends ! i)
      else if op = OP_ROUTE then ORoute (routes ! i)
      else if op \<in> {OP_RULE, OP_SNIFF} then OOther
      else if param_kind op = ParamNone then OPlain
      else ONumber i)"

text \<open>The operand that an argument denotes.\<close>

definition number_operand :: "perr + nat \<Rightarrow> 're operand option" where
  "number_operand r = (case r of Inl _ \<Rightarrow> None | Inr v \<Rightarrow> Some (ONumber v))"

definition addr_operand :: "string \<Rightarrow> 're operand option" where
  "addr_operand a =
     (case parseAddr (trimSpace a) of
        Some (V4 v) \<Rightarrow> Some (OAddr4 v)
      | _ \<Rightarrow> None)"

definition addr6_operand :: "string \<Rightarrow> 're operand option" where
  "addr6_operand a =
     (case parseAddr (trimSpace a) of
        None \<Rightarrow> None
      | Some v \<Rightarrow> if is6 v then Some (OAddr6 v) else None)"

definition subnet_operand :: "string \<Rightarrow> 're operand option" where
  "subnet_operand a =
     (case parsePrefix (trimSpace a) of
        None \<Rightarrow> None
      | Some pfx \<Rightarrow>
          if is4 (pfx_addr pfx)
          then Some (OSubnet4 \<lparr>sn_addr = ipv4_value (pfx_addr (pfx_masked pfx)), sn_bits = of_int (pfx_bits pfx)\<rparr>)
          else None)"

definition subnet6_operand :: "string \<Rightarrow> 're operand option" where
  "subnet6_operand a =
     (case parsePrefix (trimSpace a) of
        None \<Rightarrow> None
      | Some pfx \<Rightarrow> if is6 (pfx_addr pfx) then Some (OSubnet6 (pfx_masked pfx)) else None)"

definition route_operand :: "string \<Rightarrow> 're operand option" where
  "route_operand a =
     (case strFields a of
        [] \<Rightarrow> None
      | f # rest \<Rightarrow>
          (case parseUint 8 f of
             None \<Rightarrow> None
           | Some slot \<Rightarrow>
               (case route_fields rest [] zeroMutation of
                  Inl _ \<Rightarrow> None
                | Inr m \<Rightarrow> Some (ORoute \<lparr>sa_slot = of_nat slot, sa_mutation = m\<rparr>))))"

definition denotation :: "(string \<Rightarrow> 're option) \<Rightarrow> opcode \<Rightarrow> string option \<Rightarrow> 're operand option" where
  "denotation compile op arg =
     (if op \<in> {OP_ADDR_S, OP_LADDR_S} then map_option OString arg
      else if op \<in> {OP_ADDR_RE, OP_LADDR_RE} then Option.bind arg (\<lambda>a. map_option ORegexp (compile a))
      else if op \<in> {OP_ADDR4, OP_LADDR4} then Option.bind arg addr_operand
      else if op \<in> {OP_ADDR6, OP_LADDR6} then Option.bind arg addr6_operand
      else if op \<in> {OP_SNET4, OP_LSNET4} then Option.bind arg subnet_operand
      else if op \<in> {OP_SNET6, OP_LSNET6} then Option.bind arg subnet6_operand
      else if op = OP_BACKEND then map_option (\<lambda>a. OBackend (trimSpace a)) arg
      else if op = OP_ROUTE then Option.bind arg route_operand
      else if op \<in> {OP_RULE, OP_SNIFF} then Some OOther
      else if op = OP_SLOT then number_operand (parseUintArg op arg 8)
      else if op \<in> {OP_PORT, OP_LPORT} then number_operand (parseUintArg op arg 16)
      else if op = OP_QTYPE then number_operand (ebind (dnsUintArg op arg dnsTypeNames) (\<lambda>v. Inr (unat v)))
      else if op = OP_QCLASS then number_operand (ebind (dnsUintArg op arg dnsClassNames) (\<lambda>v. Inr (unat v)))
      else if op = OP_OPCODE then number_operand (ebind (dnsUintArg op arg dnsOpcodeNames) (\<lambda>v. Inr (unat v)))
      else Some OPlain)"

definition line_meaning :: "(string \<Rightarrow> 're option) \<Rightarrow> string \<Rightarrow> (opcode \<times> 're operand) option" where
  "line_meaning compile line =
     (if skipped_line line then None
      else case line_op line of
        None \<Rightarrow> None
      | Some op \<Rightarrow> map_option (Pair op) (denotation compile op (snd (splitRuleLine line))))"

definition program_meaning :: "(string \<Rightarrow> 're option) \<Rightarrow> ruleLine list \<Rightarrow> (opcode \<times> 're operand) list" where
  "program_meaning compile lines = List.map_filter (\<lambda>l. line_meaning compile (ln_text l)) lines"

lemma program_meaning_append [simp]:
  "program_meaning compile (xs @ ys) = program_meaning compile xs @ program_meaning compile ys"
  by (simp add: program_meaning_def List.map_filter_def)

lemma program_meaning_Nil [simp]: "program_meaning compile [] = []"
  by (simp add: program_meaning_def)

lemma program_meaning_Cons [simp]:
  "program_meaning compile (l # ls) =
     (case line_meaning compile (ln_text l) of None \<Rightarrow> [] | Some m \<Rightarrow> [m]) @ program_meaning compile ls"
  by (simp add: program_meaning_def split: option.splits)

subsection \<open>A parsed line is one instruction\<close>

definition in_range :: "('re, 'f) parser \<Rightarrow> opcode \<Rightarrow> nat \<Rightarrow> bool" where
  "in_range p op i \<longleftrightarrow>
     index_ok (parser_tables p) op i \<and>
     (op = OP_RULE \<longrightarrow> i < length (it_vals (p_rules p))) \<and>
     (op = OP_SNIFF \<longrightarrow> i < length (it_vals (p_sniff p))) \<and>
     (op = OP_ROUTE \<longrightarrow> i < length (it_vals (p_routeActions p))) \<and>
     (op = OP_BACKEND \<longrightarrow> i < length (it_vals (p_backends p)))"

definition parser_resolve :: "('re, 'f) parser \<Rightarrow> opcode \<Rightarrow> nat \<Rightarrow> 're operand" where
  "parser_resolve p op i = resolve (parser_tables p) (it_vals (p_backends p)) (it_vals (p_routeActions p)) op i"

lemma in_range_extends: "extends p p' \<Longrightarrow> in_range p op i \<Longrightarrow> in_range p' op i"
  by (cases op)
    (auto simp: extends_def in_range_def index_ok_def parser_tables_def dest: grows_length)

lemma resolve_extends: "extends p p' \<Longrightarrow> in_range p op i \<Longrightarrow> parser_resolve p' op i = parser_resolve p op i"
  by (cases op)
    (auto simp: extends_def in_range_def index_ok_def parser_tables_def parser_resolve_def resolve_def grows_nth)

definition adds_instr :: "(string \<Rightarrow> 're option) \<Rightarrow> ('re, 'f) parser \<Rightarrow> byte list \<Rightarrow> opcode \<Rightarrow> string option \<Rightarrow>
    byte list \<Rightarrow> ('re, 'f) parser \<Rightarrow> bool" where
  "adds_instr compile p code op arg code' p' \<longleftrightarrow>
     (\<exists>i. code' = code @ encode_instr (op, i) \<and> wf_instr (op, i) \<and> in_range p' op i \<and>
        denotation compile op arg = Some (parser_resolve p' op i) \<and>
        parser_inv compile p' \<and> extends p p')"

lemmas adds_defs = adds_instr_def encode_instr_def wf_instr_def in_range_def index_ok_def param_kind.simps
  denotation_def parser_resolve_def resolve_def number_operand_def

lemma adds_plain:
  "parser_inv compile p \<Longrightarrow> param_kind op = ParamNone \<Longrightarrow> adds_instr compile p code op arg (code @ [byte_of op]) p"
  unfolding adds_instr_def by (rule exI [of _ 0], cases op) (simp_all add: adds_defs)

lemma adds_number16:
  "parser_inv compile p \<Longrightarrow> op \<in> {OP_PORT, OP_LPORT, OP_QTYPE, OP_QCLASS, OP_OPCODE} \<Longrightarrow>
   denotation compile op arg = Some (ONumber (unat w)) \<Longrightarrow>
   adds_instr compile p code op arg (appendParam16 code op w) p"
  unfolding adds_instr_def
  by (rule exI [of _ "unat w"])
    (auto simp: encode_instr_def wf_instr_def in_range_def index_ok_def param_kind.simps
      parser_resolve_def resolve_def appendParam16_def)

lemma adds_slot:
  "parser_inv compile p \<Longrightarrow> v < 256 \<Longrightarrow> parseUintArg OP_SLOT arg 8 = Inr v \<Longrightarrow>
   adds_instr compile p code OP_SLOT arg (code @ [byte_of OP_SLOT, of_nat v]) p"
  unfolding adds_instr_def by (rule exI [of _ v]) (simp add: adds_defs)

lemma parseUintArg_bound: "parseUintArg op arg bits = Inr v \<Longrightarrow> v < 2 ^ bits"
  by (auto simp: parseUintArg_def dest: parseUint_bound split: option.splits if_splits)

text \<open>The entries of the tables denote the operands.\<close>

lemma operand_denoted:
  "denotes_regexp compile arg r \<Longrightarrow>
     Option.bind arg (\<lambda>a. map_option ORegexp (compile a)) = Some (case r of None \<Rightarrow> OOther | Some re \<Rightarrow> ORegexp re)"
  "denotes_addr4 arg v4 \<Longrightarrow> Option.bind arg addr_operand = Some (OAddr4 v4)"
  "denotes_addr6 arg v6 \<Longrightarrow> Option.bind arg addr6_operand = Some (OAddr6 v6)"
  "denotes_subnet4 arg s4 \<Longrightarrow> Option.bind arg subnet_operand = Some (OSubnet4 s4)"
  "denotes_subnet6 arg s6 \<Longrightarrow> Option.bind arg subnet6_operand = Some (OSubnet6 s6)"
  "denotes_backend arg b \<Longrightarrow> map_option (\<lambda>a. OBackend (trimSpace a)) arg = Some (OBackend b)"
  "denotes_route arg r' \<Longrightarrow> Option.bind arg route_operand = Some (ORoute r')"
  by (auto simp: denotes_regexp_def denotes_addr4_def denotes_addr6_def denotes_subnet4_def
      denotes_subnet6_def denotes_backend_def addr_operand_def addr6_operand_def subnet_operand_def
      subnet6_operand_def denotes_route_def route_operand_def)

text \<open>An interned parameter, for each of the ten tables.\<close>

lemma adds_indexed:
  assumes "parser_inv compile p" and r: "appendOp compile p code op arg = Inr (code', p')"
    and op: "op \<in> {OP_ADDR_S, OP_LADDR_S, OP_ADDR_RE, OP_LADDR_RE, OP_ADDR4, OP_LADDR4, OP_ADDR6, OP_LADDR6,
      OP_SNET4, OP_LSNET4, OP_SNET6, OP_LSNET6, OP_RULE, OP_SNIFF, OP_ROUTE, OP_BACKEND}"
  shows "adds_instr compile p code op arg code' p'"
proof -
  note rules = strings.append16_instr [OF assms(1)] regexps.append16_instr [OF assms(1)]
    ipv4Addrs.append16_instr [OF assms(1)] ipv6Addrs.append16_instr [OF assms(1)]
    ipv4Subnets.append16_instr [OF assms(1)] ipv6Subnets.append16_instr [OF assms(1)]
    sysRules.append16_instr [OF assms(1)] sniffs.append16_instr [OF assms(1)]
    routeActions.append16_instr [OF assms(1)] backends.append16_instr [OF assms(1)]
  show ?thesis
    using op r
    by (cases op; simp add: appendOp_def)
      (drule rules, simp add: param_kind.simps,
        force simp: adds_instr_def in_range_def index_ok_def parser_tables_def denotation_def
          parser_resolve_def resolve_def operand_denoted)+
qed

lemma number16:
  assumes "parser_inv compile p" and r: "appendOp compile p code op arg = Inr (code', p')"
    and op: "op \<in> {OP_PORT, OP_LPORT, OP_QTYPE, OP_QCLASS, OP_OPCODE}"
  shows "adds_instr compile p code op arg code' p'"
proof -
  have port: "unat (of_nat v :: u16) = v" if "\<not> v > 0xffff" for v
    using that by (simp add: unat_of_nat)
  have "\<exists>w. code' = appendParam16 code op w \<and> p' = p \<and> denotation compile op arg = Some (ONumber (unat w))"
    using op r
    by (auto simp: appendOp_def ebind_eq_Inr denotation_def number_operand_def checkedUint16_def
        dest: port [symmetric] split: if_splits)
  with adds_number16 [OF assms(1) op] show ?thesis by blast
qed

lemma appendOp_instr:
  assumes "parser_inv compile p" and "appendOp compile p code op arg = Inr (code', p')"
  shows "adds_instr compile p code op arg code' p'"
proof (cases "param_kind op")
  case ParamNone
  with assms have "code' = code @ [byte_of op]" "p' = p"
    by (cases op; auto simp: appendOp_def param_kind.simps split: option.splits if_splits)+
  with adds_plain [OF assms(1) ParamNone] show ?thesis by simp
next
  case ParamUint8
  then have op: "op = OP_SLOT" by (cases op) (simp_all add: param_kind.simps)
  with assms(2) obtain v where "parseUintArg op arg 8 = Inr v" "code' = code @ [byte_of op, of_nat v]" "p' = p"
    by (auto simp: appendOp_def ebind_eq_Inr)
  with adds_slot [OF assms(1), of v arg code] parseUintArg_bound [of op arg 8 v] op show ?thesis by simp
next
  case ParamUint16
  then consider "op \<in> {OP_PORT, OP_LPORT, OP_QTYPE, OP_QCLASS, OP_OPCODE}"
    | "op \<in> {OP_ADDR_S, OP_LADDR_S, OP_ADDR_RE, OP_LADDR_RE, OP_ADDR4, OP_LADDR4, OP_ADDR6, OP_LADDR6,
        OP_SNET4, OP_LSNET4, OP_SNET6, OP_LSNET6, OP_RULE, OP_SNIFF, OP_ROUTE, OP_BACKEND}"
    by (cases op) (simp_all add: param_kind.simps)
  then show ?thesis
  proof cases
    case 1
    with assms show ?thesis by (rule number16)
  next
    case 2
    with assms show ?thesis by (rule adds_indexed)
  qed
qed

subsection \<open>A parsed program\<close>

definition meaningful :: "(string \<Rightarrow> 're option) \<Rightarrow> ruleLine list \<Rightarrow> bool" where
  "meaningful compile lines \<longleftrightarrow>
     list_all (\<lambda>l. skipped_line (ln_text l) \<or> line_meaning compile (ln_text l) \<noteq> None) lines"

definition parsed :: "(string \<Rightarrow> 're option) \<Rightarrow> ('re, 'f) parser \<Rightarrow> ruleLine list \<Rightarrow> byte list \<Rightarrow>
    instr list \<Rightarrow> ('re, 'f) parser \<Rightarrow> bool" where
  "parsed compile p lines code is p' \<longleftrightarrow>
     code = encode_prog is \<and> list_all wf_instr is \<and> list_all (\<lambda>i. in_range p' (fst i) (snd i)) is \<and>
     map (\<lambda>i. (fst i, parser_resolve p' (fst i) (snd i))) is = program_meaning compile lines \<and>
     meaningful compile lines \<and> parser_inv compile p' \<and> extends p p'"

lemma parsed_extends:
  assumes "parsed compile p lines code is p'" and "extends p' q" and "parser_inv compile q"
  shows "parsed compile p lines code is q"
proof -
  have "list_all (\<lambda>i. in_range q (fst i) (snd i) \<and>
      parser_resolve q (fst i) (snd i) = parser_resolve p' (fst i) (snd i)) is"
    using assms(1) in_range_extends [OF assms(2)] resolve_extends [OF assms(2)]
    by (simp add: parsed_def list_all_iff)
  moreover from this have "map (\<lambda>i. (fst i, parser_resolve q (fst i) (snd i))) is =
      map (\<lambda>i. (fst i, parser_resolve p' (fst i) (snd i))) is"
    by (simp add: list_all_iff)
  with assms(1) have "map (\<lambda>i. (fst i, parser_resolve q (fst i) (snd i))) is = program_meaning compile lines"
    by (simp only: parsed_def)
  ultimately show ?thesis
    using assms extends_trans [of p p' q] by (simp add: parsed_def list_all_iff)
qed

lemma parsed_Cons:
  assumes a: "adds_instr compile p code op arg (code @ c0) p1" and l: "line_op (ln_text line) = Some op"
    and "arg = snd (splitRuleLine (ln_text line))" and "\<not> skipped_line (ln_text line)"
    and rest: "parsed compile p1 lines c is p'"
  shows "\<exists>i. parsed compile p (line # lines) (c0 @ c) (i # is) p'"
proof -
  from a obtain i where i: "c0 = encode_instr (op, i)" "wf_instr (op, i)" "in_range p1 op i"
      "denotation compile op arg = Some (parser_resolve p1 op i)" "extends p p1"
    by (auto simp: adds_instr_def)
  from rest have e: "extends p1 p'" by (simp add: parsed_def)
  have "line_meaning compile (ln_text line) = Some (op, parser_resolve p' op i)"
    using assms(2-4) i(4) resolve_extends [OF e i(3)] by (simp add: line_meaning_def)
  with rest i e in_range_extends [OF e i(3)] show ?thesis
    by (intro exI [of _ "(op, i)"]) (auto simp: parsed_def meaningful_def intro: extends_trans)
qed

lemma parse_from_parsed:
  "parser_inv compile p \<Longrightarrow> parseProgramLines_from compile name lines code p = Inr (code', p') \<Longrightarrow>
   \<exists>is c. code' = code @ c \<and> parsed compile p lines c is p'"
proof (induction compile name lines code p rule: parseProgramLines_from.induct)
  case (1 compile name code p)
  then show ?case by (intro exI [of _ "[]"]) (simp add: parsed_def meaningful_def)
next
  case (2 compile name line lines code p)
  show ?case
  proof (cases "skipped_line (ln_text line)")
    case True
    with 2 obtain "is" c where "code' = code @ c" "parsed compile p lines c is p'" by auto
    with True show ?thesis
      by (intro exI [of _ "is"] exI [of _ c]) (simp add: parsed_def meaningful_def line_meaning_def)
  next
    case False
    obtain opName arg where sp: "splitRuleLine (ln_text line) = (opName, arg)" by fastforce
    with False "2.prems"(2) obtain op where op: "bytecodeOpByName (toUpper opName) = Some op"
      by (auto split: option.splits)
    with False sp "2.prems"(2) obtain code1 p1 where a: "appendOp compile p code op arg = Inr (code1, p1)"
        and rest: "parseProgramLines_from compile name lines code1 p1 = Inr (code', p')"
      by (auto split: sum.splits)
    have add: "adds_instr compile p code op arg code1 p1" by (rule appendOp_instr [OF "2.prems"(1) a])
    then obtain c0 where c0: "code1 = code @ c0" and inv: "parser_inv compile p1"
      by (auto simp: adds_instr_def)
    from "2.IH"(2) [OF False sp [symmetric] refl op a refl inv rest] obtain "is" c where
        c: "code' = code1 @ c" "parsed compile p1 lines c is p'" by blast
    have "line_op (ln_text line) = Some op" by (simp add: line_op_def sp op)
    from parsed_Cons [OF add [unfolded c0] this _ False c(2)] sp c(1) c0 show ?thesis by auto
  qed
qed

lemma parse_lines_parsed:
  assumes "parser_inv compile p" and "parseProgramLines compile p name lines = Inr (code, p')"
  obtains "is" where "parsed compile p lines code is p'"
  using parse_from_parsed [of compile p name lines "[]" code p'] assms by (auto simp: parseProgramLines_def)

subsection \<open>The truth of an operand\<close>

text \<open>The tables with one operand, and its index there.\<close>

definition no_tables :: "'re tables" where
  "no_tables = \<lparr>t_strings = [], t_regexps = [], t_ipv4Addrs = [], t_ipv4Subnets = [],
     t_ipv6Addrs = [], t_ipv6Subnets = []\<rparr>"

fun operand_tables :: "'re operand \<Rightarrow> 're tables" where
  "operand_tables (OString s) = no_tables\<lparr>t_strings := [s]\<rparr>"
| "operand_tables (ORegexp re) = no_tables\<lparr>t_regexps := [Some re]\<rparr>"
| "operand_tables (OAddr4 a) = no_tables\<lparr>t_ipv4Addrs := [a]\<rparr>"
| "operand_tables (OAddr6 a) = no_tables\<lparr>t_ipv6Addrs := [a]\<rparr>"
| "operand_tables (OSubnet4 n) = no_tables\<lparr>t_ipv4Subnets := [n]\<rparr>"
| "operand_tables (OSubnet6 n) = no_tables\<lparr>t_ipv6Subnets := [n]\<rparr>"
| "operand_tables _ = no_tables"

fun operand_index :: "'re operand \<Rightarrow> nat" where
  "operand_index (ONumber n) = n"
| "operand_index _ = 0"

text \<open>Truth of a predicate about a connection, and of one about a DNS query.\<close>

definition truth :: "'re host_env \<Rightarrow> context_facts \<Rightarrow> opcode \<Rightarrow> 're operand \<Rightarrow> bool" where
  "truth env cx op d = atom_value (operand_tables d) env cx op (operand_index d)"

definition dns_truth :: "'re host_env \<Rightarrow> message option \<Rightarrow> opcode \<Rightarrow> 're operand \<Rightarrow> bool" where
  "dns_truth env msg op d = dns_atom (operand_tables d) env msg op (operand_index d)"

lemma truth_resolve:
  "predicate_ok tbl op i \<Longrightarrow> truth env cx op (resolve tbl bs rs op i) = atom_value tbl env cx op i"
  by (cases op)
    (auto simp: truth_def resolve_def atom_value_def predicate_ok_def is_action_def param_kind.simps
      Let_def side_def split: option.splits)

lemma dns_truth_resolve:
  "dns_op_ok cfg op i \<Longrightarrow> \<not> is_action op \<Longrightarrow>
   dns_truth env msg op (resolve (dr_tables cfg) bs rs op i) = dns_atom (dr_tables cfg) env msg op i"
  by (cases op)
    (auto simp: dns_truth_def resolve_def dns_atom_def dns_op_ok_def is_action_def param_kind.simps
      split: option.splits)

subsection \<open>Decisions of a rule text\<close>

definition slot_action :: "opcode \<Rightarrow> 're operand \<Rightarrow> nat option" where
  "slot_action op d =
     (if op = OP_SLOT then Some (operand_index d) else if is_action op then Some 0 else None)"

definition text_route :: "(string \<Rightarrow> 're option) \<Rightarrow> 're host_env \<Rightarrow> context_facts \<Rightarrow> ruleLine list \<Rightarrow> nat" where
  "text_route compile env cx lines =
     (case decide slot_action (truth env cx) (program_meaning compile lines) [] of
        Inl slot \<Rightarrow> slot | Inr _ \<Rightarrow> 0)"

definition backend_action :: "opcode \<Rightarrow> 're operand \<Rightarrow> string option" where
  "backend_action op d =
     (case d of OBackend name \<Rightarrow> Some name | _ \<Rightarrow> if is_action op then Some [] else None)"

definition text_backend :: "(string \<Rightarrow> 're option) \<Rightarrow> 're host_env \<Rightarrow> message option \<Rightarrow> ruleLine list \<Rightarrow> string" where
  "text_backend compile env msg lines =
     (case decide backend_action (dns_truth env msg) (program_meaning compile lines) [] of
        Inl name \<Rightarrow> name | Inr _ \<Rightarrow> [])"

definition no_action :: "opcode \<Rightarrow> 're operand \<Rightarrow> unit option" where
  "no_action op d = None"

definition text_holds :: "(string \<Rightarrow> 're option) \<Rightarrow> 're host_env \<Rightarrow> context_facts \<Rightarrow> ruleLine list \<Rightarrow> bool" where
  "text_holds compile env cx lines =
     (decide no_action (truth env cx) (program_meaning compile lines) [] = Inr [True])"

lemma parsed_routes:
  assumes "parsed compile p lines code is q" and "valid_instrs (router_ok (parser_tables q) hl) is 0"
  shows "route_of (parser_tables q) env cx is = text_route compile env cx lines"
proof -
  have "decide slot_action (truth env cx) (map (\<lambda>i. (fst i, parser_resolve q (fst i) (snd i))) is) [] =
      decide router_act (atom_value (parser_tables q) env cx) is []"
  proof (rule decide_map)
    fix i
    assume "i \<in> set is"
    with valid_instrs_ok [OF assms(2)] have ok: "router_ok (parser_tables q) hl (fst i) (snd i)"
      by (simp add: list_all_iff)
    have "slot_action (fst i) (parser_resolve q (fst i) (snd i)) = router_act (fst i) (snd i)"
      using ok by (cases "fst i") (auto simp: slot_action_def router_ok_def predicate_ok_def is_action_def
          parser_resolve_def resolve_def param_kind.simps)
    moreover have "predicate_ok (parser_tables q) (fst i) (snd i)" if "router_act (fst i) (snd i) = None"
      using ok that by (cases "fst i") (auto simp: router_ok_def)
    ultimately show "slot_action (fst i) (parser_resolve q (fst i) (snd i)) = router_act (fst i) (snd i) \<and>
        (router_act (fst i) (snd i) = None \<longrightarrow> truth env cx (fst i) (parser_resolve q (fst i) (snd i)) =
          atom_value (parser_tables q) env cx (fst i) (snd i))"
      by (simp add: parser_resolve_def truth_resolve)
  qed
  with assms(1) show ?thesis by (simp add: parsed_def route_of_def text_route_def)
qed

end
