(* ===== verification/RulePrograms.thy ===== *)
theory RulePrograms
  imports RuleMeaning
begin

text \<open>
  The constructors of \<^verbatim>\<open>src/routing/parser.go\<close> from rule text to running rules: what they return
  routes as the text says (\<open>text_route\<close>, \<open>text_backend\<close>, \<open>text_holds\<close>).
\<close>

subsection \<open>From parsed programs to router configurations\<close>

lemma accept_router_rules_cases:
  "accept_router_rules rules \<noteq> Panic \<and>
   (accept_router_rules rules = Done (Inr rules') \<longleftrightarrow>
      rules' = rules \<and> (\<exists>cfg. newBytecodeRouterCfg rules = Done (Inr cfg)))"
  using constructor_total [of rules]
  by (cases "newBytecodeRouterCfg rules") (auto simp: accept_router_rules_def split: sum.splits)

text \<open>A call on accepted rules whose program was parsed from \<open>lines\<close>.\<close>

lemma parsed_call:
  assumes "newBytecodeRouterCfg rules = Done (Inr cfg)" and "br_tables rules = parser_tables q"
    and "parsed compile p lines (call_code rules call) is q"
  shows "router_run cfg env call =
    Done (text_route compile env (call_facts (br_dnsCacheStorage rules) call) lines)"
  using assms(1)
proof (rule router_run_route [of rules cfg call env])
  fix is' hl
  assume c: "call_code rules call = encode_prog is'" "list_all wf_instr is'"
    "valid_instrs (router_ok (br_tables rules) hl) is' 0"
    and r: "router_run cfg env call =
      Done (route_of (br_tables rules) env (call_facts (br_dnsCacheStorage rules) call) is')"
  from assms(3) have "call_code rules call = encode_prog is" "list_all wf_instr is"
    by (simp_all add: parsed_def)
  with c(1,2) have "is = is'" by (metis decode_encode)
  with parsed_routes [OF assms(3)] c(3) r assms(2) show ?thesis by simp
qed

text \<open>The text of the program that a call runs.\<close>

fun call_text :: "string \<Rightarrow> string \<Rightarrow> string \<Rightarrow> string \<Rightarrow> string \<Rightarrow> router_call \<Rightarrow> string" where
  "call_text dt lt du ru lk (CallDialTCP nw la ra) = dt"
| "call_text dt lt du ru lk (CallListenTCP nw la) = lt"
| "call_text dt lt du ru lk (CallDialUDP nw la ra) = du"
| "call_text dt lt du ru lk (CallRouteUDP nw la ra) = ru"
| "call_text dt lt du ru lk (CallLookup nw ra) = lk"

lemma parseProgram_parsed:
  assumes "parser_inv compile p" and "parseProgram compile p name src = Inr (code, p')"
  obtains "is" where "parsed compile p (splitBytecodeRuleLines src) code is p'"
    and "parser_inv compile p'" and "extends p p'"
proof -
  obtain "is" where "parsed compile p (splitBytecodeRuleLines src) code is p'"
    using parse_lines_parsed [OF assms(1)] assms(2) unfolding parseProgram_def by blast
  with that [OF this] show thesis by (simp add: parsed_def)
qed

lemma five_parsed:
  fixes compile :: "string \<Rightarrow> 're option"
  assumes "newBytecodeRules compile dt lt du ru lk = Done (Inr rules)"
  obtains q :: "('re, unit) parser" where "br_tables rules = parser_tables q" and "br_dnsCacheStorage rules = None"
    and "\<And>call. \<exists>p is. parsed compile p (splitBytecodeRuleLines (call_text dt lt du ru lk call))
      (call_code rules call) is q"
proof -
  let ?p0 = "newBytecodeParser :: ('re, unit) parser"
  from assms obtain c1 c2 c3 c4 c5 p1 p2 p3 p4 p5 where
      r: "parseProgram compile ?p0 ''DialTCP'' dt = Inr (c1, p1)"
      "parseProgram compile p1 ''ListenTCP'' lt = Inr (c2, p2)"
      "parseProgram compile p2 ''DialUDP'' du = Inr (c3, p3)"
      "parseProgram compile p3 ''RouteUDP'' ru = Inr (c4, p4)"
      "parseProgram compile p4 ''Lookup'' lk = Inr (c5, p5)"
      "accept_router_rules (router_rules p5 c1 c2 c3 c4 c5) = Done (Inr rules)"
    by (auto simp: newBytecodeRules_def ebind_eq_Inr split: sum.splits)
  then have rules: "rules = router_rules p5 c1 c2 c3 c4 c5" using accept_router_rules_cases by blast
  obtain i1 where i1: "parsed compile ?p0 (splitBytecodeRuleLines dt) c1 i1 p1" "parser_inv compile p1"
    by (rule parseProgram_parsed [OF newBytecodeParser_inv r(1)])
  obtain i2 where i2: "parsed compile p1 (splitBytecodeRuleLines lt) c2 i2 p2" "parser_inv compile p2" "extends p1 p2"
    by (rule parseProgram_parsed [OF i1(2) r(2)])
  obtain i3 where i3: "parsed compile p2 (splitBytecodeRuleLines du) c3 i3 p3" "parser_inv compile p3" "extends p2 p3"
    by (rule parseProgram_parsed [OF i2(2) r(3)])
  obtain i4 where i4: "parsed compile p3 (splitBytecodeRuleLines ru) c4 i4 p4" "parser_inv compile p4" "extends p3 p4"
    by (rule parseProgram_parsed [OF i3(2) r(4)])
  obtain i5 where i5: "parsed compile p4 (splitBytecodeRuleLines lk) c5 i5 p5" "parser_inv compile p5" "extends p4 p5"
    by (rule parseProgram_parsed [OF i4(2) r(5)])
  have e3: "extends p3 p5" by (rule extends_trans [OF i4(3) i5(3)])
  have e2: "extends p2 p5" by (rule extends_trans [OF i3(3) e3])
  have e1: "extends p1 p5" by (rule extends_trans [OF i2(3) e2])
  have "\<exists>p is. parsed compile p (splitBytecodeRuleLines (call_text dt lt du ru lk call)) (call_code rules call) is p5"
    for call
    using parsed_extends [OF i1(1) e1 i5(2)] parsed_extends [OF i2(1) e2 i5(2)]
      parsed_extends [OF i3(1) e3 i5(2)] parsed_extends [OF i4(1) i5(3) i5(2)] i5(1)
    by (cases call) (auto simp: rules router_rules_def)
  then show thesis by (intro that [of p5]) (simp_all add: rules router_rules_def)
qed

lemma newBytecodeRules_accepted:
  "newBytecodeRules compile dt lt du ru lk = Done (Inr rules) \<Longrightarrow>
   \<exists>cfg. newBytecodeRouterCfg rules = Done (Inr cfg)"
  by (auto simp: newBytecodeRules_def accept_router_rules_cases split: sum.splits)

subsection \<open>DNS programs\<close>


subsection \<open>Remap programs\<close>









subsection \<open>Sample programs\<close>

lemmas line_eval = skipped_line_def trimSpace_def space_len_def space_runes_def splitRuleLine_def blank_def
  trimLeft_def upper_ascii_def char_of_eq_iff Let_def line_op_def bytecodeOpByName_def bytecodeOpNames_def
  bytecodeRuleLineEndsSegment_def

lemma sample_skip:
  "\<not> skipped_line ''TRUE''" "\<not> skipped_line ''FALSE''" "\<not> skipped_line ''DIAL''"
  "\<not> skipped_line ''SLOT 1''" "\<not> skipped_line ''SLOT 2''"
  by (simp_all add: line_eval)

lemma sample_fields:
  "splitRuleLine ''TRUE'' = (''TRUE'', None)" "splitRuleLine ''FALSE'' = (''FALSE'', None)"
  "splitRuleLine ''DIAL'' = (''DIAL'', None)"
  "splitRuleLine ''SLOT 1'' = (''SLOT'', Some ''1'')" "splitRuleLine ''SLOT 2'' = (''SLOT'', Some ''2'')"
  by (simp_all add: line_eval)

lemma sample_names:
  "bytecodeOpByName ''TRUE'' = Some OP_TRUE" "bytecodeOpByName ''FALSE'' = Some OP_FALSE"
  "bytecodeOpByName ''DIAL'' = Some OP_DIAL" "bytecodeOpByName ''SLOT'' = Some OP_SLOT"
  by (simp_all add: line_eval)

lemma sample_numbers:
  "parseUintArg OP_SLOT (Some ''1'') 8 = Inr 1" "parseUintArg OP_SLOT (Some ''2'') 8 = Inr 2"
  by (simp_all add: parseUintArg_def parseUint_def is_digit_def digit_val_def line_eval)

lemmas sample_lines = sample_skip sample_fields sample_names sample_numbers
  upper_ascii_def char_of_eq_iff

abbreviation ln :: "nat \<Rightarrow> string \<Rightarrow> ruleLine" where
  "ln n s \<equiv> \<lparr>ln_no = n, ln_text = s\<rparr>"

lemmas parse_eval = parseProgramLines_def appendOp_def bytecodeSegmentCanTrigger_def line_op_def
  boolFromBool_def sample_lines

lemma empty_parser_tables: "parser_tables newBytecodeParser = no_tables"
  by (simp add: parser_tables_def newBytecodeParser_def empty_table_def no_tables_def)

lemma accepted_empty:
  assumes "router_validate \<lparr>br_tables = (no_tables :: unit tables), br_dnsCacheStorage = None, br_dialTCP = dt, br_listenTCP = lt,
      br_dialUDP = du, br_routeUDP = ru, br_lookup = lk\<rparr> = Inr ()"
  shows "accept_router_rules (router_rules (newBytecodeParser :: (unit, unit) parser) dt lt du ru lk) =
    Done (Inr (router_rules (newBytecodeParser :: (unit, unit) parser) dt lt du ru lk))"
  using assms by (simp add: router_rules_def empty_parser_tables accept_router_rules_cases constructed_iff)

subsection \<open>Properties\<close>

text \<open>
  C1. Rule text to router. If \<open>NewBytecodeRules\<close> accepts five rule texts, a configuration can be
  built from the result, and every call on it returns the slot that the text of the call's program
  decides, line by line on the operands as written: parsing, the sharing of table entries between
  the five programs, the byte encoding, validation and the evaluator's caches change nothing.
  The constructor never panics.
\<close>

theorem rules_text_routed:
  "newBytecodeRules compile dt lt du ru lk \<noteq> Panic \<and>
   (newBytecodeRules compile dt lt du ru lk = Done (Inr rules) \<longrightarrow>
      (\<exists>cfg. newBytecodeRouterCfg rules = Done (Inr cfg) \<and>
         (\<forall>env call. router_run cfg env call =
            Done (text_route compile env (call_facts None call)
              (splitBytecodeRuleLines (call_text dt lt du ru lk call))))))"
proof -
  have "\<exists>cfg. newBytecodeRouterCfg rules = Done (Inr cfg) \<and>
       (\<forall>env call. router_run cfg env call = Done (text_route compile env (call_facts None call)
          (splitBytecodeRuleLines (call_text dt lt du ru lk call))))"
    if r: "newBytecodeRules compile dt lt du ru lk = Done (Inr rules)"
    using r
  proof (rule five_parsed)
    fix q
    assume q: "br_tables rules = parser_tables q" "br_dnsCacheStorage rules = None"
      "\<And>call. \<exists>p is. parsed compile p (splitBytecodeRuleLines (call_text dt lt du ru lk call))
        (call_code rules call) is q"
    from newBytecodeRules_accepted [OF r] obtain cfg where "newBytecodeRouterCfg rules = Done (Inr cfg)" by blast
    with parsed_call [OF this q(1)] q(2,3) show ?thesis by metis
  qed
  moreover have "newBytecodeRules compile dt lt du ru lk \<noteq> Panic"
    by (simp add: newBytecodeRules_def accept_router_rules_cases split: sum.split)
  ultimately show ?thesis by blast
qed

definition slot_text :: string where
  "slot_text = ''TRUE'' @ [CHR 0x0A] @ ''SLOT 1''"

lemma slot_text_lines: "splitBytecodeRuleLines slot_text = [ln 1 ''TRUE'', ln 2 ''SLOT 1'']"
  by (simp add: slot_text_def splitBytecodeRuleLines_def trimRight_def)

lemma slot_text_parsed: "parseProgram compile p name slot_text = Inr ([2, 1, 1], p)"
  by (simp add: parseProgram_def slot_text_lines parse_eval byte_of_def opcodes_def)

lemma slot_text_accepted:
  "\<exists>rules. newBytecodeRules (compile :: string \<Rightarrow> unit option) slot_text slot_text slot_text slot_text slot_text =
     Done (Inr rules)"
proof -
  have "router_validate \<lparr>br_tables = (no_tables :: unit tables), br_dnsCacheStorage = None,
      br_dialTCP = [2, 1, 1], br_listenTCP = [2, 1, 1], br_dialUDP = [2, 1, 1],
      br_routeUDP = [2, 1, 1], br_lookup = [2, 1, 1]\<rparr> = Inr ()" by code_simp
  from accepted_empty [OF this] show ?thesis by (simp add: newBytecodeRules_def slot_text_parsed)
qed

lemma slot_text_route: "text_route compile env cx (splitBytecodeRuleLines slot_text) = 1"
  by (simp add: slot_text_lines text_route_def line_meaning_def line_op_def denotation_def number_operand_def sample_lines
      slot_action_def is_action_def)

theorem rules_text_routed_witness:
  "\<exists>rules cfg. newBytecodeRules (\<lambda>_. Some ()) slot_text slot_text slot_text slot_text slot_text = Done (Inr rules) \<and>
     newBytecodeRouterCfg rules = Done (Inr cfg) \<and>
     router_run cfg sample_env (CallLookup ''ip'' ''example.com'') = Done 1"
proof -
  obtain rules where r: "newBytecodeRules (\<lambda>_. Some ()) slot_text slot_text slot_text slot_text slot_text = Done (Inr rules)"
    using slot_text_accepted by blast
  with rules_text_routed [of "\<lambda>_. Some ()" slot_text slot_text slot_text slot_text slot_text rules]
  obtain cfg where c: "newBytecodeRouterCfg rules = Done (Inr cfg)"
      "\<And>env call. router_run cfg env call = Done (text_route (\<lambda>_. Some ()) env (call_facts None call)
         (splitBytecodeRuleLines (call_text slot_text slot_text slot_text slot_text slot_text call)))"
    by blast
  have "router_run cfg sample_env (CallLookup ''ip'' ''example.com'') = Done 1"
    unfolding c(2) by (simp add: slot_text_route)
  with r c(1) show ?thesis by blast
qed














end
