(* ===== verification/RulePruning.thy ===== *)
theory RulePruning
  imports RulePrograms
begin

text \<open>
  \<^verbatim>\<open>NewBytecodeRulesProgram\<close> of \<^verbatim>\<open>src/routing/parser.go\<close> derives five programs from one text by
  leaving out the segments that cannot trigger for a method. The three-valued analysis is sound,
  and on self-contained segments the derived programs decide as the whole text does.
\<close>

subsection \<open>Decisions and the stack below\<close>

fun depth_run :: "opcode list \<Rightarrow> nat \<Rightarrow> nat option" where
  "depth_run [] d = Some d"
| "depth_run (op # ops) d = (case depth_after op d of None \<Rightarrow> None | Some d' \<Rightarrow> depth_run ops d')"

definition all_actions :: "(opcode \<Rightarrow> 'p \<Rightarrow> 'r option) \<Rightarrow> bool" where
  "all_actions act \<longleftrightarrow> (\<forall>op p. act op p \<noteq> None \<longleftrightarrow> is_action op)"

lemma slot_action_all: "all_actions slot_action"
  by (auto simp: all_actions_def slot_action_def is_action_def)

lemma decide_above:
  assumes acts: "all_actions act"
  shows "depth_run (map fst ms) (length stk) \<noteq> None \<Longrightarrow>
    decide act atom ms (stk @ ext) =
      (case decide act atom ms stk of Inl r \<Rightarrow> Inl r | Inr stk' \<Rightarrow> Inr (stk' @ ext))"
proof (induction ms arbitrary: stk)
  case Nil
  then show ?case by simp
next
  case (Cons m ms)
  then obtain d where d: "depth_after (fst m) (length stk) = Some d" "depth_run (map fst ms) d \<noteq> None"
    by (cases "depth_after (fst m) (length stk)") auto
  show ?case
  proof (cases "is_action (fst m)")
    case True
    then obtain r where "act (fst m) (snd m) = Some r" using acts by (auto simp: all_actions_def)
    moreover from d(1) depth_action [OF True] obtain b stk' where "stk = b # stk'" "d = length stk'"
      by (cases stk) auto
    ultimately show ?thesis using Cons.IH [of stk'] d(2) by simp
  next
    case False
    then have "act (fst m) (snd m) = None" using acts by (metis all_actions_def)
    moreover have "length (bool_step atom (fst m) (snd m) stk) = d"
      using d(1) False by (rule depth_bool_step [rotated])
    moreover have "bool_step atom (fst m) (snd m) (stk @ ext) = bool_step atom (fst m) (snd m) stk @ ext"
      using d(1) False by (rule bool_step_frame)
    ultimately show ?thesis
      using Cons.IH [of "bool_step atom (fst m) (snd m) stk"] d(2) by (simp del: bool_step.simps)
  qed
qed

definition self_contained :: "(opcode \<times> 'p) list \<Rightarrow> bool" where
  "self_contained ms \<longleftrightarrow> depth_run (map fst ms) 0 \<noteq> None"

definition decision :: "'r + 's \<Rightarrow> 'r option" where
  "decision x = (case x of Inl r \<Rightarrow> Some r | Inr _ \<Rightarrow> None)"

text \<open>Leaving out self-contained parts that do not decide.\<close>

lemma decide_pruned:
  assumes acts: "all_actions act"
  shows "(\<And>s. s \<in> set segs \<Longrightarrow> self_contained (f s)) \<Longrightarrow>
    (\<And>s. s \<in> set segs \<Longrightarrow> \<not> keep s \<Longrightarrow> decision (decide act atom (f s) []) = None) \<Longrightarrow>
    decision (decide act atom (concat (map f (filter keep segs))) ext) =
    decision (decide act atom (concat (map f segs)) ext')"
proof (induction segs arbitrary: ext ext')
  case Nil
  then show ?case by (simp add: decision_def)
next
  case (Cons s segs)
  have IH: "decision (decide act atom (concat (map f (filter keep segs))) x) =
      decision (decide act atom (concat (map f segs)) y)" for x y
    by (rule Cons.IH) (simp_all add: Cons.prems)
  have d: "depth_run (map fst (f s)) (length ([] :: bool list)) \<noteq> None"
    using Cons.prems(1) [of s] by (simp add: self_contained_def)
  have s: "decide act atom (f s) x =
      (case decide act atom (f s) [] of Inl r \<Rightarrow> Inl r | Inr stk' \<Rightarrow> Inr (stk' @ x))" for x
    using decide_above [OF acts d, of atom x] by (simp only: append_Nil)
  show ?case
  proof (cases "decide act atom (f s) []")
    case (Inl r)
    with Cons.prems(2) [of s] have "keep s" by (auto simp: decision_def)
    moreover have "decide act atom (f s) ext = Inl r" "decide act atom (f s) ext' = Inl r"
      by (subst s, simp add: Inl)+
    ultimately show ?thesis by (simp add: decide_append decision_def)
  next
    case (Inr stk')
    have "decide act atom (f s) ext = Inr (stk' @ ext)" "decide act atom (f s) ext' = Inr (stk' @ ext')"
      by (subst s, simp add: Inr)+
    then show ?thesis
      using IH [of "stk' @ ext" "stk' @ ext'"] IH [of ext "stk' @ ext'"]
      by (cases "keep s") (simp_all add: decide_append)
  qed
qed

subsection \<open>The analysis is sound\<close>

text \<open>A segment: no line but the last ends it.\<close>

fun closed_segment :: "ruleLine list \<Rightarrow> bool" where
  "closed_segment [] = True"
| "closed_segment (l # ls) = (if bytecodeRuleLineEndsSegment (ln_text l) then ls = [] else closed_segment ls)"

lemma closed_segment_snoc:
  "list_all (\<lambda>l. \<not> bytecodeRuleLineEndsSegment (ln_text l)) seg \<Longrightarrow> closed_segment (seg @ [l])"
  by (induction seg) auto

lemma closed_segment_open:
  "list_all (\<lambda>l. \<not> bytecodeRuleLineEndsSegment (ln_text l)) seg \<Longrightarrow> closed_segment seg"
  by (induction seg) auto

lemma segments_closed:
  "list_all (\<lambda>l. \<not> bytecodeRuleLineEndsSegment (ln_text l)) seg \<Longrightarrow>
   s \<in> set (segments_from seg lines) \<Longrightarrow> closed_segment s"
proof (induction lines arbitrary: seg)
  case Nil
  then show ?case by (auto intro: closed_segment_open split: if_splits)
next
  case (Cons l lines)
  then show ?case
    using Cons.IH [of "[]"] Cons.IH [of "seg @ [l]"]
    by (auto intro: closed_segment_snoc split: if_splits)
qed

text \<open>An abstract value covers a Boolean.\<close>

definition covers :: "boolState \<Rightarrow> bool \<Rightarrow> bool" where
  "covers s b \<longleftrightarrow> s = BUnknown \<or> s = boolFromBool b"

lemma covers_simps [simp]:
  "covers BUnknown b" "covers BTrue b \<longleftrightarrow> b" "covers BFalse b \<longleftrightarrow> \<not> b" "covers (boolFromBool b) b"
  by (auto simp: covers_def boolFromBool_def)

lemma covers_intros:
  "covers BUnknown b" "covers BTrue True" "covers BFalse False" "covers (boolFromBool b) b"
  by simp_all

lemma covers_ops:
  "covers s a \<Longrightarrow> covers (boolNot s) (\<not> a)"
  "covers s a \<Longrightarrow> covers t b \<Longrightarrow> covers (boolAnd s t) (a \<and> b)"
  "covers s a \<Longrightarrow> covers t b \<Longrightarrow> covers (boolOr s t) (a \<or> b)"
  by (cases s; cases t; auto simp: boolAnd_def boolOr_def)+

definition facts_of_method :: "bytecodeMethod \<Rightarrow> context_facts \<Rightarrow> bool" where
  "facts_of_method m cx \<longleftrightarrow> cx_dial cx = (m = MethodDial) \<and> cx_listen cx = (m = MethodListen) \<and>
     cx_lookup cx = (m = MethodLookup)"

lemma truth_method:
  "facts_of_method m cx \<Longrightarrow> truth env cx OP_DIAL d = (m = MethodDial) \<and>
     truth env cx OP_LISTEN d = (m = MethodListen) \<and> truth env cx OP_LOOKUP d = (m = MethodLookup)"
  by (simp add: facts_of_method_def truth_def atom_value_def)

text \<open>One line that is neither a comment nor an action.\<close>

lemma canTrigger_step:
  assumes "facts_of_method m cx" and "\<not> skipped_line (ln_text l)" and "line_op (ln_text l) = Some op"
    and "op \<noteq> OP_DROP" and "op \<noteq> OP_SLOT" and t: "\<not> canTrigger_from m (l # ls) h astk"
    and c: "list_all2 covers astk stk"
  shows "\<exists>h' astk'. \<not> canTrigger_from m ls h' astk' \<and>
    list_all2 covers astk' (bool_step (truth env cx) op d stk)"
proof -
  note line = assms(2-5) truth_method [OF assms(1)]
  show ?thesis
  proof (cases "op \<in> {OP_NOT, OP_AND, OP_OR}")
    case True
    with t c line show ?thesis
      by (cases op; clarsimp split: list.splits; fastforce simp: list_all2_Cons1 intro: covers_ops)
  next
    case False
    with t line(1-4) truth_method [OF assms(1), of env d]
    have "\<exists>h' s b. \<not> canTrigger_from m ls h' (s # astk) \<and> covers s b \<and>
        bool_step (truth env cx) op d stk = b # stk"
      by (cases op; simp; blast intro: covers_intros)
    then obtain h' s b where "\<not> canTrigger_from m ls h' (s # astk)" "covers s b"
        and b: "bool_step (truth env cx) op d stk = b # stk" by blast
    with c show ?thesis by (intro exI [of _ h'] exI [of _ "s # astk"]) (simp only: b list_all2_Cons simp_thms)
  qed
qed

lemma action_ends:
  assumes "\<not> skipped_line line" and "line_op line = Some op" and "op = OP_DROP \<or> op = OP_SLOT"
  shows "bytecodeRuleLineEndsSegment line"
proof -
  have "toUpper (fst (splitRuleLine line)) \<in> {''DROP'', ''SLOT''}"
    using assms(2,3) by (auto simp: line_op_def bytecodeOpByName_def bytecodeOpNames_def split: if_splits)
  with assms(1) show ?thesis by (auto simp: bytecodeRuleLineEndsSegment_def)
qed

lemma canTrigger_sound:
  assumes m: "facts_of_method m cx"
  shows "closed_segment seg \<Longrightarrow> meaningful compile seg \<Longrightarrow> \<not> canTrigger_from m seg h astk \<Longrightarrow>
    list_all2 covers astk stk \<Longrightarrow>
    decision (decide slot_action (truth env cx) (program_meaning compile seg) stk) = None"
proof (induction seg arbitrary: h astk stk)
  case Nil
  then show ?case by simp
next
  case (Cons l ls)
  show ?case
  proof (cases "skipped_line (ln_text l)")
    case True
    with Cons show ?thesis by (simp add: meaningful_def line_meaning_def split: if_splits)
  next
    case False
    with Cons.prems(2) obtain op d where l: "line_meaning compile (ln_text l) = Some (op, d)"
        "line_op (ln_text l) = Some op"
      by (auto simp: meaningful_def line_meaning_def split: option.splits)
    show ?thesis
    proof (cases "op = OP_DROP \<or> op = OP_SLOT")
      case True
      with action_ends [OF False l(2)] Cons.prems(1) have "ls = []" by simp
      moreover from True False l(2) Cons.prems(3,4) obtain stk' where "stk = False # stk'"
        by (auto simp: list_all2_Cons1 split: list.splits)
      ultimately show ?thesis using True l by (auto simp: slot_action_def is_action_def decision_def)
    next
      case op: False
      then have ops: "op \<noteq> OP_DROP" "op \<noteq> OP_SLOT" by simp_all
      show ?thesis
      proof (cases "is_action op")
        case True
        with False l(2) Cons.prems(1) ops have "ls = []"
          by (cases op) (auto simp: is_action_def bytecodeRuleLineEndsSegment_def line_op_def
              bytecodeOpByName_def bytecodeOpNames_def split: if_splits)
        with Cons.prems(3) False l(2) True show ?thesis
          using ops by (cases op) (auto simp: is_action_def)
      next
        case plain: False
        from canTrigger_step [OF m False l(2) ops Cons.prems(3,4), of env d] obtain h' astk' where
            "\<not> canTrigger_from m ls h' astk'"
            "list_all2 covers astk' (bool_step (truth env cx) op d stk)" by blast
        moreover have "closed_segment ls" "meaningful compile ls"
          using Cons.prems(1,2) by (auto simp: meaningful_def split: if_splits)
        ultimately have "decision (decide slot_action (truth env cx) (program_meaning compile ls)
            (bool_step (truth env cx) op d stk)) = None" by (intro Cons.IH)
        moreover from plain ops have "slot_action op d = None" by (simp add: slot_action_def)
        ultimately show ?thesis using l(1) by (simp del: bool_step.simps)
      qed
    qed
  qed
qed

subsection \<open>The derived programs\<close>

lemma parsed_append:
  assumes "parsed compile p xs c1 is1 p1" and "parsed compile p1 ys c2 is2 p2"
  shows "parsed compile p (xs @ ys) (c1 @ c2) (is1 @ is2) p2"
proof -
  have "extends p1 p2" "parser_inv compile p2" using assms(2) by (simp_all add: parsed_def)
  from parsed_extends [OF assms(1) this] assms(2) show ?thesis
    by (simp add: parsed_def meaningful_def encode_prog_def)
qed

lemma parsed_Nil: "parser_inv compile q \<Longrightarrow> extends p q \<Longrightarrow> parsed compile p [] [] [] q"
  by (simp add: parsed_def meaningful_def encode_prog_def)

text \<open>\<open>gains compile p q keeps t t'\<close>: target \<open>t'\<close> is \<open>t\<close> with the code of the kept segments appended.\<close>

definition gains :: "(string \<Rightarrow> 're option) \<Rightarrow> ('re, 'f) parser \<Rightarrow> ('re, 'f) parser \<Rightarrow>
    ruleLine list list \<Rightarrow> target \<Rightarrow> target \<Rightarrow> bool" where
  "gains compile p q segs t t' \<longleftrightarrow>
     fst t' = fst t \<and> fst (snd t') = fst (snd t) \<and>
     (\<exists>x is. snd (snd t') = snd (snd t) @ x \<and>
        parsed compile p (concat (filter (\<lambda>s. bytecodeSegmentCanTrigger s (fst (snd t))) segs)) x is q)"

lemma gains_extends: "gains compile p q segs t t' \<Longrightarrow> extends q r \<Longrightarrow> parser_inv compile r \<Longrightarrow>
    gains compile p r segs t t'"
  using parsed_extends by (fastforce simp: gains_def)

lemma parsed_start: "parsed compile p1 xs c is q \<Longrightarrow> extends p p1 \<Longrightarrow> parsed compile p xs c is q"
  using extends_trans by (auto simp: parsed_def)

lemma gains_start: "gains compile p1 q segs t t' \<Longrightarrow> extends p p1 \<Longrightarrow> gains compile p q segs t t'"
  unfolding gains_def using parsed_start by blast

lemma derive_targets_gains:
  "parser_inv compile p \<Longrightarrow> derive_targets compile seg ts p = Inr (ts', q) \<Longrightarrow>
   parser_inv compile q \<and> extends p q \<and> list_all2 (gains compile p q [seg]) ts ts'"
proof (induction compile seg ts p arbitrary: ts' q rule: derive_targets.induct)
  case (1 compile seg p)
  then show ?case by simp
next
  case (2 compile seg name mth dst targets p)
  show ?case
  proof (cases "bytecodeSegmentCanTrigger seg mth")
    case False
    with "2.prems"(2) obtain ts where ts: "derive_targets compile seg targets p = Inr (ts, q)"
        "ts' = (name, mth, dst) # ts"
      by (auto simp: ebind_eq_Inr)
    with "2.IH"(1) [OF False "2.prems"(1) ts(1)] False show ?thesis
      by (auto simp: gains_def intro!: exI [of _ "[]"] parsed_Nil)
  next
    case True
    with "2.prems"(2) obtain code p1 ts where r: "parseProgramLines compile p name seg = Inr (code, p1)"
        "derive_targets compile seg targets p1 = Inr (ts, q)" "ts' = (name, mth, dst @ code) # ts"
      by (auto simp: ebind_eq_Inr)
    obtain "is" where i: "parsed compile p seg code is p1" by (rule parse_lines_parsed [OF "2.prems"(1) r(1)])
    then have p1: "parser_inv compile p1" "extends p p1" by (simp_all add: parsed_def)
    have rest: "parser_inv compile q \<and> extends p1 q \<and> list_all2 (gains compile p1 q [seg]) targets ts"
      by (rule "2.IH"(2)) (use True r p1 in simp_all)
    moreover have "list_all2 (gains compile p q [seg]) targets ts"
      using rest gains_start [OF _ p1(2)] by (blast intro: list_all2_mono)
    moreover have "gains compile p q [seg] (name, mth, dst) (name, mth, dst @ code)"
      using parsed_extends [OF i] rest True by (auto simp: gains_def)
    ultimately show ?thesis using r(3) p1(2) by (auto intro: extends_trans)
  qed
qed

lemma gains_trans:
  assumes "gains compile p p1 [seg] t t1" and "gains compile p1 q segs t1 t2"
  shows "gains compile p q (seg # segs) t t2"
  using assms parsed_append by (fastforce simp: gains_def)

lemma derive_segments_gains:
  "parser_inv compile p \<Longrightarrow> derive_segments compile segs ts p = Inr (ts', q) \<Longrightarrow>
   parser_inv compile q \<and> extends p q \<and> list_all2 (gains compile p q segs) ts ts'"
proof (induction compile segs ts p rule: derive_segments.induct)
  case (1 compile ts p)
  then show ?case by (auto simp: gains_def list_all2_same intro!: exI [of _ "[]"] parsed_Nil)
next
  case (2 compile seg segs ts p)
  from "2.prems"(2) obtain ts1 p1 where r: "derive_targets compile seg ts p = Inr (ts1, p1)"
      "derive_segments compile segs ts1 p1 = Inr (ts', q)"
    by (auto simp: ebind_eq_Inr)
  from derive_targets_gains [OF "2.prems"(1) r(1)] have d: "parser_inv compile p1" "extends p p1"
      "list_all2 (gains compile p p1 [seg]) ts ts1" by simp_all
  from "2.IH" [OF d(1) r(2)] have i: "parser_inv compile q" "extends p1 q"
      "list_all2 (gains compile p1 q segs) ts1 ts'" by simp_all
  have "list_all2 (gains compile p q (seg # segs)) ts ts'"
    by (rule list_all2_trans [OF _ d(3) i(3)]) (rule gains_trans)
  with i d(2) show ?case by (auto intro: extends_trans)
qed

lemma call_method: "facts_of_method (case call of CallListenTCP _ _ \<Rightarrow> MethodListen
    | CallLookup _ _ \<Rightarrow> MethodLookup | _ \<Rightarrow> MethodDial) (call_facts st call)"
  by (cases call) (simp_all add: facts_of_method_def operation_facts_def)

lemma program_parsed:
  fixes compile :: "string \<Rightarrow> 're option"
  assumes "newBytecodeRulesProgram compile program = Done (Inr rules)"
  obtains q :: "('re, unit) parser" where "br_tables rules = parser_tables q" and "br_dnsCacheStorage rules = None"
    and "\<And>call. \<exists>m p is. facts_of_method m (call_facts None call) \<and>
      parsed compile p (concat (filter (\<lambda>s. bytecodeSegmentCanTrigger s m) (splitBytecodeRuleSegments program)))
        (call_code rules call) is q"
proof -
  let ?p0 = "newBytecodeParser :: ('re, unit) parser"
  let ?segs = "splitBytecodeRuleSegments program"
  from assms obtain ts q where d: "derive_segments compile ?segs router_targets ?p0 = Inr (ts, q)"
    by (auto simp: newBytecodeRulesProgram_def split: sum.splits)
  from derive_segments_gains [OF newBytecodeParser_inv d]
  have g: "list_all2 (gains compile ?p0 q ?segs) router_targets ts" by simp
  then obtain t1 t2 t3 t4 t5 where ts: "ts = [t1, t2, t3, t4, t5]"
    by (auto simp: router_targets_def list_all2_Cons1)
  with g obtain i1 i2 i3 i4 i5 where c:
      "parsed compile ?p0 (concat (filter (\<lambda>s. bytecodeSegmentCanTrigger s MethodDial) ?segs)) (snd (snd t1)) i1 q"
      "parsed compile ?p0 (concat (filter (\<lambda>s. bytecodeSegmentCanTrigger s MethodListen) ?segs)) (snd (snd t2)) i2 q"
      "parsed compile ?p0 (concat (filter (\<lambda>s. bytecodeSegmentCanTrigger s MethodDial) ?segs)) (snd (snd t3)) i3 q"
      "parsed compile ?p0 (concat (filter (\<lambda>s. bytecodeSegmentCanTrigger s MethodDial) ?segs)) (snd (snd t4)) i4 q"
      "parsed compile ?p0 (concat (filter (\<lambda>s. bytecodeSegmentCanTrigger s MethodLookup) ?segs)) (snd (snd t5)) i5 q"
    by (auto simp: router_targets_def gains_def)
  have "accept_router_rules (router_rules q (snd (snd t1)) (snd (snd t2)) (snd (snd t3)) (snd (snd t4))
      (snd (snd t5))) = Done (Inr rules)"
    using assms d by (simp add: newBytecodeRulesProgram_def ts split_beta)
  then have rules: "rules = router_rules q (snd (snd t1)) (snd (snd t2)) (snd (snd t3)) (snd (snd t4)) (snd (snd t5))"
    using accept_router_rules_cases by blast
  show thesis
  proof (rule that [of q])
    fix call
    show "\<exists>m p is. facts_of_method m (call_facts None call) \<and>
        parsed compile p (concat (filter (\<lambda>s. bytecodeSegmentCanTrigger s m) ?segs)) (call_code rules call) is q"
      using call_method [of call None] c by (cases call) (force simp: rules router_rules_def)+
  qed (simp_all add: rules router_rules_def)
qed

lemma newBytecodeRulesProgram_accepted:
  "newBytecodeRulesProgram compile program = Done (Inr rules) \<Longrightarrow>
   \<exists>cfg. newBytecodeRouterCfg rules = Done (Inr cfg)"
  by (auto simp: newBytecodeRulesProgram_def accept_router_rules_cases split: sum.splits list.splits)

text \<open>The text decides as its kept segments do.\<close>

lemma pruned_text_route:
  assumes "\<And>s. s \<in> set (splitBytecodeRuleSegments program) \<Longrightarrow>
      meaningful compile s \<and> self_contained (program_meaning compile s)"
    and "facts_of_method m cx"
  shows "text_route compile env cx
      (concat (filter (\<lambda>s. bytecodeSegmentCanTrigger s m) (splitBytecodeRuleSegments program))) =
    text_route compile env cx (splitBytecodeRuleLines program)"
proof -
  let ?segs = "splitBytecodeRuleSegments program"
  have meaning: "program_meaning compile (concat xs) = concat (map (program_meaning compile) xs)" for xs
    by (induction xs) simp_all
  have "decision (decide slot_action (truth env cx) (program_meaning compile s) []) = None"
    if "s \<in> set ?segs" "\<not> bytecodeSegmentCanTrigger s m" for s
    using canTrigger_sound [OF assms(2), of s compile False "[]" "[]" env] assms(1) [OF that(1)] that(2)
      segments_closed [of "[]" s "splitBytecodeRuleLines program"] that(1)
    by (simp add: bytecodeSegmentCanTrigger_def splitBytecodeRuleSegments_def)
  then have "decision (decide slot_action (truth env cx)
        (concat (map (program_meaning compile) (filter (\<lambda>s. bytecodeSegmentCanTrigger s m) ?segs))) []) =
      decision (decide slot_action (truth env cx) (concat (map (program_meaning compile) ?segs)) [])"
    using assms(1) by (intro decide_pruned [OF slot_action_all]) blast+
  moreover have "splitBytecodeRuleLines program = concat ?segs"
    by (simp add: splitBytecodeRuleSegments_def segments_concat)
  ultimately show ?thesis
    by (simp only: text_route_def meaning) (auto simp: decision_def split: sum.splits)
qed

subsection \<open>Sample programs\<close>

text \<open>\<^verbatim>\<open>DIAL SLOT 1 TRUE SLOT 2\<close>.\<close>

definition method_program :: string where
  "method_program = ''DIAL'' @ [CHR 0x0A] @ ''SLOT 1'' @ [CHR 0x0A] @ ''TRUE'' @ [CHR 0x0A] @ ''SLOT 2''"

lemma method_program_segments:
  "splitBytecodeRuleSegments method_program =
     [[ln 1 ''DIAL'', ln 2 ''SLOT 1''], [ln 3 ''TRUE'', ln 4 ''SLOT 2'']]"
  by (simp add: method_program_def splitBytecodeRuleSegments_def splitBytecodeRuleLines_def trimRight_def
      bytecodeRuleLineEndsSegment_def sample_lines)

lemma method_program_lines:
  "splitBytecodeRuleLines method_program =
     [ln 1 ''DIAL'', ln 2 ''SLOT 1'', ln 3 ''TRUE'', ln 4 ''SLOT 2'']"
  by (simp add: method_program_def splitBytecodeRuleLines_def trimRight_def)

lemma method_program_derived:
  "derive_segments compile (splitBytecodeRuleSegments method_program) router_targets p =
     Inr ([(''DialTCP'', MethodDial, [28, 1, 1, 2, 1, 2]), (''ListenTCP'', MethodListen, [2, 1, 2]),
           (''DialUDP'', MethodDial, [28, 1, 1, 2, 1, 2]), (''RouteUDP'', MethodDial, [28, 1, 1, 2, 1, 2]),
           (''Lookup'', MethodLookup, [2, 1, 2])], p)"
  by (simp add: method_program_segments router_targets_def parse_eval byte_of_def opcodes_def)

lemma method_program_accepted:
  "\<exists>rules. newBytecodeRulesProgram (compile :: string \<Rightarrow> unit option) method_program = Done (Inr rules)"
proof -
  have "router_validate \<lparr>br_tables = (no_tables :: unit tables), br_dnsCacheStorage = None,
      br_dialTCP = [28, 1, 1, 2, 1, 2], br_listenTCP = [2, 1, 2], br_dialUDP = [28, 1, 1, 2, 1, 2],
      br_routeUDP = [28, 1, 1, 2, 1, 2], br_lookup = [2, 1, 2]\<rparr> = Inr ()" by code_simp
  from accepted_empty [OF this] show ?thesis by (simp add: newBytecodeRulesProgram_def method_program_derived)
qed

lemma method_program_meaning:
  "meaningful compile [ln 1 ''DIAL'', ln 2 ''SLOT 1'']" "meaningful compile [ln 3 ''TRUE'', ln 4 ''SLOT 2'']"
  "self_contained (program_meaning compile [ln 1 ''DIAL'', ln 2 ''SLOT 1''])"
  "self_contained (program_meaning compile [ln 3 ''TRUE'', ln 4 ''SLOT 2''])"
  by (simp_all add: meaningful_def self_contained_def line_meaning_def line_op_def denotation_def
      number_operand_def sample_lines depth_after.simps)

text \<open>\<^verbatim>\<open>TRUE FALSE SLOT 1 FALSE DIAL SLOT 1 SLOT 2\<close>: the last segment uses a value of an earlier one.\<close>

definition stacked_program :: string where
  "stacked_program = ''TRUE'' @ [CHR 0x0A] @ ''FALSE'' @ [CHR 0x0A] @ ''SLOT 1'' @ [CHR 0x0A] @
     ''FALSE'' @ [CHR 0x0A] @ ''DIAL'' @ [CHR 0x0A] @ ''SLOT 1'' @ [CHR 0x0A] @ ''SLOT 2''"

lemma stacked_program_lines:
  "splitBytecodeRuleLines stacked_program =
     [ln 1 ''TRUE'', ln 2 ''FALSE'', ln 3 ''SLOT 1'', ln 4 ''FALSE'', ln 5 ''DIAL'', ln 6 ''SLOT 1'', ln 7 ''SLOT 2'']"
  by (simp add: stacked_program_def splitBytecodeRuleLines_def trimRight_def)

lemma stacked_program_derived:
  "derive_segments compile (splitBytecodeRuleSegments stacked_program) router_targets p =
     Inr ([(''DialTCP'', MethodDial, [2, 3, 1, 1, 3, 28, 1, 1, 1, 2]), (''ListenTCP'', MethodListen, [2, 3, 1, 1, 1, 2]),
           (''DialUDP'', MethodDial, [2, 3, 1, 1, 3, 28, 1, 1, 1, 2]), (''RouteUDP'', MethodDial, [2, 3, 1, 1, 3, 28, 1, 1, 1, 2]),
           (''Lookup'', MethodLookup, [2, 3, 1, 1, 1, 2])], p)"
  by (simp add: splitBytecodeRuleSegments_def stacked_program_lines bytecodeRuleLineEndsSegment_def
      router_targets_def parse_eval byte_of_def opcodes_def)

lemma stacked_program_rules:
  "newBytecodeRulesProgram (compile :: string \<Rightarrow> unit option) stacked_program =
     Done (Inr (router_rules (newBytecodeParser :: (unit, unit) parser) [2, 3, 1, 1, 3, 28, 1, 1, 1, 2]
       [2, 3, 1, 1, 1, 2] [2, 3, 1, 1, 3, 28, 1, 1, 1, 2] [2, 3, 1, 1, 3, 28, 1, 1, 1, 2] [2, 3, 1, 1, 1, 2]))"
proof -
  have "router_validate \<lparr>br_tables = (no_tables :: unit tables), br_dnsCacheStorage = None,
      br_dialTCP = [2, 3, 1, 1, 3, 28, 1, 1, 1, 2], br_listenTCP = [2, 3, 1, 1, 1, 2],
      br_dialUDP = [2, 3, 1, 1, 3, 28, 1, 1, 1, 2], br_routeUDP = [2, 3, 1, 1, 3, 28, 1, 1, 1, 2],
      br_lookup = [2, 3, 1, 1, 1, 2]\<rparr> = Inr ()" by code_simp
  from accepted_empty [OF this] show ?thesis by (simp add: newBytecodeRulesProgram_def stacked_program_derived)
qed

lemma stacked_text_route:
  "text_route compile env (call_facts None (CallListenTCP nw la)) (splitBytecodeRuleLines stacked_program) = 0"
  by (simp add: stacked_program_lines text_route_def line_meaning_def line_op_def denotation_def
      number_operand_def sample_lines slot_action_def is_action_def truth_def atom_value_def
      operation_facts_def)


subsection \<open>Properties\<close>

text \<open>
  C16. The segment analysis is sound. If \<open>bytecodeSegmentCanTrigger\<close> says that a segment of a
  program cannot trigger for a method, then the segment decides nothing in any call of that
  method, whatever its addresses, network, service database and cached names are.
\<close>

theorem pruned_segments_inert:
  assumes "seg \<in> set (splitBytecodeRuleSegments program)" and "meaningful compile seg"
    and "\<not> bytecodeSegmentCanTrigger seg m" and "facts_of_method m cx"
  shows "decision (decide slot_action (truth env cx) (program_meaning compile seg) []) = None"
  using canTrigger_sound [OF assms(4), of seg compile False "[]" "[]" env] assms(1-3)
    segments_closed [of "[]" seg "splitBytecodeRuleLines program"]
  by (simp add: bytecodeSegmentCanTrigger_def splitBytecodeRuleSegments_def)

theorem pruned_segments_inert_witness:
  "decision (decide slot_action (truth sample_env (call_facts None (CallListenTCP ''tcp'' '':80'')))
     (program_meaning (\<lambda>_. Some ()) [ln 1 ''DIAL'', ln 2 ''SLOT 1'']) []) = None"
proof (rule pruned_segments_inert [of _ method_program _ MethodListen])
  show "[ln 1 ''DIAL'', ln 2 ''SLOT 1''] \<in> set (splitBytecodeRuleSegments method_program)"
    by (simp add: method_program_segments)
  show "\<not> bytecodeSegmentCanTrigger [ln 1 ''DIAL'', ln 2 ''SLOT 1''] MethodListen"
    by (simp add: parse_eval)
qed (simp_all add: method_program_meaning [simplified] facts_of_method_def operation_facts_def)

text \<open>
  C2. Derived programs. If every segment of a program text is well-formed and uses only values it
  pushed itself, the five programs that \<open>NewBytecodeRulesProgram\<close> derives route every call as the
  whole text does: what is left out for a method never changes its decision.
\<close>

theorem program_text_routed:
  assumes "newBytecodeRulesProgram compile program = Done (Inr rules)"
    and "\<And>seg. seg \<in> set (splitBytecodeRuleSegments program) \<Longrightarrow>
      meaningful compile seg \<and> self_contained (program_meaning compile seg)"
  shows "\<exists>cfg. newBytecodeRouterCfg rules = Done (Inr cfg) \<and>
    (\<forall>env call. router_run cfg env call =
       Done (text_route compile env (call_facts None call) (splitBytecodeRuleLines program)))"
  using assms(1)
proof (rule program_parsed)
  fix q
  assume q: "br_tables rules = parser_tables q" "br_dnsCacheStorage rules = None"
    "\<And>call. \<exists>m p is. facts_of_method m (call_facts None call) \<and>
      parsed compile p (concat (filter (\<lambda>s. bytecodeSegmentCanTrigger s m) (splitBytecodeRuleSegments program)))
        (call_code rules call) is q"
  from newBytecodeRulesProgram_accepted [OF assms(1)] obtain cfg where
      c: "newBytecodeRouterCfg rules = Done (Inr cfg)" by blast
  have "router_run cfg env call = Done (text_route compile env (call_facts None call) (splitBytecodeRuleLines program))"
    for env call
    using q(3) [of call] parsed_call [OF c q(1)] pruned_text_route [OF assms(2)] q(2) by metis
  with c show ?thesis by blast
qed

theorem program_text_routed_witness:
  "\<exists>rules cfg. newBytecodeRulesProgram (\<lambda>_. Some ()) method_program = Done (Inr rules) \<and>
     newBytecodeRouterCfg rules = Done (Inr cfg) \<and>
     router_run cfg sample_env (CallListenTCP ''tcp'' '':80'') = Done 2"
proof -
  obtain rules where r: "newBytecodeRulesProgram (\<lambda>_. Some ()) method_program = Done (Inr rules)"
    using method_program_accepted by blast
  have "\<exists>cfg. newBytecodeRouterCfg rules = Done (Inr cfg) \<and> (\<forall>env call. router_run cfg env call =
      Done (text_route (\<lambda>_. Some ()) env (call_facts None call) (splitBytecodeRuleLines method_program)))"
    using r by (rule program_text_routed) (auto simp: method_program_segments method_program_meaning [simplified])
  then obtain cfg where c: "newBytecodeRouterCfg rules = Done (Inr cfg)"
      "\<And>env call. router_run cfg env call =
        Done (text_route (\<lambda>_. Some ()) env (call_facts None call) (splitBytecodeRuleLines method_program))"
    by blast
  have "router_run cfg sample_env (CallListenTCP ''tcp'' '':80'') = Done 2"
    unfolding c(2)
    by (simp add: method_program_lines text_route_def line_meaning_def line_op_def denotation_def
        number_operand_def sample_lines slot_action_def is_action_def truth_def atom_value_def operation_facts_def)
  with r c(1) show ?thesis by blast
qed

text \<open>
  C33. Independence is not checked. There is a program that \<open>NewBytecodeRulesProgram\<close> accepts and
  whose derived ListenTCP program selects slot 2, although the whole text, in which the segment
  left out for Listen leaves a value for the next segment, selects none.
\<close>

theorem derived_program_differs:
  "\<exists>rules cfg. newBytecodeRulesProgram (\<lambda>_. Some ()) stacked_program = Done (Inr rules) \<and>
     newBytecodeRouterCfg rules = Done (Inr cfg) \<and>
     router_run cfg sample_env (CallListenTCP ''tcp'' '':80'') = Done 2 \<and>
     text_route (\<lambda>_. Some ()) sample_env (call_facts None (CallListenTCP ''tcp'' '':80''))
       (splitBytecodeRuleLines stacked_program) = 0"
proof -
  obtain rules where r: "newBytecodeRulesProgram (\<lambda>_. Some ()) stacked_program = Done (Inr rules)"
      "br_listenTCP rules = [2, 3, 1, 1, 1, 2]"
    using stacked_program_rules by (auto simp: router_rules_def)
  obtain cfg where c: "newBytecodeRouterCfg rules = Done (Inr cfg)"
    using newBytecodeRulesProgram_accepted [OF r(1)] by blast
  have "decode_prog [2, 3, 1, 1, 1, 2] = [(OP_TRUE, 0), (OP_FALSE, 0), (OP_SLOT, 1), (OP_SLOT, 2)]"
    by (simp add: opcode_of_def opcodes_def param_kind.simps)
  then have "route_of (br_tables rules) sample_env cx (decode_prog (br_listenTCP rules)) = 2" for cx
    by (simp add: r(2) route_of_def)
  with router_run_route [OF c, of "CallListenTCP ''tcp'' '':80''" sample_env]
  have "router_run cfg sample_env (CallListenTCP ''tcp'' '':80'') = Done 2"
    by (metis call_code.simps(2) decode_encode)
  with r(1) c stacked_text_route show ?thesis by blast
qed

end
