(* ===== verification/SnifferBytecode.thy ===== *)
theory SnifferBytecode
  imports RuleParser
begin

text \<open>
  \<^verbatim>\<open>src/routing/sniffer_bytecode.go\<close>: the control pair of a \<^verbatim>\<open>sniffer.Sniffer\<close> given by two
  bytecode programs. \<open>Control\<close> runs before sniffing and may ask for interception;
  \<open>SniffControl\<close> runs after it and may test the matched classifier. A ROUTE instruction also
  rewrites the call. The source passes the call by pointer: an operation here returns the call
  as the caller finds it afterwards, next to the action.
\<close>

subsection \<open>Calls and actions\<close>

text \<open>
  \<^verbatim>\<open>sniffer.Call\<close>, \<^verbatim>\<open>sniffer.Action\<close> and \<^verbatim>\<open>sniffer.SniffedCall\<close> of
  \<^verbatim>\<open>src/sniffer/network.go\<close>. The listen configuration and the multicast options are carried
  along unread (\<open>'lc\<close>, \<open>'mo\<close>), as is the metadata of a classifier.
\<close>

type_synonym operation = string

record ('lc, 'mo) call =
  cl_operation :: operation
  cl_network :: string
  cl_src :: string
  cl_dst :: string
  cl_host :: string
  cl_service :: string
  cl_proto :: string
  cl_ifIndex :: int
  cl_ifName :: string
  cl_listenConfig :: "'lc option"
  cl_multicastOptions :: 'mo

record sniffAction =
  an_slot :: nat
  an_intercept :: bool

record 'm sniffResult =
  rs_index :: int
  rs_metadata :: 'm
  rs_err :: "string option"

record ('lc, 'mo, 'm) sniffedCall =
  sd_call :: "('lc, 'mo) call"
  sd_result :: "'m sniffResult"

definition RejectSlot :: nat where "RejectSlot = 0"
definition maxSnifferBytecodeSlot :: nat where "maxSnifferBytecodeSlot = 0xff"

definition rejectAction :: sniffAction where
  "rejectAction = \<lparr>an_slot = RejectSlot, an_intercept = False\<rparr>"

definition listen_dial_ops :: "operation list" where
  "listen_dial_ops = [''Dial'', ''Listen'', ''PacketDial'', ''ListenPacket'', ''DialTCP'', ''ListenTCP'',
     ''DialUDP'', ''ListenUDP'', ''ListenPacketConfig'', ''ListenUDPConfig'', ''ListenMulticastUDP'']"

definition interface_ops :: "operation list" where
  "interface_ops = [''Interfaces'', ''InterfaceAddrs'', ''InterfaceMulticastAddrs'', ''InterfacesByIndex'',
     ''InterfacesByName'']"

definition host_lookup_ops :: "operation list" where
  "host_lookup_ops = [''LookupIP'', ''LookupIPAddr'', ''LookupNetIP'', ''LookupHost'', ''LookupAddr'',
     ''LookupCNAME'', ''LookupNS'', ''LookupMX'', ''LookupSRV'', ''LookupTXT'']"

definition snifferOperationClass :: "operation \<Rightarrow> bool \<times> bool \<times> bool" where
  "snifferOperationClass op =
     (if op \<in> {''Dial'', ''PacketDial'', ''DialTCP'', ''DialUDP''} then (True, False, False)
      else if op \<in> {''Listen'', ''ListenPacket'', ''ListenTCP'', ''ListenUDP'', ''ListenPacketConfig'',
                    ''ListenUDPConfig'', ''ListenMulticastUDP''} then (False, True, False)
      else if op \<in> set host_lookup_ops \<or> op = ''LookupPort'' then (False, False, True)
      else (False, False, False))"

definition snifferCallAddresses :: "('lc, 'mo) call \<Rightarrow> string \<times> string" where
  "snifferCallAddresses call =
     (if cl_dst call \<noteq> [] then (cl_src call, cl_dst call)
      else if cl_operation call \<in> set listen_dial_ops \<union> set interface_ops then (cl_src call, cl_dst call)
      else if cl_operation call = ''LookupPort'' then (cl_src call, cl_service call)
      else if cl_operation call \<in> set host_lookup_ops then (cl_src call, cl_host call)
      else (cl_src call, cl_dst call))"

subsection \<open>Rewriting a call\<close>

definition replaceEndpointAddr :: "string \<Rightarrow> string \<Rightarrow> string" where
  "replaceEndpointAddr endpoint addr =
     (case splitHostPort_net endpoint of None \<Rightarrow> addr | Some (_, port) \<Rightarrow> joinHostPort addr port)"

definition replaceEndpointPort :: "string \<Rightarrow> string \<Rightarrow> string" where
  "replaceEndpointPort endpoint port =
     (case splitHostPort_net endpoint of None \<Rightarrow> endpoint | Some (host, _) \<Rightarrow> joinHostPort host port)"

definition applySnifferCallMutation :: "('lc, 'mo) call \<Rightarrow> snifferCallMutation \<Rightarrow> ('lc, 'mo) call" where
  "applySnifferCallMutation call m =
     (let call = (if sm_setNetwork m then call\<lparr>cl_network := sm_network m\<rparr> else call);
          call = (if sm_setSrc m then call\<lparr>cl_src := sm_src m\<rparr> else call);
          call = (if sm_setDst m then call\<lparr>cl_dst := sm_dst m\<rparr> else call);
          call = (if sm_setSrcAddr m then call\<lparr>cl_src := replaceEndpointAddr (cl_src call) (sm_srcAddr m)\<rparr> else call);
          call = (if sm_setSrcPort m then call\<lparr>cl_src := replaceEndpointPort (cl_src call) (sm_srcPort m)\<rparr> else call);
          call = (if sm_setDstAddr m then call\<lparr>cl_dst := replaceEndpointAddr (cl_dst call) (sm_dstAddr m)\<rparr> else call);
          call = (if sm_setDstPort m then call\<lparr>cl_dst := replaceEndpointPort (cl_dst call) (sm_dstPort m)\<rparr> else call);
          call = (if sm_setHost m then call\<lparr>cl_host := sm_host m\<rparr> else call);
          call = (if sm_setService m then call\<lparr>cl_service := sm_service m\<rparr> else call)
      in if sm_setProto m then call\<lparr>cl_proto := sm_proto m\<rparr> else call)"

subsection \<open>Rules and validation\<close>

record ('re, 'f) snifferRules =
  sb_classifiers :: "'f namedClassifier list"
  sb_tables :: "'re tables"
  sb_dnsCacheStorage :: "storage option"
  sb_routeActions :: "snifferRouteAction list"
  sb_control :: "byte list"
  sb_sniffControl :: "byte list"

record ('re, 'f) snifferControls =
  sc_classifiers :: "'f namedClassifier list"
  sc_tables :: "'re tables"
  sc_routeActions :: "snifferRouteAction list"
  sc_control :: "byte list"
  sc_sniffControl :: "byte list"
  sc_dnsStorage :: "storage option"
  sc_controlStringOps :: addrStringOps
  sc_sniffStringOps :: addrStringOps
  sc_mentionedSlots :: "nat list"

datatype snifferProgram = SnifferControl | SnifferSniffControl

definition sniffer_validateOpIndex :: "'re tables \<Rightarrow> nat \<Rightarrow> nat \<Rightarrow> string \<Rightarrow> nat \<Rightarrow> opcode \<Rightarrow> nat \<Rightarrow> paramKind \<Rightarrow>
    bc_error + unit" where
  "sniffer_validateOpIndex tbl nclassifiers nactions name pc op param kind =
     (if kind = ParamNone then Inr ()
      else if op = OP_SNIFF then
        check (bytecodeParamIndex param nclassifiers = None) (ErrIndex name pc ''sniff classifier'' param nclassifiers)
      else if op = OP_ROUTE then
        check (bytecodeParamIndex param nactions = None) (ErrIndex name pc ''route action'' param nactions)
      else index_check tbl name pc op param)"

definition sniffer_validateOp :: "'re tables \<Rightarrow> nat \<Rightarrow> nat \<Rightarrow> string \<Rightarrow> snifferProgram \<Rightarrow> validate_op" where
  "sniffer_validateOp tbl nclassifiers nactions name program pc op param kind =
     ebind (check (op = OP_RULE) (ErrNotValidFor name pc op)) (\<lambda>_.
     ebind (check (isDNSOnlyOp op) (ErrNotValidFor name pc op)) (\<lambda>_.
     ebind (check (program = SnifferControl \<and> (op = OP_SNIFF \<or> op = OP_SNIFF_NONE)) (ErrNotValidFor name pc op)) (\<lambda>_.
     ebind (check (program = SnifferSniffControl \<and> op = OP_INTERCEPT) (ErrNotValidFor name pc op)) (\<lambda>_.
     sniffer_validateOpIndex tbl nclassifiers nactions name pc op param kind))))"

definition sniffer_validateCode :: "'re tables \<Rightarrow> nat \<Rightarrow> nat \<Rightarrow> string \<Rightarrow> byte list \<Rightarrow> snifferProgram \<Rightarrow>
    bc_error + unit" where
  "sniffer_validateCode tbl nclassifiers nactions name code program =
     validateBytecode name code (sniffer_validateOp tbl nclassifiers nactions name program)"

text \<open>The first loop of \<^verbatim>\<open>validate\<close>; it also stores the normalised names.\<close>

fun validate_classifiers :: "nat \<Rightarrow> string list \<Rightarrow> 'f namedClassifier list \<Rightarrow> perr + 'f namedClassifier list" where
  "validate_classifiers i names [] = Inr []"
| "validate_classifiers i names (c # cs) =
     (case normalizeSniffClassifierName (nc_name c) of
        Inl e \<Rightarrow> Inl (PSniffClassifier i e)
      | Inr name \<Rightarrow>
          if nc_factory c = None then Inl (PSniffNilFactory name)
          else if name \<in> set names then Inl (PSniffDuplicate name)
          else ebind (validate_classifiers (Suc i) (name # names) cs) (\<lambda>cs'. Inr (c\<lparr>nc_name := name\<rparr> # cs')))"

definition table_error :: "bc_error + 'a \<Rightarrow> perr + 'a" where
  "table_error r = (case r of Inl e \<Rightarrow> Inl (PValidate e) | Inr x \<Rightarrow> Inr x)"

definition sniffer_validate :: "('re, 'f) snifferRules \<Rightarrow> perr + 'f namedClassifier list" where
  "sniffer_validate rules =
     (let tbl = sb_tables rules in
      ebind (validate_classifiers 0 [] (sb_classifiers rules)) (\<lambda>classifiers.
      let n = length classifiers; k = length (sb_routeActions rules) in
      ebind (table_error (check_regexps (t_regexps tbl))) (\<lambda>_.
      ebind (table_error (validateTables (t_ipv4Subnets tbl) (t_ipv6Addrs tbl) (t_ipv6Subnets tbl))) (\<lambda>_.
      ebind (table_error (sniffer_validateCode tbl n k ''SnifferControl'' (sb_control rules) SnifferControl)) (\<lambda>_.
      ebind (table_error (sniffer_validateCode tbl n k ''SnifferSniffControl'' (sb_sniffControl rules) SnifferSniffControl)) (\<lambda>_.
      Inr classifiers))))))"

definition newBytecodeSnifferControls :: "('re, 'f) snifferRules \<Rightarrow> (perr + ('re, 'f) snifferControls) outcome" where
  "newBytecodeSnifferControls rules =
     (case sniffer_validate rules of
        Inl e \<Rightarrow> Done (Inl e)
      | Inr classifiers \<Rightarrow>
          obind (bytecodeAddrStringOps (sb_control rules)) (\<lambda>co.
          obind (bytecodeAddrStringOps (sb_sniffControl rules)) (\<lambda>so.
          obind (mentionedBytecodeSlotsWithRoutes maxSnifferBytecodeSlot
                   (map (\<lambda>a. unat (sa_slot a)) (sb_routeActions rules))
                   [sb_control rules, sb_sniffControl rules]) (\<lambda>slots.
          Done (Inr \<lparr>sc_classifiers = classifiers, sc_tables = sb_tables rules,
                     sc_routeActions = sb_routeActions rules, sc_control = sb_control rules,
                     sc_sniffControl = sb_sniffControl rules,
                     sc_dnsStorage = (if so_remote co \<or> so_local co \<or> so_remote so \<or> so_local so
                                      then sb_dnsCacheStorage rules else None),
                     sc_controlStringOps = co, sc_sniffStringOps = so, sc_mentionedSlots = slots\<rparr>)))))"

subsection \<open>Evaluation\<close>

definition newSnifferBytecodeEval :: "('lc, 'mo) call \<Rightarrow> storage option \<Rightarrow> addrStringOps \<Rightarrow> bytecodeEval" where
  "newSnifferBytecodeEval call st stringOps =
     (let (dial, listen, lookup) = snifferOperationClass (cl_operation call);
          (laddr, raddr) = snifferCallAddresses call in
      \<lparr>ev_network = toLower (cl_network call),
       ev_laddr = newAddrCache (str_input laddr) st (so_local stringOps),
       ev_raddr = newAddrCache (str_input raddr) st (so_remote stringOps),
       ev_isDial = dial, ev_isListen = listen, ev_isLookup = lookup\<rparr>)"

definition sniffer_body :: "'re tables \<Rightarrow> nat \<Rightarrow> snifferRouteAction list \<Rightarrow> 're host_env \<Rightarrow> ('lc, 'mo) call \<Rightarrow>
    'm sniffResult \<Rightarrow> opcode \<Rightarrow> nat \<Rightarrow> bool list \<times> bytecodeEval \<Rightarrow>
    (sniffAction \<times> ('lc, 'mo) call, bool list \<times> bytecodeEval) flow outcome" where
  "sniffer_body tbl nclassifiers actions env call result op param s =
     (let act = (\<lambda>r. obind (popBool (fst s)) (\<lambda>(b, stk). Done (if b then Return r else Continue (stk, snd s)))) in
      case op of
        OP_DROP \<Rightarrow> act (rejectAction, call)
      | OP_SLOT \<Rightarrow>
          act (case bytecodeParamInt param (int maxSnifferBytecodeSlot) of
                 None \<Rightarrow> (rejectAction, call)
               | Some slot \<Rightarrow> (\<lparr>an_slot = slot, an_intercept = False\<rparr>, call))
      | OP_ROUTE \<Rightarrow>
          act (case bytecodeParamIndex param (length actions) of
                 None \<Rightarrow> (rejectAction, call)
               | Some idx \<Rightarrow> (\<lparr>an_slot = unat (sa_slot (actions ! idx)), an_intercept = False\<rparr>,
                              applySnifferCallMutation call (sa_mutation (actions ! idx))))
      | OP_INTERCEPT \<Rightarrow> act (\<lparr>an_slot = RejectSlot, an_intercept = True\<rparr>, call)
      | OP_SNIFF \<Rightarrow>
          push (fst s) (case bytecodeParamInt param (int nclassifiers - 1) of
                          None \<Rightarrow> False | Some idx \<Rightarrow> rs_index result = int idx, snd s)
      | OP_SNIFF_NONE \<Rightarrow> push (fst s) (rs_index result = NoMatch, snd s)
      | _ \<Rightarrow> predicate_body tbl env op param s)"

definition sniffer_exec :: "('re, 'f) snifferControls \<Rightarrow> 're host_env \<Rightarrow> byte list \<Rightarrow> ('lc, 'mo) call \<Rightarrow>
    'm sniffResult \<Rightarrow> addrStringOps \<Rightarrow> (sniffAction \<times> ('lc, 'mo) call) outcome" where
  "sniffer_exec cfg env code call result stringOps =
     (let ev = newSnifferBytecodeEval call (sc_dnsStorage cfg) stringOps in
      case run_bytecode (sniffer_body (sc_tables cfg) (length (sc_classifiers cfg)) (sc_routeActions cfg) env call result)
             code 0 ([], ev) of
        Panic \<Rightarrow> Panic
      | Done (Return r) \<Rightarrow> Done r
      | Done (Continue _) \<Rightarrow> Done (rejectAction, call))"

definition sniffer_Control :: "('re, 'f) snifferControls \<Rightarrow> 're host_env \<Rightarrow> ('lc, 'mo) call option \<Rightarrow>
    (sniffAction \<times> ('lc, 'mo) call option) outcome" where
  "sniffer_Control cfg env call =
     (case call of
        None \<Rightarrow> Done (rejectAction, None)
      | Some c \<Rightarrow> omap (apsnd Some)
          (sniffer_exec cfg env (sc_control cfg) c \<lparr>rs_index = NoMatch, rs_metadata = (), rs_err = None\<rparr>
             (sc_controlStringOps cfg)))"

definition sniffer_SniffControl :: "('re, 'f) snifferControls \<Rightarrow> 're host_env \<Rightarrow>
    ('lc, 'mo, 'm) sniffedCall option \<Rightarrow> (sniffAction \<times> ('lc, 'mo, 'm) sniffedCall option) outcome" where
  "sniffer_SniffControl cfg env call =
     (case call of
        None \<Rightarrow> Done (rejectAction, None)
      | Some s \<Rightarrow>
          if rs_err (sd_result s) \<noteq> None then Done (rejectAction, Some s)
          else omap (\<lambda>(a, c). (a, Some (s\<lparr>sd_call := c\<rparr>)))
            (sniffer_exec cfg env (sc_sniffControl cfg) (sd_call s) (sd_result s) (sc_sniffStringOps cfg)))"

definition sniffer_MentionedSlots :: "('re, 'f) snifferControls \<Rightarrow> nat list" where
  "sniffer_MentionedSlots cfg = sc_mentionedSlots cfg"


subsection \<open>The evaluator as a decision machine\<close>

definition sniffer_ok :: "'re tables \<Rightarrow> nat \<Rightarrow> nat \<Rightarrow> snifferProgram \<Rightarrow> opcode \<Rightarrow> nat \<Rightarrow> bool" where
  "sniffer_ok tbl nclassifiers nactions program op p \<longleftrightarrow>
     op = OP_DROP \<or> op = OP_SLOT \<or> (op = OP_ROUTE \<and> p < nactions) \<or>
     (op = OP_INTERCEPT \<and> program = SnifferControl) \<or>
     (op = OP_SNIFF \<and> program = SnifferSniffControl \<and> p < nclassifiers) \<or>
     (op = OP_SNIFF_NONE \<and> program = SnifferSniffControl) \<or> predicate_ok tbl op p"

fun sniffer_act :: "snifferRouteAction list \<Rightarrow> ('lc, 'mo) call \<Rightarrow> opcode \<Rightarrow> nat \<Rightarrow>
    (sniffAction \<times> ('lc, 'mo) call) option" where
  "sniffer_act actions call OP_DROP p = Some (rejectAction, call)"
| "sniffer_act actions call OP_SLOT p =
     Some (\<lparr>an_slot = (if p \<le> maxSnifferBytecodeSlot then p else RejectSlot), an_intercept = False\<rparr>, call)"
| "sniffer_act actions call OP_ROUTE p =
     Some (\<lparr>an_slot = unat (sa_slot (actions ! p)), an_intercept = False\<rparr>,
           applySnifferCallMutation call (sa_mutation (actions ! p)))"
| "sniffer_act actions call OP_INTERCEPT p = Some (\<lparr>an_slot = RejectSlot, an_intercept = True\<rparr>, call)"
| "sniffer_act actions call _ p = None"

definition sniffer_atom :: "'re tables \<Rightarrow> 're host_env \<Rightarrow> context_facts \<Rightarrow> int \<Rightarrow> opcode \<Rightarrow> nat \<Rightarrow> bool" where
  "sniffer_atom tbl env cx index op p =
     (case op of
        OP_SNIFF \<Rightarrow> index = int p
      | OP_SNIFF_NONE \<Rightarrow> index = NoMatch
      | _ \<Rightarrow> atom_value tbl env cx op p)"

lemma sniffer_acts: "acts_on (sniffer_ok tbl n k program) (sniffer_act actions call)"
  unfolding acts_on_def
proof (intro allI impI)
  fix op p
  assume "sniffer_ok tbl n k program op p"
  then show "(sniffer_act actions call op p \<noteq> None) = is_action op"
    by (cases op) (auto simp: sniffer_ok_def predicate_ok_def is_action_def)
qed

lemma sniffer_validateOp_accepts:
  assumes "no_nil_regexp tbl"
  shows "accepts (sniffer_validateOp tbl n k name program) (sniffer_ok tbl n k program)"
  unfolding accepts_def
proof (intro allI)
  fix pc op p
  from assms have re: "p < length (t_regexps tbl) \<Longrightarrow> \<exists>y. t_regexps tbl ! p = Some y"
    by (auto simp: no_nil_regexp_def list_all_length)
  then show "(sniffer_validateOp tbl n k name program pc op p (param_kind op) = Inr ()) =
      sniffer_ok tbl n k program op p"
    by (cases op; cases program)
      (auto simp: sniffer_validateOp_def sniffer_validateOpIndex_def sniffer_ok_def predicate_ok_def
        is_action_def param_kind.simps index_check_ok index_ok_def bytecodeParamIndex_def)
qed

lemma sniffer_step_plain:
  assumes ok: "sniffer_ok tbl n (length actions) program op p" and "\<not> is_action op" and rel: "ev_rel env cx ev"
    and d: "depth_after op (length stk) = Some d"
  shows "\<exists>ev'. ev_rel env cx ev' \<and> sniffer_body tbl n actions env call result op p (stk, ev) =
    Done (Continue (bool_step (sniffer_atom tbl env cx (rs_index result)) op p stk, ev'))"
proof (cases "op = OP_SNIFF \<or> op = OP_SNIFF_NONE")
  case True
  with ok rel show ?thesis
    by (auto simp: sniffer_ok_def predicate_ok_def is_action_def sniffer_body_def sniffer_atom_def push_def
        bytecodeParamInt_def)
next
  case False
  with assms(1,2) have "predicate_ok tbl op p" by (auto simp: sniffer_ok_def is_action_def)
  from predicate_step [OF this rel d] assms(2) False show ?thesis
    by (cases op) (simp_all add: sniffer_body_def sniffer_atom_def is_action_def)
qed

interpretation sniffing: validated_machine "sniffer_body tbl n actions env call result"
    "sniffer_ok tbl n (length actions) program" "ev_rel env cx" "sniffer_act actions call"
    "sniffer_atom tbl env cx (rs_index result)" "sniffer_validateOp tbl n (length actions) name program"
    "no_nil_regexp tbl"
  for tbl n actions env call result program cx name
proof unfold_locales
  show "acts_on (sniffer_ok tbl n (length actions) program) (sniffer_act actions call)" by (rule sniffer_acts)
next
  fix op p r b stk ev
  assume "sniffer_ok tbl n (length actions) program op p" and "sniffer_act actions call op p = Some r"
  then show "sniffer_body tbl n actions env call result op p (b # stk, ev) =
      Done (if b then Return r else Continue (stk, ev))"
    by (cases op)
      (auto simp: sniffer_body_def sniffer_ok_def bytecodeParamInt_def bytecodeParamIndex_def predicate_ok_def
        is_action_def rejectAction_def)
qed (rule sniffer_step_plain sniffer_validateOp_accepts; assumption)+

subsection \<open>Facts of a call\<close>

definition sniffer_facts :: "storage option \<Rightarrow> ('lc, 'mo) call \<Rightarrow> context_facts" where
  "sniffer_facts st call =
     \<lparr>cx_network = toLower (cl_network call),
      cx_local = (str_input (fst (snifferCallAddresses call)), st, True),
      cx_remote = (str_input (snd (snifferCallAddresses call)), st, True),
      cx_dial = fst (snifferOperationClass (cl_operation call)),
      cx_listen = fst (snd (snifferOperationClass (cl_operation call))),
      cx_lookup = snd (snd (snifferOperationClass (cl_operation call)))\<rparr>"

definition sniffer_decides :: "('re, 'f) snifferRules \<Rightarrow> 're host_env \<Rightarrow> ('lc, 'mo) call \<Rightarrow> int \<Rightarrow> instr list \<Rightarrow>
    sniffAction \<times> ('lc, 'mo) call" where
  "sniffer_decides rules env call index is =
     (case decide (sniffer_act (sb_routeActions rules) call)
             (sniffer_atom (sb_tables rules) env (sniffer_facts (sb_dnsCacheStorage rules) call) index) is [] of
        Inl r \<Rightarrow> r | Inr _ \<Rightarrow> (rejectAction, call))"

text \<open>Instructions that do not match strings read neither the storage nor the switch.\<close>

lemma atom_value_cong:
  assumes "cx_network cx' = cx_network cx" and "cx_dial cx' = cx_dial cx" and "cx_listen cx' = cx_listen cx"
    and "cx_lookup cx' = cx_lookup cx" and "fst (cx_local cx') = fst (cx_local cx)"
    and "fst (cx_remote cx') = fst (cx_remote cx)"
    and "op \<in> {OP_ADDR_S, OP_ADDR_RE} \<Longrightarrow> (\<forall>f g. matches_of f g (cx_remote cx') = matches_of f g (cx_remote cx))"
    and "op \<in> {OP_LADDR_S, OP_LADDR_RE} \<Longrightarrow> (\<forall>f g. matches_of f g (cx_local cx') = matches_of f g (cx_local cx))"
  shows "atom_value tbl env cx' op p = atom_value tbl env cx op p"
  using assms
  by (cases op) (simp_all add: atom_value_def side_def cx_portNetwork_def Let_def split: option.splits)

lemma sniffer_exec_decides:
  assumes "list_all wf_instr is"
    and v: "valid_instrs (sniffer_ok (sc_tables cfg) (length (sc_classifiers cfg)) (length (sc_routeActions cfg)) program) is 0"
    and ops: "bytecodeAddrStringOps (encode_prog is) = Done ops"
    and st: "so_remote ops \<or> so_local ops \<Longrightarrow> sc_dnsStorage cfg = sb_dnsCacheStorage rules"
    and tbl: "sc_tables cfg = sb_tables rules" "sc_routeActions cfg = sb_routeActions rules"
  shows "sniffer_exec cfg env (encode_prog is) call result ops =
    Done (sniffer_decides rules env call (rs_index result) is)"
proof -
  let ?st = "sc_dnsStorage cfg"
  let ?cx = "sniffer_facts (sb_dnsCacheStorage rules) call"
  let ?la = "newAddrCache (str_input (fst (snifferCallAddresses call))) ?st (so_local ops)"
  let ?ra = "newAddrCache (str_input (snd (snifferCallAddresses call))) ?st (so_remote ops)"
  let ?cx' = "?cx\<lparr>cx_local := cache_key ?la, cx_remote := cache_key ?ra\<rparr>"
  let ?ev = "newSnifferBytecodeEval call ?st ops"
  let ?act = "sniffer_act (sc_routeActions cfg) call"
  let ?atom = "\<lambda>cx. sniffer_atom (sc_tables cfg) env cx (rs_index result)"
  have "?ev = \<lparr>ev_network = toLower (cl_network call), ev_laddr = ?la, ev_raddr = ?ra,
      ev_isDial = cx_dial ?cx, ev_isListen = cx_listen ?cx, ev_isLookup = cx_lookup ?cx\<rparr>"
    by (simp add: newSnifferBytecodeEval_def sniffer_facts_def split_beta)
  then have rel: "ev_rel env ?cx' ?ev"
    by (simp only:) (rule new_ev_rel, simp add: sniffer_facts_def)
  have o: "ops = \<lparr>so_remote = (\<exists>i \<in> set is. fst i \<in> {OP_ADDR_S, OP_ADDR_RE}),
      so_local = (\<exists>i \<in> set is. fst i \<in> {OP_LADDR_S, OP_LADDR_RE})\<rparr>"
    using ops string_ops_encoded [OF assms(1)] by simp
  have "decide ?act (?atom ?cx') is [] = decide ?act (?atom ?cx) is []"
  proof (rule decide_cong)
    fix i
    assume i: "i \<in> set is"
    have "atom_value (sc_tables cfg) env ?cx' (fst i) (snd i) = atom_value (sc_tables cfg) env ?cx (fst i) (snd i)"
    proof (rule atom_value_cong)
      assume "fst i \<in> {OP_ADDR_S, OP_ADDR_RE}"
      with i have "so_remote ops" by (auto simp: o)
      with st show "\<forall>f g. matches_of f g (cx_remote ?cx') = matches_of f g (cx_remote ?cx)"
        by (simp add: sniffer_facts_def names_of_new)
    next
      assume "fst i \<in> {OP_LADDR_S, OP_LADDR_RE}"
      with i have "so_local ops" by (auto simp: o)
      with st show "\<forall>f g. matches_of f g (cx_local ?cx') = matches_of f g (cx_local ?cx)"
        by (simp add: sniffer_facts_def names_of_new)
    qed (simp_all add: sniffer_facts_def fst_key_new)
    then show "?atom ?cx' (fst i) (snd i) = ?atom ?cx (fst i) (snd i)"
      by (cases "fst i") (simp_all add: sniffer_atom_def)
  qed
  moreover from sniffing.run_decides [of "sc_tables cfg" "length (sc_classifiers cfg)" "sc_routeActions cfg"
      program "is" "[]" env ?cx' ?ev call result] v rel
  obtain ev' where "run_instrs (sniffer_body (sc_tables cfg) (length (sc_classifiers cfg)) (sc_routeActions cfg)
      env call result) is ([], ?ev) =
      Done (case decide ?act (?atom ?cx') is [] of Inl r \<Rightarrow> Return r | Inr stk' \<Rightarrow> Continue (stk', ev'))"
    by auto
  ultimately show ?thesis
    using assms(1) tbl
    by (simp add: sniffer_exec_def sniffer_decides_def run_encode_prog Let_def split: sum.splits)
qed

subsection \<open>Constructed controls\<close>

lemma table_error_Inr [simp]: "table_error r = Inr x \<longleftrightarrow> r = Inr x"
  by (cases r) (simp_all add: table_error_def)

definition sniffer_programs :: "('re, 'f) snifferRules \<Rightarrow> (byte list \<times> snifferProgram) list" where
  "sniffer_programs rules = [(sb_control rules, SnifferControl), (sb_sniffControl rules, SnifferSniffControl)]"

lemma sniffer_validate_ok:
  "sniffer_validate rules = Inr classifiers \<longleftrightarrow>
     validate_classifiers 0 [] (sb_classifiers rules) = Inr classifiers \<and>
     no_nil_regexp (sb_tables rules) \<and>
     validateTables (t_ipv4Subnets (sb_tables rules)) (t_ipv6Addrs (sb_tables rules))
       (t_ipv6Subnets (sb_tables rules)) = Inr () \<and>
     list_all (\<lambda>(code, program). \<exists>is. code = encode_prog is \<and> list_all wf_instr is \<and>
        valid_instrs (sniffer_ok (sb_tables rules) (length classifiers) (length (sb_routeActions rules)) program) is 0)
       (sniffer_programs rules)"
proof (cases "no_nil_regexp (sb_tables rules)")
  case True
  note v = validateBytecode_iff [OF sniffer_validateOp_accepts [OF True]]
  show ?thesis
    using True
    by (auto simp: sniffer_validate_def Let_def ebind_eq_Inr check_regexps_ok sniffer_validateCode_def v
        sniffer_programs_def)
next
  case False
  then show ?thesis by (auto simp: sniffer_validate_def Let_def ebind_eq_Inr check_regexps_ok)
qed

lemma sniffer_built:
  assumes "sniffer_validate rules = Inr classifiers"
  obtains a b cfg where "newBytecodeSnifferControls rules = Done (Inr cfg)"
    and "list_all wf_instr a" and "list_all wf_instr b"
    and "sb_control rules = encode_prog a" and "sb_sniffControl rules = encode_prog b"
    and "valid_instrs (sniffer_ok (sb_tables rules) (length classifiers) (length (sb_routeActions rules)) SnifferControl) a 0"
    and "valid_instrs (sniffer_ok (sb_tables rules) (length classifiers) (length (sb_routeActions rules)) SnifferSniffControl) b 0"
    and "sc_control cfg = encode_prog a" and "sc_sniffControl cfg = encode_prog b"
    and "bytecodeAddrStringOps (encode_prog a) = Done (sc_controlStringOps cfg)"
    and "bytecodeAddrStringOps (encode_prog b) = Done (sc_sniffStringOps cfg)"
    and "so_remote (sc_controlStringOps cfg) \<or> so_local (sc_controlStringOps cfg) \<or>
      so_remote (sc_sniffStringOps cfg) \<or> so_local (sc_sniffStringOps cfg) \<Longrightarrow>
      sc_dnsStorage cfg = sb_dnsCacheStorage rules"
    and "sc_classifiers cfg = classifiers" and "sc_tables cfg = sb_tables rules"
    and "sc_routeActions cfg = sb_routeActions rules"
    and "mentionedBytecodeSlotsWithRoutes maxSnifferBytecodeSlot (map (\<lambda>a. unat (sa_slot a)) (sb_routeActions rules))
      (map encode_prog [a, b]) = Done (sc_mentionedSlots cfg)"
proof -
  from assms obtain a b where ab: "list_all wf_instr a" "list_all wf_instr b"
      "sb_control rules = encode_prog a" "sb_sniffControl rules = encode_prog b"
      "valid_instrs (sniffer_ok (sb_tables rules) (length classifiers) (length (sb_routeActions rules)) SnifferControl) a 0"
      "valid_instrs (sniffer_ok (sb_tables rules) (length classifiers) (length (sb_routeActions rules)) SnifferSniffControl) b 0"
    by (auto simp: sniffer_validate_ok sniffer_programs_def)
  obtain co so where o: "bytecodeAddrStringOps (encode_prog a) = Done co" "bytecodeAddrStringOps (encode_prog b) = Done so"
    using string_ops_encoded [OF ab(1)] string_ops_encoded [OF ab(2)] by simp
  have "list_all (list_all wf_instr) [a, b]" using ab by simp
  then obtain ks where ks: "mentionedBytecodeSlotsWithRoutes maxSnifferBytecodeSlot
      (map (\<lambda>a. unat (sa_slot a)) (sb_routeActions rules)) (map encode_prog [a, b]) = Done ks"
    by (rule mentioned_slots_encoded)
  let ?cfg = "\<lparr>sc_classifiers = classifiers, sc_tables = sb_tables rules,
      sc_routeActions = sb_routeActions rules, sc_control = sb_control rules,
      sc_sniffControl = sb_sniffControl rules,
      sc_dnsStorage = (if so_remote co \<or> so_local co \<or> so_remote so \<or> so_local so
        then sb_dnsCacheStorage rules else None),
      sc_controlStringOps = co, sc_sniffStringOps = so, sc_mentionedSlots = ks\<rparr>"
  have "newBytecodeSnifferControls rules = Done (Inr ?cfg)"
    using assms ab o ks by (simp add: newBytecodeSnifferControls_def)
  then show thesis by (rule that) (use ab o ks in simp_all)
qed

lemma sniffer_constructed:
  assumes "newBytecodeSnifferControls rules = Done (Inr cfg)"
  obtains classifiers where "sniffer_validate rules = Inr classifiers"
  using assms by (cases "sniffer_validate rules") (simp_all add: newBytecodeSnifferControls_def)

text \<open>What the two programs of constructed controls compute.\<close>

lemma sniffer_built_decides:
  assumes "newBytecodeSnifferControls rules = Done (Inr cfg)"
  shows "sniffer_exec cfg env (sc_control cfg) call result (sc_controlStringOps cfg) =
      Done (sniffer_decides rules env call (rs_index result) (decode_prog (sb_control rules)))" (is ?control)
    and "sniffer_exec cfg env (sc_sniffControl cfg) call result' (sc_sniffStringOps cfg) =
      Done (sniffer_decides rules env call (rs_index result') (decode_prog (sb_sniffControl rules)))" (is ?sniff)
proof -
  obtain classifiers where v: "sniffer_validate rules = Inr classifiers"
    by (rule sniffer_constructed [OF assms])
  have "?control \<and> ?sniff"
    using v
  proof (rule sniffer_built, goal_cases)
    case (1 a b cfg')
    then have cfg: "cfg' = cfg" using assms by simp
    have "sniffer_exec cfg env (encode_prog a) call result (sc_controlStringOps cfg) =
        Done (sniffer_decides rules env call (rs_index result) a)"
      by (rule sniffer_exec_decides) (use 1 cfg in auto)
    moreover have "sniffer_exec cfg env (encode_prog b) call result' (sc_sniffStringOps cfg) =
        Done (sniffer_decides rules env call (rs_index result') b)"
      by (rule sniffer_exec_decides) (use 1 cfg in auto)
    ultimately show ?case using 1 cfg by (simp add: decode_encode)
  qed
  then show ?control ?sniff by blast+
qed

text \<open>A decision is a rejection without effect or the result of an admissible action.\<close>

lemma sniffer_decides_cases:
  assumes "valid_instrs (sniffer_ok (sb_tables rules) n (length (sb_routeActions rules)) program) is 0"
    and "list_all wf_instr is"
  obtains (reject) "sniffer_decides rules env call index is = (rejectAction, call)"
    | (slot) k where "(OP_SLOT, k) \<in> set is" and "k \<le> 255"
        and "sniffer_decides rules env call index is = (\<lparr>an_slot = k, an_intercept = False\<rparr>, call)"
    | (route) i where "(OP_ROUTE, i) \<in> set is" and "i < length (sb_routeActions rules)"
        and "sniffer_decides rules env call index is =
          (\<lparr>an_slot = unat (sa_slot (sb_routeActions rules ! i)), an_intercept = False\<rparr>,
           applySnifferCallMutation call (sa_mutation (sb_routeActions rules ! i)))"
    | (intercept) "program = SnifferControl"
        and "sniffer_decides rules env call index is = (\<lparr>an_slot = RejectSlot, an_intercept = True\<rparr>, call)"
proof (cases "decide (sniffer_act (sb_routeActions rules) call)
    (sniffer_atom (sb_tables rules) env (sniffer_facts (sb_dnsCacheStorage rules) call) index) is []")
  case (Inl r)
  from decide_result [OF Inl] obtain i where i: "i \<in> set is"
      "sniffer_act (sb_routeActions rules) call (fst i) (snd i) = Some r" by blast
  have ok: "sniffer_ok (sb_tables rules) n (length (sb_routeActions rules)) program (fst i) (snd i)"
    using valid_instrs_ok [OF assms(1)] i(1) by (simp add: list_all_iff)
  have wf: "wf_instr i" using assms(2) i(1) by (simp add: list_all_iff)
  have res: "sniffer_decides rules env call index is = r" using Inl by (simp add: sniffer_decides_def)
  obtain op p where op: "i = (op, p)" by (cases i)
  from i(2) op consider "op = OP_DROP" | "op = OP_SLOT" | "op = OP_ROUTE" | "op = OP_INTERCEPT"
    by (cases op) simp_all
  then show thesis
  proof cases
    case 1
    with i op res show ?thesis by (intro reject) simp
  next
    case 2
    with i op res wf show ?thesis
      by (intro slot [of p]) (simp_all add: wf_instr_def param_kind.simps maxSnifferBytecodeSlot_def)
  next
    case 3
    with i op res ok show ?thesis
      by (intro route [of p]) (auto simp: sniffer_ok_def predicate_ok_def is_action_def)
  next
    case 4
    with i op res ok show ?thesis
      by (intro intercept) (auto simp: sniffer_ok_def predicate_ok_def is_action_def)
  qed
qed (simp add: sniffer_decides_def reject)

lemma sniffer_mentions:
  assumes "newBytecodeSnifferControls rules = Done (Inr cfg)"
  shows "set (sniffer_MentionedSlots cfg) = {k. 1 \<le> k \<and> k \<le> 255 \<and>
    (\<exists>code \<in> {sb_control rules, sb_sniffControl rules}. \<exists>i \<in> set (decode_prog code).
       names_slot (map (\<lambda>a. unat (sa_slot a)) (sb_routeActions rules)) i k)}"
proof -
  obtain classifiers where v: "sniffer_validate rules = Inr classifiers"
    by (rule sniffer_constructed [OF assms])
  from v show ?thesis
  proof (rule sniffer_built, goal_cases)
    case (1 a b cfg')
    then have cfg: "cfg' = cfg" using assms by simp
    have "list_all (list_all wf_instr) [a, b]" using 1 by simp
    then obtain ks where "mentionedBytecodeSlotsWithRoutes maxSnifferBytecodeSlot
        (map (\<lambda>a. unat (sa_slot a)) (sb_routeActions rules)) (map encode_prog [a, b]) = Done ks"
        "set ks = {k. 1 \<le> k \<and> k \<le> maxSnifferBytecodeSlot \<and> (\<exists>is \<in> set [a, b]. \<exists>i \<in> set is.
          names_slot (map (\<lambda>a. unat (sa_slot a)) (sb_routeActions rules)) i k)}"
      by (rule mentioned_slots_encoded)
    with 1 cfg show ?case
      by (simp add: sniffer_MentionedSlots_def decode_encode maxSnifferBytecodeSlot_def)
  qed
qed

lemma sniffer_slot_mentioned:
  assumes "newBytecodeSnifferControls rules = Done (Inr cfg)"
    and "code = sb_control rules \<or> code = sb_sniffControl rules" and "code = encode_prog is" and "list_all wf_instr is"
    and "valid_instrs (sniffer_ok (sb_tables rules) n (length (sb_routeActions rules)) program) is 0"
    and "sniffer_decides rules env call index is = (a, call')"
  shows "an_slot a \<le> 255 \<and> (an_slot a \<noteq> 0 \<longrightarrow> an_slot a \<in> set (sniffer_MentionedSlots cfg)) \<and>
    (an_intercept a \<longrightarrow> program = SnifferControl \<and> an_slot a = 0 \<and> call' = call)"
proof -
  let ?slots = "map (\<lambda>a. unat (sa_slot a)) (sb_routeActions rules)"
  have mention: "k \<in> set (sniffer_MentionedSlots cfg)"
    if "i \<in> set is" "names_slot ?slots i k" "1 \<le> k" "k \<le> 255" for i k
  proof -
    have "decode_prog code = is" using assms(3,4) by (simp add: decode_encode)
    with that assms(2) show ?thesis unfolding sniffer_mentions [OF assms(1)] by blast
  qed
  have bound: "unat w \<le> 255" for w :: byte using byte_less [of w] by linarith
  from assms(5,4) show ?thesis
  proof (cases rule: sniffer_decides_cases [where env = env and call = call and index = index])
    case reject
    with assms(6) show ?thesis by (auto simp: rejectAction_def RejectSlot_def)
  next
    case (slot k)
    with assms(6) mention [of "(OP_SLOT, k)" k] show ?thesis by (auto simp: names_slot_def)
  next
    case (route i)
    with assms(6) mention [of "(OP_ROUTE, i)" "unat (sa_slot (sb_routeActions rules ! i))"] bound
    show ?thesis by (auto simp: names_slot_def)
  next
    case intercept
    with assms(6) show ?thesis by (auto simp: RejectSlot_def)
  qed
qed


lemma endpoint_parts:
  assumes "splitHostPort_net endpoint = Some (host, port)"
    and "set addr \<inter> set ''[]'' = {}" and "set newPort \<inter> set '':[]'' = {}"
  shows "splitHostPort_net (replaceEndpointAddr endpoint addr) = Some (addr, port)"
    and "splitHostPort_net (replaceEndpointPort endpoint newPort) = Some (host, newPort)"
  using split_clean [OF assms(1)] split_join assms
  by (simp_all add: replaceEndpointAddr_def replaceEndpointPort_def)

lemma mutation_dst:
  "cl_dst (applySnifferCallMutation call m) =
     (let dst = (if sm_setDst m then sm_dst m else cl_dst call);
          dst = (if sm_setDstAddr m then replaceEndpointAddr dst (sm_dstAddr m) else dst)
      in if sm_setDstPort m then replaceEndpointPort dst (sm_dstPort m) else dst)"
  by (simp add: applySnifferCallMutation_def Let_def)

subsection \<open>A sample configuration\<close>

text \<open>
  One classifier; TCP calls are intercepted; a sniffed call that matched the classifier goes to
  slot 3 with a new destination address, an unmatched one to slot 2.
\<close>

definition tls_action :: snifferRouteAction where
  "tls_action = \<lparr>sa_slot = 3, sa_mutation = zeroMutation\<lparr>sm_setDstAddr := True, sm_dstAddr := ''10.0.0.1''\<rparr>\<rparr>"

definition tls_rules :: "(unit, unit) snifferRules" where
  "tls_rules = \<lparr>sb_classifiers = [\<lparr>nc_name = ''tls'', nc_factory = Some ()\<rparr>], sb_tables = sample_tables,
     sb_dnsCacheStorage = None, sb_routeActions = [tls_action], sb_control = [10, 31],
     sb_sniffControl = [32, 0, 0, 34, 0, 0, 33, 1, 2]\<rparr>"

definition tls_call :: "(unit, unit) call" where
  "tls_call = \<lparr>cl_operation = ''Dial'', cl_network = ''tcp'', cl_src = [], cl_dst = ''h:443'', cl_host = [],
     cl_service = [], cl_proto = [], cl_ifIndex = 0, cl_ifName = [], cl_listenConfig = None,
     cl_multicastOptions = ()\<rparr>"

definition tls_sniffed :: "(unit, unit, unit) sniffedCall" where
  "tls_sniffed = \<lparr>sd_call = tls_call, sd_result = \<lparr>rs_index = 0, rs_metadata = (), rs_err = None\<rparr>\<rparr>"

lemma tls_decoded:
  "decode_prog (sb_control tls_rules) = [(OP_TCP, 0), (OP_INTERCEPT, 0)]"
  "decode_prog (sb_sniffControl tls_rules) = [(OP_SNIFF, 0), (OP_ROUTE, 0), (OP_SNIFF_NONE, 0), (OP_SLOT, 2)]"
  by (simp_all add: tls_rules_def opcode_of_def opcodes_def param_kind.simps le16_def)

lemma tls_valid: "\<exists>classifiers. sniffer_validate tls_rules = Inr classifiers"
  by (rule exI [of _ "sb_classifiers tls_rules"]) code_simp

lemma tls_constructed: "\<exists>cfg. newBytecodeSnifferControls tls_rules = Done (Inr cfg)"
  using tls_valid by (blast elim: sniffer_built)

lemma tls_split: "splitHostPort_net ''h:443'' = Some (''h'', ''443'')"
  by (simp add: splitHostPort_net_def cut_last_def)

lemma tls_decides:
  "sniffer_decides tls_rules sample_env tls_call NoMatch (decode_prog (sb_control tls_rules)) =
     (\<lparr>an_slot = 0, an_intercept = True\<rparr>, tls_call)"
  "sniffer_decides tls_rules sample_env tls_call 0 (decode_prog (sb_sniffControl tls_rules)) =
     (\<lparr>an_slot = 3, an_intercept = False\<rparr>, tls_call\<lparr>cl_dst := ''10.0.0.1:443''\<rparr>)"
  unfolding tls_decoded
  by (simp_all add: sniffer_decides_def sniffer_atom_def atom_value_def sniffer_facts_def tls_call_def
      tls_rules_def tls_action_def isTCPNet_def RejectSlot_def applySnifferCallMutation_def zeroMutation_def
      replaceEndpointAddr_def tls_split joinHostPort_def lower_ascii_def char_of_eq_iff Let_def)

subsection \<open>Properties\<close>

text \<open>
  C7. The control pair decides by its rules. Controls accepted by \<^verbatim>\<open>NewBytecodeSnifferControls\<close>
  never panic: \<^verbatim>\<open>Control\<close> returns the action and the rewritten call that the first action with a
  true condition of the control program gives, and rejects when there is none;
  \<^verbatim>\<open>SniffControl\<close> does the same with the sniff program and the index of the matched classifier,
  and rejects a call whose sniffing failed.
\<close>

theorem sniffer_controls_decide:
  assumes "newBytecodeSnifferControls rules = Done (Inr cfg)"
  shows "sniffer_Control cfg env (Some call) =
      Done (apsnd Some (sniffer_decides rules env call NoMatch (decode_prog (sb_control rules)))) \<and>
    sniffer_SniffControl cfg env (Some sniffed) =
      Done (if rs_err (sd_result sniffed) \<noteq> None then (rejectAction, Some sniffed)
            else case sniffer_decides rules env (sd_call sniffed) (rs_index (sd_result sniffed))
                   (decode_prog (sb_sniffControl rules)) of
                   (action, call') \<Rightarrow> (action, Some (sniffed\<lparr>sd_call := call'\<rparr>)))"
  by (simp_all add: sniffer_Control_def sniffer_SniffControl_def sniffer_built_decides [OF assms] split_beta)

theorem sniffer_controls_decide_witness:
  "\<exists>cfg. newBytecodeSnifferControls tls_rules = Done (Inr cfg) \<and>
     sniffer_Control cfg sample_env (Some tls_call) = Done (\<lparr>an_slot = 0, an_intercept = True\<rparr>, Some tls_call) \<and>
     sniffer_SniffControl cfg sample_env (Some tls_sniffed) =
       Done (\<lparr>an_slot = 3, an_intercept = False\<rparr>,
             Some (tls_sniffed\<lparr>sd_call := tls_call\<lparr>cl_dst := ''10.0.0.1:443''\<rparr>\<rparr>))"
proof -
  obtain cfg where c: "newBytecodeSnifferControls tls_rules = Done (Inr cfg)" using tls_constructed ..
  show ?thesis
    by (rule exI [of _ cfg])
      (simp add: c sniffer_controls_decide [OF c] tls_decides tls_sniffed_def)
qed

text \<open>
  C20. What an action can be. Every action of constructed controls has a byte-sized slot; a
  slot other than the reject slot is one of \<^verbatim>\<open>MentionedSlots\<close>; only \<^verbatim>\<open>Control\<close> asks for
  interception, with the reject slot and the call untouched.
\<close>

theorem sniffer_actions_bounded:
  assumes "newBytecodeSnifferControls rules = Done (Inr cfg)"
  shows "(\<exists>a call'. sniffer_Control cfg env (Some call) = Done (a, Some call') \<and> an_slot a \<le> 255 \<and>
      (an_slot a \<noteq> RejectSlot \<longrightarrow> an_slot a \<in> set (sniffer_MentionedSlots cfg)) \<and>
      (an_intercept a \<longrightarrow> an_slot a = RejectSlot \<and> call' = call)) \<and>
    (\<exists>a sniffed'. sniffer_SniffControl cfg env (Some sniffed) = Done (a, Some sniffed') \<and> an_slot a \<le> 255 \<and>
      (an_slot a \<noteq> RejectSlot \<longrightarrow> an_slot a \<in> set (sniffer_MentionedSlots cfg)) \<and>
      \<not> an_intercept a \<and> sd_result sniffed' = sd_result sniffed)"
proof -
  obtain classifiers where v: "sniffer_validate rules = Inr classifiers"
    by (rule sniffer_constructed [OF assms])
  from v show ?thesis
  proof (rule sniffer_built, goal_cases)
    case (1 a b cfg')
    obtain x c where x: "sniffer_decides rules env call NoMatch a = (x, c)" by fastforce
    obtain y d where y: "sniffer_decides rules env (sd_call sniffed) (rs_index (sd_result sniffed)) b = (y, d)"
      by fastforce
    note m = sniffer_slot_mentioned [OF assms]
    have "an_slot x \<le> 255 \<and> (an_slot x \<noteq> 0 \<longrightarrow> an_slot x \<in> set (sniffer_MentionedSlots cfg)) \<and>
        (an_intercept x \<longrightarrow> SnifferControl = SnifferControl \<and> an_slot x = 0 \<and> c = call)"
      by (rule m [OF _ 1(4) 1(2) 1(6) x]) (simp add: 1)
    moreover have "an_slot y \<le> 255 \<and> (an_slot y \<noteq> 0 \<longrightarrow> an_slot y \<in> set (sniffer_MentionedSlots cfg)) \<and>
        (an_intercept y \<longrightarrow> SnifferSniffControl = SnifferControl \<and> an_slot y = 0 \<and> d = sd_call sniffed)"
      by (rule m [OF _ 1(5) 1(3) 1(7) y]) (simp add: 1)
    ultimately show ?case using 1(2-5) x y
      by (auto simp: sniffer_Control_def sniffer_SniffControl_def sniffer_built_decides [OF assms]
          decode_encode RejectSlot_def rejectAction_def)
  qed
qed

theorem sniffer_actions_bounded_witness:
  "\<exists>cfg a sniffed'. newBytecodeSnifferControls tls_rules = Done (Inr cfg) \<and>
     sniffer_SniffControl cfg sample_env (Some tls_sniffed) = Done (a, Some sniffed') \<and> an_slot a \<le> 255 \<and>
     \<not> an_intercept a"
proof -
  obtain cfg where c: "newBytecodeSnifferControls tls_rules = Done (Inr cfg)" using tls_constructed ..
  with sniffer_actions_bounded [OF c, of sample_env tls_call tls_sniffed] show ?thesis by blast
qed



text \<open>
  C29. Rewriting a call by a ROUTE action. When the destination is a host:port pair and the
  new address and port contain no separators, the rewritten destination splits into exactly the
  replaced and the kept parts; the operation, the interface and the socket options of the call
  are never rewritten, and the source only when the action names it.
\<close>

theorem sniffer_mutation_parts:
  assumes "splitHostPort_net (if sm_setDst m then sm_dst m else cl_dst call) = Some (host, port)"
    and "set (sm_dstAddr m) \<inter> set ''[]'' = {}" and "set (sm_dstPort m) \<inter> set '':[]'' = {}"
  shows "splitHostPort_net (cl_dst (applySnifferCallMutation call m)) =
      Some (if sm_setDstAddr m then sm_dstAddr m else host, if sm_setDstPort m then sm_dstPort m else port) \<and>
    cl_operation (applySnifferCallMutation call m) = cl_operation call \<and>
    cl_ifIndex (applySnifferCallMutation call m) = cl_ifIndex call \<and>
    cl_ifName (applySnifferCallMutation call m) = cl_ifName call \<and>
    cl_listenConfig (applySnifferCallMutation call m) = cl_listenConfig call \<and>
    cl_multicastOptions (applySnifferCallMutation call m) = cl_multicastOptions call \<and>
    (\<not> (sm_setSrc m \<or> sm_setSrcAddr m \<or> sm_setSrcPort m) \<longrightarrow>
      cl_src (applySnifferCallMutation call m) = cl_src call)"
  unfolding mutation_dst Let_def
  using endpoint_parts [OF assms(1-3)] endpoint_parts(2) [OF endpoint_parts(1) [OF assms(1-3)] assms(2,3)] assms(1)
  by (simp_all add: applySnifferCallMutation_def Let_def)

theorem sniffer_mutation_parts_witness:
  "splitHostPort_net (cl_dst (applySnifferCallMutation tls_call (sa_mutation tls_action))) = Some (''10.0.0.1'', ''443'')"
  using sniffer_mutation_parts [of "sa_mutation tls_action" tls_call "''h''" "''443''"]
  by (simp add: tls_action_def tls_call_def zeroMutation_def tls_split)

end
