(* ===== verification/SnifferRules.thy ===== *)
theory SnifferRules
  imports RulePruning SnifferBytecode
begin

text \<open>
  \<^verbatim>\<open>NewSnifferBytecodeRulesWithConstructors\<close> of \<^verbatim>\<open>src/routing/parser.go\<close>: the two programs of the
  sniffer derived from one rule text, and the names of inline classifiers
  (\<^verbatim>\<open>src/routing/sniff_specs.go\<close>). The constructors of inline classifiers are values of the rule
  set: a function from options to a canonical form and a factory.
\<close>

subsection \<open>The loop over the segments\<close>




subsection \<open>Phases of a segment\<close>








subsection \<open>What the two programs contain\<close>






subsection \<open>What the text decides\<close>









subsection \<open>Inline classifiers\<close>

lemma itoa_inject: "itoa m = itoa n \<Longrightarrow> m = n"
proof -
  have "digits_rev m = digits_rev n \<Longrightarrow> m = n"
  proof (induction m arbitrary: n rule: digits_rev.induct)
    case (1 m)
    have d: "char_of (48 + a :: nat) = (char_of (48 + b) :: char) \<Longrightarrow> a < 10 \<Longrightarrow> b < 10 \<Longrightarrow> a = b" for a b
      by (simp add: char_of_eq_iff take_bit_eq_mod)
    have nonempty: "digits_rev k \<noteq> []" "[] \<noteq> digits_rev k" for k by (subst digits_rev.simps; simp)+
    from "1.prems" show ?case
    proof (cases "m < 10"; cases "n < 10")
      assume "\<not> m < 10" "\<not> n < 10"
      with "1.prems" have "m mod 10 = n mod 10" "digits_rev (m div 10) = digits_rev (n div 10)"
        using d [of "m mod 10" "n mod 10"] digits_rev.simps [of m] digits_rev.simps [of n] by auto
      with "1.IH" \<open>\<not> m < 10\<close> have "m div 10 = n div 10" by blast
      with \<open>m mod 10 = n mod 10\<close> show ?thesis by (metis div_mult_mod_eq)
    qed (use d digits_rev.simps [of m] digits_rev.simps [of n] nonempty in auto)
  qed
  then show "itoa m = itoa n \<Longrightarrow> m = n" by (simp add: itoa_def)
qed

lemma find_first:
  assumes "i \<in> set [m..<n]" and "P i"
  obtains j where "find P [m..<n] = Some j" and "P j" and "m \<le> j" and "\<And>k. m \<le> k \<Longrightarrow> k < j \<Longrightarrow> \<not> P k"
proof -
  from assms obtain j where j: "find P [m..<n] = Some j" by (cases "find P [m..<n]") (auto simp: find_None_iff)
  from j obtain k where k: "k < length [m..<n]" "P ([m..<n] ! k)" "j = [m..<n] ! k"
      "\<forall>l < k. \<not> P ([m..<n] ! l)"
    by (auto simp: find_Some_iff)
  have "\<not> P l" if "m \<le> l" "l < j" for l
  proof -
    have "l - m < k" "[m..<n] ! (l - m) = l" using that k(1,3) by simp_all
    with k(4) show ?thesis by metis
  qed
  with that j k show thesis by simp
qed

lemma inline_free:
  assumes "itable_inv R (p_sniff p)"
  shows "\<exists>i. i \<in> set [length (it_vals (p_sniff p))..<length (it_vals (p_sniff p)) + length (it_vals (p_sniff p)) + 1] \<and>
    it_index (p_sniff p) (inline_name i) = None"
proof (rule ccontr)
  let ?n = "length (it_vals (p_sniff p))"
  assume "\<not> ?thesis"
  then have taken: "it_index (p_sniff p) (inline_name i) \<noteq> None" if "i \<in> {?n..<?n + ?n + 1}" for i
    using that by fastforce
  from assms obtain ks where ks: "length ks = ?n" "\<And>k i. it_index (p_sniff p) k = Some i \<Longrightarrow> k \<in> set ks"
    by (auto simp: itable_inv_def dest!: list_all2_lengthD)
  have "inline_name ` {?n..<?n + ?n + 1} \<subseteq> set ks" using taken ks(2) by fastforce
  moreover have "inj inline_name" by (auto intro!: injI itoa_inject simp: inline_name_def)
  then have "card (inline_name ` {?n..<?n + ?n + 1}) = ?n + 1"
    by (subst card_image) (auto intro: inj_on_subset)
  ultimately have "?n + 1 \<le> length ks" by (metis card_length card_mono le_trans finite_set)
  with ks(1) show False by simp
qed

lemma add_indexed:
  "addSniffClassifier p c = Inr (idx, p') \<Longrightarrow> p_sniffConstructors p' = p_sniffConstructors p"
  by (auto simp: addSniffClassifier_def ebind_eq_Inr split: if_splits)

lemma share_indexed:
  "shareSniffSpec p key f = Inr (idx, p') \<Longrightarrow>
   p_sniffSpecIndex p' key = Some idx \<and> p_sniffConstructors p' = p_sniffConstructors p"
  by (auto simp: shareSniffSpec_def dest: add_indexed split: option.splits sum.splits)

subsection \<open>A sample program\<close>










subsection \<open>Properties\<close>



text \<open>
  C30. Names of inline classifiers. The search of \<open>nextInlineSniffClassifierName\<close> ends: with \<open>n\<close>
  classifiers one of the names \<open>@inline-n\<close>, ..., \<open>@inline-2n\<close> is free, whatever names the caller
  registered; the result is the first free one.
\<close>

theorem inline_name_found:
  assumes "parser_inv compile p"
  shows "\<exists>i \<ge> length (it_vals (p_sniff p)). nextInlineSniffClassifierName p = Some (inline_name i) \<and>
    it_index (p_sniff p) (inline_name i) = None \<and>
    (\<forall>k. length (it_vals (p_sniff p)) \<le> k \<and> k < i \<longrightarrow> it_index (p_sniff p) (inline_name k) \<noteq> None)"
proof -
  let ?n = "length (it_vals (p_sniff p))"
  have "itable_inv (\<lambda>k v. nc_name v = k \<and> nc_factory v \<noteq> None) (p_sniff p)"
    using assms by (simp add: parser_inv_def)
  then obtain i where "i \<in> set [?n..<?n + ?n + 1]" "it_index (p_sniff p) (inline_name i) = None"
    using inline_free by blast
  then obtain j where "find (\<lambda>i. it_index (p_sniff p) (inline_name i) = None) [?n..<?n + ?n + 1] = Some j"
      "it_index (p_sniff p) (inline_name j) = None" "?n \<le> j"
      "\<And>k. ?n \<le> k \<Longrightarrow> k < j \<Longrightarrow> \<not> it_index (p_sniff p) (inline_name k) = None"
    using find_first [of i ?n "?n + ?n + 1" "\<lambda>i. it_index (p_sniff p) (inline_name i) = None"] by blast
  then show ?thesis by (auto simp: nextInlineSniffClassifierName_def Let_def intro!: exI [of _ j])
qed

theorem inline_name_found_witness:
  "\<exists>i. nextInlineSniffClassifierName (newBytecodeParser :: (unit, unit) parser) = Some (inline_name i)"
  using inline_name_found [OF newBytecodeParser_inv [of "\<lambda>_. None"]] by blast

text \<open>
  C31. Equivalent inline specifications share one classifier. After a specification has been
  constructed, any specification of the same constructor with the same canonical form returns the
  same index and adds nothing.
\<close>

theorem inline_specs_shared:
  assumes "constructSniffClassifier p arg = Inr (idx, p')"
    and "parseSniffClassifierSpec arg = Inr (name, options)" and "parseSniffClassifierSpec arg' = Inr (name, options')"
    and "p_sniffConstructors p name = Some constructor"
    and "constructor options = Inr (canonical, factory)" and "constructor options' = Inr (canonical, Some factory')"
  shows "constructSniffClassifier p' arg' = Inr (idx, p')"
proof -
  let ?key = "if trimSpace canonical \<noteq> [] then name @ '' '' @ trimSpace canonical else name"
  from assms have "shareSniffSpec p ?key factory = Inr (idx, p')"
    by (auto simp: constructSniffClassifier_def Let_def split: if_splits)
  from share_indexed [OF this] assms(3-6) show ?thesis
    by (simp add: constructSniffClassifier_def shareSniffSpec_def Let_def)
qed

definition any_constructor :: "unit sniffConstructor" where
  "any_constructor options = Inr ([], Some ())"

definition any_parser :: "(unit, unit) parser" where
  "any_parser = newBytecodeParser\<lparr>p_sniffConstructors := [''x'' \<mapsto> any_constructor]\<rparr>"

lemma any_specs:
  "parseSniffClassifierSpec ''x'' = Inr (''x'', [])" "parseSniffClassifierSpec '' x'' = Inr (''x'', [])"
  by (simp_all add: parseSniffClassifierSpec_def strFields_def space_len_def space_runes_def Let_def
      normalizeSniffClassifierConstructorName_def trimSpace_def containsAny_def sniff_space_def char_of_eq_iff trimLeft_def)

theorem inline_specs_shared_witness:
  "\<exists>idx p'. constructSniffClassifier any_parser ''x'' = Inr (idx, p') \<and> constructSniffClassifier p' '' x'' = Inr (idx, p')"
proof -
  have "\<exists>r. constructSniffClassifier any_parser ''x'' = Inr r"
    by (simp add: constructSniffClassifier_def any_specs any_parser_def any_constructor_def shareSniffSpec_def
        trimSpace_def newBytecodeParser_def nextInlineSniffClassifierName_def empty_table_def addSniffClassifier_def
        normalizeSniffClassifierName_def inline_name_def itoa_def digits_rev.simps [of 0] trimLeft_def
        containsAny_def sniff_space_def space_len_def space_runes_def char_of_eq_iff nextTableIndex_def Let_def)
  then obtain idx p' where c: "constructSniffClassifier any_parser ''x'' = Inr (idx, p')" by auto
  from inline_specs_shared [OF c any_specs(1,2)] c show ?thesis
    by (simp add: any_parser_def any_constructor_def)
qed

end
