(* ===== verification/Classifiers.thy ===== *)
theory Classifiers
  imports Prelude "HOL-Library.Sublist"
begin

text \<open>
  Stream classifiers: \<^verbatim>\<open>src/sniffer/classifier.go\<close>, \<^verbatim>\<open>src/sniffer/basic.go\<close> and
  \<^verbatim>\<open>src/sniffer/combinators.go\<close>. A classifier is fed the bytes of a stream in pieces and answers with
  a state. The interface is open: \<open>'x\<close> is the type of the classifiers that are not combinators, with
  their \<open>Feed\<close> as a parameter. What the documentation asks of a classifier is the locale
  \<open>classifier\<close>; that the combinators keep it is a sublocale.
\<close>

subsection \<open>States\<close>

text \<open>\<^verbatim>\<open>State\<close> is a byte; foreign code may return a value outside the three constants.\<close>

datatype State = NeedMore | Match | Mismatch | StateOther nat

definition valid_state :: "State \<Rightarrow> bool" where
  "valid_state s \<longleftrightarrow> s \<in> {NeedMore, Match, Mismatch}"

definition checkedState :: "State \<Rightarrow> State outcome" where
  "checkedState s = (case s of StateOther _ \<Rightarrow> Panic | _ \<Rightarrow> Done s)"

definition checkedMinSniffBufferSize :: "int \<Rightarrow> nat outcome" where
  "checkedMinSniffBufferSize n = (if n < 0 then Panic else Done (nat n))"

text \<open>\<^verbatim>\<open>requireClassifier\<close>, \<^verbatim>\<open>requireFactory\<close>: a nil interface is \<^const>\<open>None\<close>.\<close>

definition required :: "'a option \<Rightarrow> 'a outcome" where
  "required c = (case c of None \<Rightarrow> Panic | Some c \<Rightarrow> Done c)"

lemma checkedState_valid [simp]: "valid_state s \<Longrightarrow> checkedState s = Done s"
  by (auto simp: valid_state_def checkedState_def)

lemma valid_states [simp]: "valid_state NeedMore" "valid_state Match" "valid_state Mismatch"
  by (simp_all add: valid_state_def)

subsection \<open>Classifiers\<close>

text \<open>
  The fields are those of the source's structs. The \<^verbatim>\<open>children\<close> and \<^verbatim>\<open>states\<close> of a combinator are
  parallel lists; \<open>Or\<close> also has the index of the child that matched.
\<close>

datatype 'x classifier =
    Leaf 'x
  | SizedC "'x classifier" nat
  | PrefixC "byte list" nat State
  | LimitC "'x classifier" nat nat nat State
  | AndC "'x classifier list" "State list" nat State
  | OrC "'x classifier list" "State list" nat State int
  | NotC "'x classifier" nat State

type_synonym 'x feeder = "'x \<Rightarrow> byte list \<Rightarrow> (State \<times> 'x) outcome"

fun prefix_feed :: "byte list \<Rightarrow> nat \<Rightarrow> byte list \<Rightarrow> State \<times> nat" where
  "prefix_feed want offset [] = (NeedMore, offset)"
| "prefix_feed want offset (b # p) =
     (if b \<noteq> want ! offset then (Mismatch, offset)
      else if Suc offset = length want then (Match, Suc offset)
      else prefix_feed want (Suc offset) p)"

text \<open>
  The loops of \<open>And\<close> and \<open>Or\<close> over the children, their states and what feeding each child gives;
  a child that comes after the deciding one, or whose state is terminal, is not fed.
\<close>

definition child_state :: "State \<Rightarrow> 'c \<Rightarrow> (State \<times> 'c) outcome \<Rightarrow> (State \<times> 'c) outcome" where
  "child_state s c r =
     (if s = NeedMore then obind r (\<lambda>(s', c'). obind (checkedState s') (\<lambda>s'. Done (s', c'))) else Done (s, c))"

fun and_loop :: "'c list \<Rightarrow> State list \<Rightarrow> (State \<times> 'c) outcome list \<Rightarrow> bool \<Rightarrow>
    (State \<times> 'c list \<times> State list) outcome" where
  "and_loop (c # cs) (s # ss) (r # rs) allMatched =
     obind (child_state s c r) (\<lambda>(s', c').
     if s' = Mismatch then Done (Mismatch, c' # cs, s' # ss)
     else omap (\<lambda>(res, cs', ss'). (res, c' # cs', s' # ss')) (and_loop cs ss rs (allMatched \<and> s' = Match)))"
| "and_loop _ _ _ allMatched = Done (if allMatched then Match else NeedMore, [], [])"

fun or_loop :: "int \<Rightarrow> 'c list \<Rightarrow> State list \<Rightarrow> (State \<times> 'c) outcome list \<Rightarrow> bool \<Rightarrow>
    (State \<times> int \<times> 'c list \<times> State list) outcome" where
  "or_loop i (c # cs) (s # ss) (r # rs) allMismatched =
     obind (child_state s c r) (\<lambda>(s', c').
     if s' = Match then Done (Match, i, c' # cs, s' # ss)
     else omap (\<lambda>(res, m, cs', ss'). (res, m, c' # cs', s' # ss'))
       (or_loop (i + 1) cs ss rs (allMismatched \<and> s' = Mismatch)))"
| "or_loop i _ _ _ allMismatched = Done (if allMismatched then Mismatch else NeedMore, -1, [], [])"

fun feed :: "'x feeder \<Rightarrow> 'x classifier feeder" where
  "feed lf (Leaf x) p = omap (apsnd Leaf) (lf x p)"
| "feed lf (SizedC c m) p = omap (apsnd (\<lambda>c. SizedC c m)) (feed lf c p)"
| "feed lf (PrefixC want offset st) p =
     (if st \<noteq> NeedMore then Done (st, PrefixC want offset st)
      else if want = [] then Done (Match, PrefixC want offset Match)
      else let (st', offset') = prefix_feed want offset p in Done (st', PrefixC want offset' st'))"
| "feed lf (LimitC c limit m seen st) p =
     (if st \<noteq> NeedMore then Done (st, LimitC c limit m seen st)
      else let p = take (limit - seen) p in
        obind (feed lf c p) (\<lambda>(s, c). obind (checkedState s) (\<lambda>s.
        let seen = seen + length p;
            st = (if s \<noteq> NeedMore then s else if seen = limit then Mismatch else NeedMore)
        in Done (st, LimitC c limit m seen st))))"
| "feed lf (AndC cs ss m st) p =
     (if st \<noteq> NeedMore then Done (st, AndC cs ss m st)
      else if cs = [] then Done (Match, AndC cs ss m Match)
      else omap (\<lambda>(st, cs, ss). (st, AndC cs ss m st)) (and_loop cs ss (map (\<lambda>c. feed lf c p) cs) True))"
| "feed lf (OrC cs ss m st mi) p =
     (if st \<noteq> NeedMore then Done (st, OrC cs ss m st mi)
      else if cs = [] then Done (Mismatch, OrC cs ss m Mismatch mi)
      else omap (\<lambda>(st, mi', cs, ss). (st, OrC cs ss m st (if st = Match then mi' else mi)))
        (or_loop 0 cs ss (map (\<lambda>c. feed lf c p) cs) True))"
| "feed lf (NotC c m st) p =
     (if st \<noteq> NeedMore then Done (st, NotC c m st)
      else obind (feed lf c p) (\<lambda>(s, c). obind (checkedState s) (\<lambda>s.
        let st = (case s of Match \<Rightarrow> Mismatch | Mismatch \<Rightarrow> Match | _ \<Rightarrow> NeedMore)
        in Done (st, NotC c m st))))"

text \<open>\<^verbatim>\<open>MinSniffBufferSize\<close>; \<open>ls\<close> is that of the other classifiers.\<close>

fun minSniffBufferSize :: "('x \<Rightarrow> int) \<Rightarrow> 'x classifier \<Rightarrow> int" where
  "minSniffBufferSize ls (Leaf x) = ls x"
| "minSniffBufferSize ls (SizedC c m) = int m"
| "minSniffBufferSize ls (PrefixC want offset st) = int (length want)"
| "minSniffBufferSize ls (LimitC c limit m seen st) = int m"
| "minSniffBufferSize ls (AndC cs ss m st) = int m"
| "minSniffBufferSize ls (OrC cs ss m st mi) = int m"
| "minSniffBufferSize ls (NotC c m st) = int m"

subsection \<open>Constructors\<close>

definition Prefix :: "byte list \<Rightarrow> 'x classifier" where
  "Prefix want = PrefixC want 0 NeedMore"

definition withMinSniffBufferSize :: "int \<Rightarrow> 'x classifier option \<Rightarrow> 'x classifier outcome" where
  "withMinSniffBufferSize minSize classifier =
     obind (required classifier) (\<lambda>c. obind (checkedMinSniffBufferSize minSize) (\<lambda>m. Done (SizedC c m)))"

definition Limit :: "('x \<Rightarrow> int) \<Rightarrow> int \<Rightarrow> 'x classifier option \<Rightarrow> 'x classifier outcome" where
  "Limit ls limit child =
     (if limit < 0 then Panic
      else obind (required child) (\<lambda>child.
        obind (checkedMinSniffBufferSize (minSniffBufferSize ls child)) (\<lambda>childSize.
        Done (LimitC child (nat limit) (min childSize (nat limit)) 0 NeedMore))))"

text \<open>\<^verbatim>\<open>MinSniffBufferSize(classifiers...)\<close>; the constructors of \<open>And\<close> and \<open>Or\<close> contain the same loop.\<close>

fun children_from :: "('x \<Rightarrow> int) \<Rightarrow> nat \<Rightarrow> 'x classifier option list \<Rightarrow> ('x classifier list \<times> nat) outcome" where
  "children_from ls minSize [] = Done ([], minSize)"
| "children_from ls minSize (c # cs) =
     obind (required c) (\<lambda>c. obind (checkedMinSniffBufferSize (minSniffBufferSize ls c)) (\<lambda>n.
     omap (apfst ((#) c)) (children_from ls (max minSize n) cs)))"

definition MinSniffBufferSize :: "('x \<Rightarrow> int) \<Rightarrow> 'x classifier option list \<Rightarrow> nat outcome" where
  "MinSniffBufferSize ls classifiers = omap snd (children_from ls 0 classifiers)"

definition And :: "('x \<Rightarrow> int) \<Rightarrow> 'x classifier option list \<Rightarrow> 'x classifier outcome" where
  "And ls children =
     omap (\<lambda>(cs, minSize). AndC cs (replicate (length cs) NeedMore) minSize NeedMore) (children_from ls 0 children)"

definition Or :: "('x \<Rightarrow> int) \<Rightarrow> 'x classifier option list \<Rightarrow> 'x classifier outcome" where
  "Or ls children =
     omap (\<lambda>(cs, minSize). OrC cs (replicate (length cs) NeedMore) minSize NeedMore (-1)) (children_from ls 0 children)"

definition Not :: "('x \<Rightarrow> int) \<Rightarrow> 'x classifier option \<Rightarrow> 'x classifier outcome" where
  "Not ls child =
     obind (required child) (\<lambda>child.
     obind (checkedMinSniffBufferSize (minSniffBufferSize ls child)) (\<lambda>minSize. Done (NotC child minSize NeedMore)))"

definition SSH :: "'x classifier" where
  "SSH = Prefix [0x53, 0x53, 0x48, 0x2D]"

subsection \<open>Factories\<close>

text \<open>
  A factory reports a size and makes classifiers; every call of \<^verbatim>\<open>NewClassifier\<close> gives a fresh
  instance in the same initial state.
\<close>

record 'x factory =
  fa_min :: int
  fa_new :: "'x classifier option outcome"

definition factoryFunc :: "'x classifier option outcome \<Rightarrow> 'x factory" where
  "factoryFunc f = \<lparr>fa_min = 0, fa_new = f\<rparr>"

definition factoryWithMinSniffBufferSize :: "int \<Rightarrow> 'x factory option \<Rightarrow> 'x factory outcome" where
  "factoryWithMinSniffBufferSize minSize factory =
     obind (required factory) (\<lambda>f. obind (checkedMinSniffBufferSize minSize) (\<lambda>m.
     Done \<lparr>fa_min = int m, fa_new = obind (fa_new f) (\<lambda>c. omap Some (required c))\<rparr>))"

fun minFactory_from :: "nat \<Rightarrow> 'x factory option list \<Rightarrow> nat outcome" where
  "minFactory_from minSize [] = Done minSize"
| "minFactory_from minSize (f # fs) =
     obind (required f) (\<lambda>f. obind (checkedMinSniffBufferSize (fa_min f)) (\<lambda>n. minFactory_from (max minSize n) fs))"

definition MinFactorySniffBufferSize :: "'x factory option list \<Rightarrow> nat outcome" where
  "MinFactorySniffBufferSize factories = minFactory_from 0 factories"

definition PrefixFactory :: "byte list \<Rightarrow> 'x factory outcome" where
  "PrefixFactory want =
     factoryWithMinSniffBufferSize (int (length want)) (Some (factoryFunc (Done (Some (Prefix want)))))"

definition SSHFactory :: "'x factory outcome" where
  "SSHFactory = PrefixFactory [0x53, 0x53, 0x48, 0x2D]"

definition LimitFactory :: "('x \<Rightarrow> int) \<Rightarrow> int \<Rightarrow> 'x factory option \<Rightarrow> 'x factory outcome" where
  "LimitFactory ls limit child =
     (if limit < 0 then Panic
      else obind (required child) (\<lambda>child.
        obind (checkedMinSniffBufferSize (fa_min child)) (\<lambda>childSize.
        factoryWithMinSniffBufferSize (int (min childSize (nat limit)))
          (Some (factoryFunc (obind (fa_new child) (\<lambda>c. obind (required c) (\<lambda>c. omap Some (Limit ls limit (Some c))))))))))"

text \<open>The loop that makes the children of a combinator.\<close>

fun new_classifiers :: "'x factory list \<Rightarrow> 'x classifier option list outcome" where
  "new_classifiers [] = Done []"
| "new_classifiers (f # fs) =
     obind (fa_new f) (\<lambda>c. obind (required c) (\<lambda>c. omap ((#) (Some c)) (new_classifiers fs)))"

fun required_all :: "'a option list \<Rightarrow> 'a list outcome" where
  "required_all [] = Done []"
| "required_all (x # xs) = obind (required x) (\<lambda>x. omap ((#) x) (required_all xs))"

definition AndFactory :: "('x \<Rightarrow> int) \<Rightarrow> 'x factory option list \<Rightarrow> 'x factory outcome" where
  "AndFactory ls children =
     obind (required_all children) (\<lambda>fs. obind (MinFactorySniffBufferSize children) (\<lambda>n.
     factoryWithMinSniffBufferSize (int n)
       (Some (factoryFunc (obind (new_classifiers fs) (\<lambda>cs. omap Some (And ls cs)))))))"

definition OrFactory :: "('x \<Rightarrow> int) \<Rightarrow> 'x factory option list \<Rightarrow> 'x factory outcome" where
  "OrFactory ls children =
     obind (required_all children) (\<lambda>fs. obind (MinFactorySniffBufferSize children) (\<lambda>n.
     factoryWithMinSniffBufferSize (int n)
       (Some (factoryFunc (obind (new_classifiers fs) (\<lambda>cs. omap Some (Or ls cs)))))))"

definition NotFactory :: "('x \<Rightarrow> int) \<Rightarrow> 'x factory option \<Rightarrow> 'x factory outcome" where
  "NotFactory ls child =
     obind (required child) (\<lambda>f. obind (MinFactorySniffBufferSize [child]) (\<lambda>n.
     factoryWithMinSniffBufferSize (int n)
       (Some (factoryFunc (obind (fa_new f) (\<lambda>c. obind (required c) (\<lambda>c. omap Some (Not ls (Some c)))))))))"

subsection \<open>Metadata\<close>

datatype 'm meta = Plain 'm | CompositeMetadata "'m meta option list"

fun metadata :: "('x \<Rightarrow> 'm option) \<Rightarrow> 'x classifier \<Rightarrow> 'm meta option" where
  "metadata lm (Leaf x) = map_option Plain (lm x)"
| "metadata lm (SizedC c m) = metadata lm c"
| "metadata lm (PrefixC want offset st) = None"
| "metadata lm (LimitC c limit m seen st) = metadata lm c"
| "metadata lm (AndC cs ss m st) =
     (if st \<noteq> Match then None
      else let children = map (metadata lm) cs in
        case filter (\<lambda>x. x \<noteq> None) children of
          [] \<Rightarrow> None
        | [x] \<Rightarrow> x
        | _ \<Rightarrow> Some (CompositeMetadata children))"
| "metadata lm (OrC cs ss m st mi) =
     (if st \<noteq> Match \<or> mi < 0 \<or> mi \<ge> int (length cs) then None else map (metadata lm) cs ! nat mi)"
| "metadata lm (NotC c m st) = None"

subsection \<open>The contract of a classifier\<close>

text \<open>
  \<open>verdict x p\<close> is the state that \<open>x\<close> reports once \<open>p\<close> has been fed, in whatever pieces: \<open>Feed\<close>
  computes it and leaves a classifier that goes on from there. \<open>Match\<close> and \<open>Mismatch\<close> are final.
  The contract is about the streams \<open>p\<close> with \<open>safe x p\<close>; a classifier that can panic is not safe on
  the streams that make it panic.
\<close>

locale classifier =
  fixes fd :: "'x feeder" and ok :: "'x \<Rightarrow> bool" and safe :: "'x \<Rightarrow> byte list \<Rightarrow> bool"
    and verdict :: "'x \<Rightarrow> byte list \<Rightarrow> State" and minsize :: "'x \<Rightarrow> int"
  assumes fd_verdict: "ok x \<Longrightarrow> safe x p \<Longrightarrow>
      \<exists>x'. fd x p = Done (verdict x p, x') \<and> ok x' \<and> minsize x' = minsize x \<and>
        (\<forall>q. safe x (p @ q) \<longrightarrow> safe x' q \<and> verdict x' q = verdict x (p @ q))"
    and safe_prefix: "ok x \<Longrightarrow> safe x (p @ q) \<Longrightarrow> safe x p"
    and verdict_valid: "ok x \<Longrightarrow> valid_state (verdict x p)"
    and verdict_final: "ok x \<Longrightarrow> safe x (p @ q) \<Longrightarrow> verdict x p \<noteq> NeedMore \<Longrightarrow> verdict x (p @ q) = verdict x p"
    and minsize_nonneg: "ok x \<Longrightarrow> 0 \<le> minsize x"
    and decided: "ok x \<Longrightarrow> safe x p \<Longrightarrow> minsize x \<le> int (length p) \<Longrightarrow> verdict x p \<noteq> NeedMore"
begin

text \<open>Feeding in pieces.\<close>

fun feed_pieces :: "'x \<Rightarrow> State \<Rightarrow> byte list list \<Rightarrow> (State \<times> 'x) outcome" where
  "feed_pieces x s [] = Done (s, x)"
| "feed_pieces x s (p # ps) = obind (fd x p) (\<lambda>(s, x). feed_pieces x s ps)"

lemma pieces_verdict:
  "ok x \<Longrightarrow> safe x (concat ps) \<Longrightarrow> \<exists>x'. feed_pieces x (verdict x []) ps = Done (verdict x (concat ps), x')"
proof (induction ps arbitrary: x)
  case (Cons p ps)
  from Cons.prems(2) have s: "safe x (p @ concat ps)" by simp
  have "safe x p" by (rule safe_prefix [OF Cons.prems(1) s])
  from fd_verdict [OF Cons.prems(1) this] obtain x' where x': "fd x p = Done (verdict x p, x')" "ok x'"
      "\<And>q. safe x (p @ q) \<Longrightarrow> safe x' q \<and> verdict x' q = verdict x (p @ q)" by blast
  moreover have "verdict x' [] = verdict x p"
    using x'(3) [of "[]"] \<open>safe x p\<close> by simp
  ultimately show ?case using Cons.IH [of x'] s by auto
qed simp

end

subsection \<open>Verdicts of the combinators\<close>

definition prefix_verdict :: "byte list \<Rightarrow> byte list \<Rightarrow> State" where
  "prefix_verdict want p = (if prefix want p then Match else if prefix p want then NeedMore else Mismatch)"

definition and_verdict :: "State list \<Rightarrow> State" where
  "and_verdict vs = (if Mismatch \<in> set vs then Mismatch else if set vs \<subseteq> {Match} then Match else NeedMore)"

definition or_verdict :: "State list \<Rightarrow> State" where
  "or_verdict vs = (if Match \<in> set vs then Match else if set vs \<subseteq> {Mismatch} then Mismatch else NeedMore)"

fun not_verdict :: "State \<Rightarrow> State" where
  "not_verdict Match = Mismatch"
| "not_verdict Mismatch = Match"
| "not_verdict _ = NeedMore"

definition settled :: "State \<Rightarrow> State \<Rightarrow> State" where
  "settled s v = (if s \<noteq> NeedMore then s else v)"

fun tree_verdict :: "('x \<Rightarrow> byte list \<Rightarrow> State) \<Rightarrow> 'x classifier \<Rightarrow> byte list \<Rightarrow> State" where
  "tree_verdict lv (Leaf x) p = lv x p"
| "tree_verdict lv (SizedC c m) p = tree_verdict lv c p"
| "tree_verdict lv (PrefixC want offset st) p = settled st (prefix_verdict (drop offset want) p)"
| "tree_verdict lv (LimitC c limit m seen st) p =
     settled st (settled (tree_verdict lv c (take (limit - seen) p))
       (if limit - seen \<le> length p then Mismatch else NeedMore))"
| "tree_verdict lv (AndC cs ss m st) p =
     settled st (and_verdict (map2 settled ss (map (\<lambda>c. tree_verdict lv c p) cs)))"
| "tree_verdict lv (OrC cs ss m st mi) p =
     settled st (or_verdict (map2 settled ss (map (\<lambda>c. tree_verdict lv c p) cs)))"
| "tree_verdict lv (NotC c m st) p = settled st (not_verdict (tree_verdict lv c p))"

text \<open>A stream is safe for a combinator when it is safe for every leaf.\<close>

fun tree_safe :: "('x \<Rightarrow> byte list \<Rightarrow> bool) \<Rightarrow> 'x classifier \<Rightarrow> byte list \<Rightarrow> bool" where
  "tree_safe ls (Leaf x) p = ls x p"
| "tree_safe ls (SizedC c m) p = tree_safe ls c p"
| "tree_safe ls (PrefixC want offset st) p = True"
| "tree_safe ls (LimitC c limit m seen st) p = (st = NeedMore \<longrightarrow> tree_safe ls c p)"
| "tree_safe ls (AndC cs ss m st) p =
     (st = NeedMore \<longrightarrow> list_all2 (\<lambda>s b. s = NeedMore \<longrightarrow> b) ss (map (\<lambda>c. tree_safe ls c p) cs))"
| "tree_safe ls (OrC cs ss m st mi) p =
     (st = NeedMore \<longrightarrow> list_all2 (\<lambda>s b. s = NeedMore \<longrightarrow> b) ss (map (\<lambda>c. tree_safe ls c p) cs))"
| "tree_safe ls (NotC c m st) p = (st = NeedMore \<longrightarrow> tree_safe ls c p)"

text \<open>
  Well-formed classifiers: the states are valid, the reported size is large enough for the children
  (a wrapper's claim included), and a running classifier has running or terminal children.
\<close>

fun tree_ok :: "('x \<Rightarrow> bool) \<Rightarrow> ('x \<Rightarrow> int) \<Rightarrow> 'x classifier \<Rightarrow> bool" where
  "tree_ok lo ls (Leaf x) = lo x"
| "tree_ok lo ls (SizedC c m) = (tree_ok lo ls c \<and> minSniffBufferSize ls c \<le> int m)"
| "tree_ok lo ls (PrefixC want offset st) =
     (valid_state st \<and> (st = NeedMore \<longrightarrow> (if want = [] then offset = 0 else offset < length want)))"
| "tree_ok lo ls (LimitC c limit m seen st) =
     (valid_state st \<and> (st = NeedMore \<longrightarrow> tree_ok lo ls c \<and> seen \<le> limit) \<and>
      min (minSniffBufferSize ls c) (int limit) \<le> int m)"
| "tree_ok lo ls (AndC cs ss m st) =
     (valid_state st \<and> (st = NeedMore \<longrightarrow>
        list_all valid_state ss \<and> list_all (\<lambda>c. minSniffBufferSize ls c \<le> int m) cs \<and>
        list_all2 (\<lambda>s b. s = NeedMore \<longrightarrow> b) ss (map (tree_ok lo ls) cs)))"
| "tree_ok lo ls (OrC cs ss m st mi) =
     (valid_state st \<and> (st = NeedMore \<longrightarrow>
        list_all valid_state ss \<and> list_all (\<lambda>c. minSniffBufferSize ls c \<le> int m) cs \<and>
        list_all2 (\<lambda>s b. s = NeedMore \<longrightarrow> b) ss (map (tree_ok lo ls) cs)))"
| "tree_ok lo ls (NotC c m st) =
     (valid_state st \<and> (st = NeedMore \<longrightarrow> tree_ok lo ls c) \<and> minSniffBufferSize ls c \<le> int m)"

subsection \<open>Facts on verdicts\<close>

lemma settled_simps [simp]: "settled NeedMore v = v" "settled s NeedMore = s" "s \<noteq> NeedMore \<Longrightarrow> settled s v = s"
  by (simp_all add: settled_def)

lemma settled_valid: "valid_state s \<Longrightarrow> (s = NeedMore \<Longrightarrow> valid_state v) \<Longrightarrow> valid_state (settled s v)"
  by (simp add: settled_def)

lemma valid_cases: "valid_state s \<Longrightarrow> s \<noteq> NeedMore \<Longrightarrow> s = Match \<or> s = Mismatch"
  by (auto simp: valid_state_def)

lemma prefix_verdict_final: "prefix_verdict w p \<noteq> NeedMore \<Longrightarrow> prefix_verdict w (p @ q) = prefix_verdict w p"
  by (auto simp: prefix_verdict_def prefix_append dest: append_prefixD split: if_splits)

lemma combined_valid: "valid_state (and_verdict vs)" "valid_state (or_verdict vs)" "valid_state (not_verdict v)"
  by (simp_all add: and_verdict_def or_verdict_def) (cases v; simp)

lemma combined_range:
  "and_verdict vs \<noteq> Match \<Longrightarrow> and_verdict vs \<noteq> Mismatch \<Longrightarrow> and_verdict vs = NeedMore"
  "or_verdict vs \<noteq> Match \<Longrightarrow> or_verdict vs \<noteq> Mismatch \<Longrightarrow> or_verdict vs = NeedMore"
  by (auto simp: and_verdict_def or_verdict_def split: if_splits)

lemma and_verdict_final:
  assumes "list_all2 (\<lambda>v w. v \<noteq> NeedMore \<longrightarrow> w = v) vs ws" and "and_verdict vs \<noteq> NeedMore"
  shows "and_verdict ws = and_verdict vs"
proof -
  have "Mismatch \<in> set ws" if "Mismatch \<in> set vs"
    using assms(1) that by (induction rule: list_all2_induct) auto
  moreover have "ws = vs" if "set vs \<subseteq> {Match}"
    using assms(1) that by (induction rule: list_all2_induct) auto
  ultimately show ?thesis using assms(2) by (auto simp: and_verdict_def split: if_splits)
qed

lemma or_verdict_final:
  assumes "list_all2 (\<lambda>v w. v \<noteq> NeedMore \<longrightarrow> w = v) vs ws" and "or_verdict vs \<noteq> NeedMore"
  shows "or_verdict ws = or_verdict vs"
proof -
  have "Match \<in> set ws" if "Match \<in> set vs"
    using assms(1) that by (induction rule: list_all2_induct) auto
  moreover have "ws = vs" if "set vs \<subseteq> {Mismatch}"
    using assms(1) that by (induction rule: list_all2_induct) auto
  ultimately show ?thesis using assms(2) by (auto simp: or_verdict_def split: if_splits)
qed

lemma decided_combined:
  assumes "list_all (\<lambda>v. v = Match \<or> v = Mismatch) vs"
  shows "and_verdict vs \<noteq> NeedMore" and "or_verdict vs \<noteq> NeedMore"
  using assms by (auto simp: and_verdict_def or_verdict_def list_all_iff)

lemma prefix_feed_verdict:
  "offset < length want \<Longrightarrow> \<exists>offset'. prefix_feed want offset p = (prefix_verdict (drop offset want) p, offset') \<and>
     (prefix_verdict (drop offset want) p = NeedMore \<longrightarrow>
        offset' < length want \<and> (\<forall>q. prefix_verdict (drop offset' want) q = prefix_verdict (drop offset want) (p @ q)))"
proof (induction want offset p rule: prefix_feed.induct)
  case (2 want offset b p)
  have d: "drop offset want = want ! offset # drop (Suc offset) want"
    using "2.prems" by (simp add: Cons_nth_drop_Suc)
  have step: "prefix_verdict (drop offset want) (b # r) =
      (if b \<noteq> want ! offset then Mismatch else prefix_verdict (drop (Suc offset) want) r)" for r
    by (auto simp: d prefix_verdict_def)
  show ?case
  proof (cases "b = want ! offset \<and> Suc offset \<noteq> length want")
    case True
    with "2.IH" "2.prems" step show ?thesis by auto
  next
    case False
    then show ?thesis using step [of p] by (auto simp: prefix_verdict_def)
  qed
qed (auto simp: prefix_verdict_def)

lemma verdict_Cons:
  "and_verdict (u # us) = (if u = Mismatch then Mismatch else if u = Match \<or> and_verdict us = Mismatch
     then and_verdict us else NeedMore)"
  "or_verdict (u # us) = (if u = Match then Match else if u = Mismatch \<or> or_verdict us = Match
     then or_verdict us else NeedMore)"
  by (auto simp: and_verdict_def or_verdict_def)

lemma and_loop_result:
  fixes V :: "'c \<Rightarrow> State" and C :: "'c \<Rightarrow> 'c"
  defines "us \<equiv> \<lambda>ss cs. map2 (\<lambda>s c. settled s (V c)) ss cs"
    and "ds \<equiv> \<lambda>ss cs. map2 (\<lambda>s c. if s = NeedMore then C c else c) ss cs"
  shows "list_all2 (\<lambda>s c. s = NeedMore \<longrightarrow> R c = Done (V c, C c) \<and> valid_state (V c)) ss cs \<Longrightarrow>
   \<exists>cs' ss'. and_loop cs ss (map R cs) allMatched =
       Done (if \<not> allMatched \<and> and_verdict (us ss cs) = Match then NeedMore else and_verdict (us ss cs), cs', ss') \<and>
     (and_verdict (us ss cs) \<noteq> Mismatch \<longrightarrow> ss' = us ss cs \<and> cs' = ds ss cs)"
proof (induction ss cs arbitrary: allMatched rule: list_all2_induct)
  case Nil
  then show ?case by (simp add: and_verdict_def us_def ds_def)
next
  case (Cons s ss c cs)
  let ?u = "settled s (V c)"
  have step: "child_state s c (R c) = Done (?u, if s = NeedMore then C c else c)"
    using Cons.hyps(1) by (simp add: child_state_def)
  have us: "us (s # ss) (c # cs) = ?u # us ss cs" "ds (s # ss) (c # cs) = (if s = NeedMore then C c else c) # ds ss cs"
    by (simp_all add: us_def ds_def)
  from Cons.IH [of "allMatched \<and> ?u = Match"] obtain cs' ss' where
    r: "and_loop cs ss (map R cs) (allMatched \<and> ?u = Match) =
       Done (if \<not> (allMatched \<and> ?u = Match) \<and> and_verdict (us ss cs) = Match then NeedMore else and_verdict (us ss cs), cs', ss')"
      "and_verdict (us ss cs) \<noteq> Mismatch \<Longrightarrow> ss' = us ss cs \<and> cs' = ds ss cs" by blast
  show ?case
  proof (cases "?u = Mismatch")
    case True
    then show ?thesis by (simp add: step us verdict_Cons)
  next
    case False
    then have "and_verdict (us (s # ss) (c # cs)) = Mismatch \<longleftrightarrow> and_verdict (us ss cs) = Mismatch"
        "and_verdict (us (s # ss) (c # cs)) = Match \<longleftrightarrow> ?u = Match \<and> and_verdict (us ss cs) = Match"
      by (simp_all add: us verdict_Cons)
    moreover have "(if \<not> (allMatched \<and> ?u = Match) \<and> and_verdict (us ss cs) = Match then NeedMore else and_verdict (us ss cs)) =
        (if \<not> allMatched \<and> and_verdict (us (s # ss) (c # cs)) = Match then NeedMore else and_verdict (us (s # ss) (c # cs)))"
      using False combined_range(1) [of "us ss cs"] by (simp add: us verdict_Cons)
    ultimately show ?thesis using False r by (auto simp: step us)
  qed
qed

lemma or_loop_result:
  fixes V :: "'c \<Rightarrow> State" and C :: "'c \<Rightarrow> 'c"
  defines "us \<equiv> \<lambda>ss cs. map2 (\<lambda>s c. settled s (V c)) ss cs"
    and "ds \<equiv> \<lambda>ss cs. map2 (\<lambda>s c. if s = NeedMore then C c else c) ss cs"
  shows "list_all2 (\<lambda>s c. s = NeedMore \<longrightarrow> R c = Done (V c, C c) \<and> valid_state (V c)) ss cs \<Longrightarrow>
   \<exists>mi cs' ss'. or_loop i cs ss (map R cs) allMismatched =
       Done (if \<not> allMismatched \<and> or_verdict (us ss cs) = Mismatch then NeedMore else or_verdict (us ss cs), mi, cs', ss') \<and>
     (or_verdict (us ss cs) \<noteq> Match \<longrightarrow> ss' = us ss cs \<and> cs' = ds ss cs)"
proof (induction ss cs arbitrary: i allMismatched rule: list_all2_induct)
  case Nil
  then show ?case by (simp add: or_verdict_def us_def ds_def)
next
  case (Cons s ss c cs)
  let ?u = "settled s (V c)"
  have step: "child_state s c (R c) = Done (?u, if s = NeedMore then C c else c)"
    using Cons.hyps(1) by (simp add: child_state_def)
  have us: "us (s # ss) (c # cs) = ?u # us ss cs" "ds (s # ss) (c # cs) = (if s = NeedMore then C c else c) # ds ss cs"
    by (simp_all add: us_def ds_def)
  from Cons.IH [of "i + 1" "allMismatched \<and> ?u = Mismatch"] obtain mi cs' ss' where
    r: "or_loop (i + 1) cs ss (map R cs) (allMismatched \<and> ?u = Mismatch) =
       Done (if \<not> (allMismatched \<and> ?u = Mismatch) \<and> or_verdict (us ss cs) = Mismatch then NeedMore else or_verdict (us ss cs),
         mi, cs', ss')"
      "or_verdict (us ss cs) \<noteq> Match \<Longrightarrow> ss' = us ss cs \<and> cs' = ds ss cs" by blast
  show ?case
  proof (cases "?u = Match")
    case True
    then show ?thesis by (simp add: step us verdict_Cons)
  next
    case False
    then have "or_verdict (us (s # ss) (c # cs)) = Match \<longleftrightarrow> or_verdict (us ss cs) = Match"
        "or_verdict (us (s # ss) (c # cs)) = Mismatch \<longleftrightarrow> ?u = Mismatch \<and> or_verdict (us ss cs) = Mismatch"
      by (simp_all add: us verdict_Cons)
    moreover have "(if \<not> (allMismatched \<and> ?u = Mismatch) \<and> or_verdict (us ss cs) = Mismatch then NeedMore else or_verdict (us ss cs)) =
        (if \<not> allMismatched \<and> or_verdict (us (s # ss) (c # cs)) = Mismatch then NeedMore else or_verdict (us (s # ss) (c # cs)))"
      using False combined_range(2) [of "us ss cs"] by (simp add: us verdict_Cons)
    ultimately show ?thesis using False r by (auto simp: step us)
  qed
qed

subsection \<open>The combinators keep the contract\<close>

lemma map2_settled: "map2 settled ss (map f cs) = map2 (\<lambda>s c. settled s (f c)) ss cs"
  by (simp add: zip_map2 split_def)

lemma list_all2_children:
  "list_all2 P ss (map f cs) \<longleftrightarrow> list_all2 (\<lambda>s c. P s (f c)) ss cs"
  by (simp add: list_all2_map2)

lemma running_children:
  assumes "list_all2 (\<lambda>s c. s = NeedMore \<longrightarrow> A c) ss cs" and "list_all2 (\<lambda>s c. s = NeedMore \<longrightarrow> B c) ss cs"
    and "\<And>c. c \<in> set cs \<Longrightarrow> A c \<Longrightarrow> B c \<Longrightarrow> D c"
  shows "list_all2 (\<lambda>s c. s = NeedMore \<longrightarrow> D c) ss cs"
  using assms by (simp add: list_all2_conv_all_nth)

text \<open>The children of a running combinator, seen through one stream.\<close>

lemma children_later:
  assumes "list_all2 (\<lambda>s c. s = NeedMore \<longrightarrow> V c = NeedMore \<or> W c = V c) ss cs"
  shows "list_all2 (\<lambda>v w. v \<noteq> NeedMore \<longrightarrow> w = v) (map2 (\<lambda>s c. settled s (V c)) ss cs)
    (map2 (\<lambda>s c. settled s (W c)) ss cs)"
  using assms by (induction rule: list_all2_induct) (auto simp: settled_def)

lemma children_decided:
  assumes "list_all2 (\<lambda>s c. s = NeedMore \<longrightarrow> V c = Match \<or> V c = Mismatch) ss cs" and "list_all valid_state ss"
  shows "list_all (\<lambda>v. v = Match \<or> v = Mismatch) (map2 (\<lambda>s c. settled s (V c)) ss cs)"
  using assms by (induction rule: list_all2_induct) (auto simp: settled_def dest: valid_cases)

lemma children_resumed:
  assumes "list_all2 (\<lambda>s c. s = NeedMore \<longrightarrow> W' (C c) = W c \<and> (V c = NeedMore \<or> W c = V c)) ss cs"
  shows "map2 (\<lambda>s c. settled s (W' c)) (map2 (\<lambda>s c. settled s (V c)) ss cs)
      (map2 (\<lambda>s c. if s = NeedMore then C c else c) ss cs) =
    map2 (\<lambda>s c. settled s (W c)) ss cs"
  using assms by (induction rule: list_all2_induct) (auto simp: settled_def)

lemma children_kept:
  assumes "list_all2 (\<lambda>s c. s = NeedMore \<longrightarrow> V c = NeedMore \<longrightarrow> P (C c)) ss cs"
  shows "list_all2 (\<lambda>s c. s = NeedMore \<longrightarrow> P c) (map2 (\<lambda>s c. settled s (V c)) ss cs)
      (map2 (\<lambda>s c. if s = NeedMore then C c else c) ss cs)"
  using assms by (induction rule: list_all2_induct) (auto simp: settled_def)

lemma children_valid:
  assumes "list_all2 (\<lambda>s c. s = NeedMore \<longrightarrow> valid_state (V c)) ss cs" and "list_all valid_state ss"
  shows "list_all valid_state (map2 (\<lambda>s c. settled s (V c)) ss cs)"
  using assms by (induction rule: list_all2_induct) (auto simp: settled_def)

lemma children_sizes:
  assumes "list_all2 (\<lambda>s c. s = NeedMore \<longrightarrow> f (C c) = f c) ss cs" and "list_all (\<lambda>c. f c \<le> (m :: int)) cs"
  shows "list_all (\<lambda>c. f c \<le> m) (map2 (\<lambda>s c. if s = NeedMore then C c else c) ss cs)"
  using assms by (induction rule: list_all2_induct) auto

context classifier
begin

abbreviation tok :: "'x classifier \<Rightarrow> bool" where "tok \<equiv> tree_ok ok minsize"
abbreviation tsafe :: "'x classifier \<Rightarrow> byte list \<Rightarrow> bool" where "tsafe \<equiv> tree_safe safe"
abbreviation tverdict :: "'x classifier \<Rightarrow> byte list \<Rightarrow> State" where "tverdict \<equiv> tree_verdict verdict"

lemma tree_safe_prefix: "tok c \<Longrightarrow> tsafe c (p @ q) \<Longrightarrow> tsafe c p"
proof (induction c)
  case (Leaf x)
  then show ?case using safe_prefix [of x p q] by simp
next
  case (AndC cs ss m st)
  show ?case
    unfolding tree_safe.simps list_all2_children
  proof (intro impI, rule running_children [where A = tok and B = "\<lambda>c. tsafe c (p @ q)"])
    assume "st = NeedMore"
    then show "list_all2 (\<lambda>s c. s = NeedMore \<longrightarrow> tok c) ss cs" "list_all2 (\<lambda>s c. s = NeedMore \<longrightarrow> tsafe c (p @ q)) ss cs"
      using AndC.prems by (simp_all add: list_all2_children)
  qed (rule AndC.IH)
next
  case (OrC cs ss m st mi)
  show ?case
    unfolding tree_safe.simps list_all2_children
  proof (intro impI, rule running_children [where A = tok and B = "\<lambda>c. tsafe c (p @ q)"])
    assume "st = NeedMore"
    then show "list_all2 (\<lambda>s c. s = NeedMore \<longrightarrow> tok c) ss cs" "list_all2 (\<lambda>s c. s = NeedMore \<longrightarrow> tsafe c (p @ q)) ss cs"
      using OrC.prems by (simp_all add: list_all2_children)
  qed (rule OrC.IH)
qed simp_all

lemma tree_valid: "tok c \<Longrightarrow> valid_state (tverdict c p)"
proof (induction c arbitrary: p)
  case (LimitC c limit m seen st)
  have "valid_state (settled (tverdict c (take (limit - seen) p)) (if limit - seen \<le> length p then Mismatch else NeedMore))"
    if "tok c" by (rule settled_valid) (simp_all add: LimitC.IH [OF that])
  then show ?case using LimitC.prems by (auto intro: settled_valid)
qed (simp_all add: settled_valid verdict_valid combined_valid prefix_verdict_def)

lemma tree_final: "tok c \<Longrightarrow> tsafe c (p @ q) \<Longrightarrow> tverdict c p \<noteq> NeedMore \<Longrightarrow> tverdict c (p @ q) = tverdict c p"
proof (induction c arbitrary: p q)
  case (LimitC c limit m seen st)
  show ?case
  proof (cases "st = NeedMore \<and> length p < limit - seen")
    case True
    let ?r = "take (limit - seen - length p) q"
    have "tsafe c (p @ ?r)"
      using LimitC.prems True tree_safe_prefix [of c "p @ ?r" "drop (limit - seen - length p) q"] by simp
    moreover have "tverdict c p \<noteq> NeedMore" using LimitC.prems(3) True by simp
    moreover have "tok c" using LimitC.prems(1) True by simp
    ultimately show ?thesis using LimitC.IH [of p ?r] True by simp
  next
    case False
    then show ?thesis by (cases "st = NeedMore") simp_all
  qed
next
  case (AndC cs ss m st)
  show ?case
  proof (cases "st = NeedMore")
    case True
    have "list_all2 (\<lambda>s c. s = NeedMore \<longrightarrow> tverdict c p = NeedMore \<or> tverdict c (p @ q) = tverdict c p) ss cs"
    proof (rule running_children [where A = tok and B = "\<lambda>c. tsafe c (p @ q)"])
      show "list_all2 (\<lambda>s c. s = NeedMore \<longrightarrow> tok c) ss cs" "list_all2 (\<lambda>s c. s = NeedMore \<longrightarrow> tsafe c (p @ q)) ss cs"
        using AndC.prems True by (simp_all add: list_all2_children)
    qed (use AndC.IH in blast)
    from and_verdict_final [OF children_later [OF this]] AndC.prems(3) True show ?thesis by (simp add: map2_settled)
  qed simp
next
  case (OrC cs ss m st mi)
  show ?case
  proof (cases "st = NeedMore")
    case True
    have "list_all2 (\<lambda>s c. s = NeedMore \<longrightarrow> tverdict c p = NeedMore \<or> tverdict c (p @ q) = tverdict c p) ss cs"
    proof (rule running_children [where A = tok and B = "\<lambda>c. tsafe c (p @ q)"])
      show "list_all2 (\<lambda>s c. s = NeedMore \<longrightarrow> tok c) ss cs" "list_all2 (\<lambda>s c. s = NeedMore \<longrightarrow> tsafe c (p @ q)) ss cs"
        using OrC.prems True by (simp_all add: list_all2_children)
    qed (use OrC.IH in blast)
    from or_verdict_final [OF children_later [OF this]] OrC.prems(3) True show ?thesis by (simp add: map2_settled)
  qed simp
next
  case (NotC c m st)
  show ?case
  proof (cases "st = NeedMore")
    case True
    with NotC.prems have "tverdict c p \<noteq> NeedMore" by auto
    with NotC.IH NotC.prems True show ?thesis by simp
  qed simp
next
  case (Leaf x)
  then show ?case by (simp add: verdict_final)
next
  case (PrefixC want offset st)
  show ?case
  proof (cases "st = NeedMore")
    case True
    with PrefixC.prems(3) have "prefix_verdict (drop offset want) p \<noteq> NeedMore" by simp
    from prefix_verdict_final [OF this] True show ?thesis by (simp only: tree_verdict.simps settled_simps)
  qed simp
next
  case (SizedC c m)
  from SizedC.IH [of p q] SizedC.prems show ?case by simp
qed

lemma tree_decided:
  "tok c \<Longrightarrow> tsafe c p \<Longrightarrow> minSniffBufferSize minsize c \<le> int (length p) \<Longrightarrow> tverdict c p \<noteq> NeedMore"
proof (induction c)
  case (Leaf x)
  then show ?case using decided [of x p] by simp
next
  case (PrefixC want offset st)
  have "prefix (drop offset want) p" if "length want \<le> length p" and pre: "prefix p (drop offset want)"
  proof -
    from pre obtain r where "drop offset want = p @ r" by (auto simp: prefix_def)
    moreover from this have "length want - offset = length p + length r" by (metis length_append length_drop)
    then have "length r = 0" using that(1) by linarith
    ultimately show ?thesis by simp
  qed
  then have "prefix_verdict (drop offset want) p \<noteq> NeedMore" if "length want \<le> length p"
    using that by (simp add: prefix_verdict_def)
  then show ?case using PrefixC.prems by (cases "st = NeedMore") (auto split: if_splits)
next
  case (LimitC c limit m seen st)
  show ?case
  proof (cases "st = NeedMore \<and> length p < limit - seen")
    case True
    with LimitC.prems have "minSniffBufferSize minsize c \<le> int (length p)" by (auto simp: min_def split: if_splits)
    with LimitC True have "tverdict c p \<noteq> NeedMore" by simp
    with True show ?thesis by simp
  next
    case False
    then show ?thesis by (cases "st = NeedMore") (simp_all add: settled_def)
  qed
next
  case (AndC cs ss m st)
  show ?case
  proof (cases "st = NeedMore")
    case True
    have "list_all2 (\<lambda>s c. s = NeedMore \<longrightarrow> tverdict c p = Match \<or> tverdict c p = Mismatch) ss cs"
    proof (rule running_children [where A = tok and B = "\<lambda>c. tsafe c p"])
      show "list_all2 (\<lambda>s c. s = NeedMore \<longrightarrow> tok c) ss cs" "list_all2 (\<lambda>s c. s = NeedMore \<longrightarrow> tsafe c p) ss cs"
        using AndC.prems True by (simp_all add: list_all2_children)
      fix c
      assume c: "c \<in> set cs" "tok c" "tsafe c p"
      with AndC.prems True have "minSniffBufferSize minsize c \<le> int (length p)" by (auto simp: list_all_iff)
      from AndC.IH [OF c this] tree_valid [OF c(2)] show "tverdict c p = Match \<or> tverdict c p = Mismatch"
        by (blast dest: valid_cases)
    qed
    from decided_combined(1) [OF children_decided [OF this]] AndC.prems True show ?thesis by (simp add: map2_settled)
  qed simp
next
  case (OrC cs ss m st mi)
  show ?case
  proof (cases "st = NeedMore")
    case True
    have "list_all2 (\<lambda>s c. s = NeedMore \<longrightarrow> tverdict c p = Match \<or> tverdict c p = Mismatch) ss cs"
    proof (rule running_children [where A = tok and B = "\<lambda>c. tsafe c p"])
      show "list_all2 (\<lambda>s c. s = NeedMore \<longrightarrow> tok c) ss cs" "list_all2 (\<lambda>s c. s = NeedMore \<longrightarrow> tsafe c p) ss cs"
        using OrC.prems True by (simp_all add: list_all2_children)
      fix c
      assume c: "c \<in> set cs" "tok c" "tsafe c p"
      with OrC.prems True have "minSniffBufferSize minsize c \<le> int (length p)" by (auto simp: list_all_iff)
      from OrC.IH [OF c this] tree_valid [OF c(2)] show "tverdict c p = Match \<or> tverdict c p = Mismatch"
        by (blast dest: valid_cases)
    qed
    from decided_combined(2) [OF children_decided [OF this]] OrC.prems True show ?thesis by (simp add: map2_settled)
  qed simp
next
  case (NotC c m st)
  have "not_verdict v \<noteq> NeedMore" if "v \<noteq> NeedMore" "valid_state v" for v
    using that by (auto dest: valid_cases)
  then show ?case using NotC tree_valid [of c p] by (cases "st = NeedMore") simp_all
qed simp

text \<open>What feeding gives: \<open>fed c p c'\<close> when \<open>c'\<close> goes on where \<open>c\<close> has seen \<open>p\<close>.\<close>

definition fed :: "'x classifier \<Rightarrow> byte list \<Rightarrow> 'x classifier \<Rightarrow> bool" where
  "fed c p c' \<longleftrightarrow> feed fd c p = Done (tverdict c p, c') \<and> tok c' \<and>
     minSniffBufferSize minsize c' = minSniffBufferSize minsize c \<and>
     (\<forall>q. tsafe c (p @ q) \<longrightarrow> tsafe c' q \<and> tverdict c' q = tverdict c (p @ q))"

definition after :: "'x classifier \<Rightarrow> byte list \<Rightarrow> 'x classifier" where
  "after c p = (case feed fd c p of Panic \<Rightarrow> c | Done (_, c') \<Rightarrow> c')"

lemma fed_after: "fed c p c' \<Longrightarrow> fed c p (after c p)"
  by (simp add: fed_def after_def)

lemma terminal_fed:
  assumes "feed fd c p = Done (tverdict c p, c')" and "tverdict c p \<noteq> NeedMore" and "tok c" and "tok c'"
    and "minSniffBufferSize minsize c' = minSniffBufferSize minsize c"
    and "\<And>q. tsafe c' q" and "\<And>q. tverdict c' q = tverdict c p"
  shows "fed c p c'"
  using assms tree_final [OF assms(3) _ assms(2)] by (simp add: fed_def)

lemma prefix_fed: "tok (PrefixC want offset st) \<Longrightarrow> \<exists>c'. fed (PrefixC want offset st) p c'"
proof (cases "st \<noteq> NeedMore \<or> want = []")
  case True
  assume "tok (PrefixC want offset st)"
  then show ?thesis using True
    by (intro exI [of _ "PrefixC want offset (if st \<noteq> NeedMore then st else Match)"])
      (auto simp: fed_def prefix_verdict_def)
next
  case False
  assume "tok (PrefixC want offset st)"
  with False have o: "offset < length want" by simp
  from prefix_feed_verdict [OF this, of p] obtain offset' where
    r: "prefix_feed want offset p = (prefix_verdict (drop offset want) p, offset')"
      "prefix_verdict (drop offset want) p = NeedMore \<Longrightarrow>
        offset' < length want \<and> (\<forall>q. prefix_verdict (drop offset' want) q = prefix_verdict (drop offset want) (p @ q))"
    by blast
  have v: "valid_state (prefix_verdict (drop offset want) p)" by (simp add: prefix_verdict_def)
  show ?thesis
  proof (cases "prefix_verdict (drop offset want) p = NeedMore")
    case True
    with False r o show ?thesis by (intro exI [of _ "PrefixC want offset' NeedMore"]) (auto simp: fed_def)
  next
    case t: False
    show ?thesis
    proof (intro exI [of _ "PrefixC want offset' (prefix_verdict (drop offset want) p)"] terminal_fed)
      show "tok (PrefixC want offset st)" by fact
    qed (use False r(1) t v in \<open>auto\<close>)
  qed
qed

lemma limit_fed:
  assumes IH: "\<And>p. tsafe c p \<Longrightarrow> \<exists>c'. fed c p c'" and t: "tok (LimitC c limit m seen NeedMore)"
    and s: "tsafe (LimitC c limit m seen NeedMore) p"
  shows "\<exists>c'. fed (LimitC c limit m seen NeedMore) p c'"
proof -
  let ?c = "LimitC c limit m seen NeedMore"
  let ?n = "limit - seen"
  from t s have c: "tok c" "seen \<le> limit" "tsafe c p" by simp_all
  have "tsafe c (take ?n p)" using tree_safe_prefix [of c "take ?n p" "drop ?n p"] c by simp
  from IH [OF this] obtain c' where f: "feed fd c (take ?n p) = Done (tverdict c (take ?n p), c')" "tok c'"
      "minSniffBufferSize minsize c' = minSniffBufferSize minsize c"
      "\<And>q. tsafe c (take ?n p @ q) \<Longrightarrow> tsafe c' q \<and> tverdict c' q = tverdict c (take ?n p @ q)"
    by (auto simp: fed_def)
  have v: "valid_state (tverdict c (take ?n p))" by (rule tree_valid [OF c(1)])
  let ?seen = "seen + length (take ?n p)"
  have fd: "feed fd ?c p = Done (tverdict ?c p, LimitC c' limit m ?seen (tverdict ?c p))"
    using f(1) v c(2) by (auto simp: settled_def Let_def min_def)
  have ok: "tok (LimitC c' limit m ?seen (tverdict ?c p))"
    using t f(2,3) tree_valid [OF t, of p] c(2) by auto
  show ?thesis
  proof (cases "tverdict ?c p = NeedMore")
    case False
    with fd ok show ?thesis by (intro exI [of _ "LimitC c' limit m ?seen (tverdict ?c p)"] terminal_fed [OF fd False t]) simp_all
  next
    case True
    then have n: "length p < ?n" "tverdict c p = NeedMore" by (auto simp: settled_def split: if_splits)
    have "tsafe (LimitC c' limit m ?seen NeedMore) q \<and> tverdict (LimitC c' limit m ?seen NeedMore) q = tverdict ?c (p @ q)"
      if "tsafe ?c (p @ q)" for q
    proof -
      have q: "tsafe c (p @ q)" using that by simp
      then have "tsafe c (p @ take (?n - length p) q)"
        using tree_safe_prefix [of c "p @ take (?n - length p) q" "drop (?n - length p) q"] c(1) by simp
      with q f(4) n(1) show ?thesis by (auto simp: settled_def min_def)
    qed
    with True fd ok show ?thesis by (intro exI [of _ "LimitC c' limit m ?seen NeedMore"]) (auto simp: fed_def)
  qed
qed

lemma not_fed:
  assumes f: "fed c p c'" and t: "tok (NotC c m NeedMore)" and s: "tsafe (NotC c m NeedMore) p"
  shows "\<exists>c'. fed (NotC c m NeedMore) p c'"
proof -
  have c: "tok c" "tsafe c p" using t s by simp_all
  from f have f: "feed fd c p = Done (tverdict c p, c')" "tok c'"
      "minSniffBufferSize minsize c' = minSniffBufferSize minsize c"
      "\<And>q. tsafe c (p @ q) \<Longrightarrow> tsafe c' q \<and> tverdict c' q = tverdict c (p @ q)"
    by (auto simp: fed_def)
  let ?st = "not_verdict (tverdict c p)"
  have fd: "feed fd (NotC c m NeedMore) p = Done (tverdict (NotC c m NeedMore) p, NotC c' m ?st)"
    using f(1) tree_valid [OF c(1), of p] by (cases "tverdict c p") (auto simp: valid_state_def)
  show ?thesis
  proof (cases "?st = NeedMore")
    case False
    with t f(2,3) show ?thesis
      by (intro exI [of _ "NotC c' m ?st"] terminal_fed [OF fd _ t]) (simp_all add: combined_valid)
  next
    case True
    with t f fd show ?thesis by (intro exI [of _ "NotC c' m NeedMore"]) (auto simp: fed_def)
  qed
qed

lemma and_fed:
  assumes IH: "\<And>c. c \<in> set cs \<Longrightarrow> tok c \<Longrightarrow> tsafe c p \<Longrightarrow> \<exists>c'. fed c p c'"
    and t: "tok (AndC cs ss m NeedMore)" and s: "tsafe (AndC cs ss m NeedMore) p" and ne: "cs \<noteq> []"
  shows "\<exists>c'. fed (AndC cs ss m NeedMore) p c'"
proof -
  let ?c = "AndC cs ss m NeedMore"
  let ?us = "map2 (\<lambda>s c. settled s (tverdict c p)) ss cs"
  let ?ds = "map2 (\<lambda>s c. if s = NeedMore then after c p else c) ss cs"
  from t s have ts: "list_all2 (\<lambda>s c. s = NeedMore \<longrightarrow> tok c) ss cs"
      "list_all2 (\<lambda>s c. s = NeedMore \<longrightarrow> tsafe c p) ss cs" "list_all valid_state ss"
      "list_all (\<lambda>c. minSniffBufferSize minsize c \<le> int m) cs"
    by (simp_all add: list_all2_children)
  have run: "list_all2 (\<lambda>s c. s = NeedMore \<longrightarrow> tok c \<and> fed c p (after c p)) ss cs"
    by (rule running_children [OF ts(1,2)]) (use IH fed_after in blast)
  have R: "list_all2 (\<lambda>s c. s = NeedMore \<longrightarrow> feed fd c p = Done (tverdict c p, after c p) \<and> valid_state (tverdict c p)) ss cs"
    by (rule running_children [OF run run]) (use tree_valid in \<open>auto simp: fed_def\<close>)
  obtain cs' ss' where r: "and_loop cs ss (map (\<lambda>c. feed fd c p) cs) True = Done (and_verdict ?us, cs', ss')"
      "and_verdict ?us \<noteq> Mismatch \<Longrightarrow> ss' = ?us \<and> cs' = ?ds"
    using and_loop_result [OF R, of True] by auto
  have v: "and_verdict ?us = tverdict ?c p" by (simp add: map2_settled)
  show ?thesis
  proof (cases "tverdict ?c p = NeedMore")
    case False
    have f: "feed fd ?c p = Done (tverdict ?c p, AndC cs' ss' m (tverdict ?c p))"
      using r(1) v ne by simp
    show ?thesis
      by (rule exI, rule terminal_fed [OF f False t]) (use tree_valid [OF t, of p] False in simp_all)
  next
    case True
    then have u: "ss' = ?us" "cs' = ?ds" using r(2) v by auto
    have "list_all valid_state ?us"
      by (rule children_valid [OF running_children [OF R R] ts(3)]) simp
    moreover have "list_all (\<lambda>c. minSniffBufferSize minsize c \<le> int m) ?ds"
      by (rule children_sizes [OF running_children [OF run run] ts(4)]) (simp add: fed_def)
    moreover have "list_all2 (\<lambda>s c. s = NeedMore \<longrightarrow> tok c) ?us ?ds"
      by (rule children_kept [OF running_children [OF run run]]) (simp add: fed_def)
    ultimately have ok: "tok (AndC cs' ss' m NeedMore)" unfolding u [symmetric] by (simp add: list_all2_children)
    have "tsafe (AndC cs' ss' m NeedMore) q \<and> tverdict (AndC cs' ss' m NeedMore) q = tverdict ?c (p @ q)"
      if "tsafe ?c (p @ q)" for q
    proof -
      have sq: "list_all2 (\<lambda>s c. s = NeedMore \<longrightarrow> tsafe c (p @ q)) ss cs" using that by (simp add: list_all2_children)
      have "list_all2 (\<lambda>s c. s = NeedMore \<longrightarrow> tsafe c q) ?us ?ds"
        by (rule children_kept [OF running_children [OF run sq]]) (simp add: fed_def)
      moreover have "map2 (\<lambda>s c. settled s (tverdict c q)) ?us ?ds = map2 (\<lambda>s c. settled s (tverdict c (p @ q))) ss cs"
        by (rule children_resumed [OF running_children [OF run sq]]) (use tree_final in \<open>auto simp: fed_def\<close>)
      ultimately show ?thesis unfolding u [symmetric] by (simp add: list_all2_children map2_settled)
    qed
    with ok True r(1) v ne show ?thesis
      by (intro exI [of _ "AndC cs' ss' m NeedMore"]) (auto simp: fed_def)
  qed
qed

lemma or_fed:
  assumes IH: "\<And>c. c \<in> set cs \<Longrightarrow> tok c \<Longrightarrow> tsafe c p \<Longrightarrow> \<exists>c'. fed c p c'"
    and t: "tok (OrC cs ss m NeedMore mi)" and s: "tsafe (OrC cs ss m NeedMore mi) p" and ne: "cs \<noteq> []"
  shows "\<exists>c'. fed (OrC cs ss m NeedMore mi) p c'"
proof -
  let ?c = "OrC cs ss m NeedMore mi"
  let ?us = "map2 (\<lambda>s c. settled s (tverdict c p)) ss cs"
  let ?ds = "map2 (\<lambda>s c. if s = NeedMore then after c p else c) ss cs"
  from t s have ts: "list_all2 (\<lambda>s c. s = NeedMore \<longrightarrow> tok c) ss cs"
      "list_all2 (\<lambda>s c. s = NeedMore \<longrightarrow> tsafe c p) ss cs" "list_all valid_state ss"
      "list_all (\<lambda>c. minSniffBufferSize minsize c \<le> int m) cs"
    by (simp_all add: list_all2_children)
  have run: "list_all2 (\<lambda>s c. s = NeedMore \<longrightarrow> tok c \<and> fed c p (after c p)) ss cs"
    by (rule running_children [OF ts(1,2)]) (use IH fed_after in blast)
  have R: "list_all2 (\<lambda>s c. s = NeedMore \<longrightarrow> feed fd c p = Done (tverdict c p, after c p) \<and> valid_state (tverdict c p)) ss cs"
    by (rule running_children [OF run run]) (use tree_valid in \<open>auto simp: fed_def\<close>)
  obtain j cs' ss' where r: "or_loop 0 cs ss (map (\<lambda>c. feed fd c p) cs) True = Done (or_verdict ?us, j, cs', ss')"
      "or_verdict ?us \<noteq> Match \<Longrightarrow> ss' = ?us \<and> cs' = ?ds"
    using or_loop_result [OF R, of 0 True] by auto
  have v: "or_verdict ?us = tverdict ?c p" by (simp add: map2_settled)
  show ?thesis
  proof (cases "tverdict ?c p = NeedMore")
    case False
    have f: "feed fd ?c p = Done (tverdict ?c p, OrC cs' ss' m (tverdict ?c p) (if tverdict ?c p = Match then j else mi))"
      using r(1) v ne by simp
    show ?thesis
      by (rule exI, rule terminal_fed [OF f False t]) (use tree_valid [OF t, of p] False in simp_all)
  next
    case True
    then have u: "ss' = ?us" "cs' = ?ds" using r(2) v by auto
    have "list_all valid_state ?us"
      by (rule children_valid [OF running_children [OF R R] ts(3)]) simp
    moreover have "list_all (\<lambda>c. minSniffBufferSize minsize c \<le> int m) ?ds"
      by (rule children_sizes [OF running_children [OF run run] ts(4)]) (simp add: fed_def)
    moreover have "list_all2 (\<lambda>s c. s = NeedMore \<longrightarrow> tok c) ?us ?ds"
      by (rule children_kept [OF running_children [OF run run]]) (simp add: fed_def)
    ultimately have ok: "tok (OrC cs' ss' m NeedMore mi)" unfolding u [symmetric] by (simp add: list_all2_children)
    have "tsafe (OrC cs' ss' m NeedMore mi) q \<and> tverdict (OrC cs' ss' m NeedMore mi) q = tverdict ?c (p @ q)"
      if "tsafe ?c (p @ q)" for q
    proof -
      have sq: "list_all2 (\<lambda>s c. s = NeedMore \<longrightarrow> tsafe c (p @ q)) ss cs" using that by (simp add: list_all2_children)
      have "list_all2 (\<lambda>s c. s = NeedMore \<longrightarrow> tsafe c q) ?us ?ds"
        by (rule children_kept [OF running_children [OF run sq]]) (simp add: fed_def)
      moreover have "map2 (\<lambda>s c. settled s (tverdict c q)) ?us ?ds = map2 (\<lambda>s c. settled s (tverdict c (p @ q))) ss cs"
        by (rule children_resumed [OF running_children [OF run sq]]) (use tree_final in \<open>auto simp: fed_def\<close>)
      ultimately show ?thesis unfolding u [symmetric] by (simp add: list_all2_children map2_settled)
    qed
    with ok True r(1) v ne show ?thesis
      by (intro exI [of _ "OrC cs' ss' m NeedMore mi"]) (auto simp: fed_def)
  qed
qed

lemma tree_fed: "tok c \<Longrightarrow> tsafe c p \<Longrightarrow> \<exists>c'. fed c p c'"
proof (induction c arbitrary: p)
  case (Leaf x)
  then obtain x' where "fd x p = Done (verdict x p, x')" "ok x'" "minsize x' = minsize x"
      "\<forall>q. safe x (p @ q) \<longrightarrow> safe x' q \<and> verdict x' q = verdict x (p @ q)"
    using fd_verdict [of x p] by auto
  then show ?case by (intro exI [of _ "Leaf x'"]) (simp add: fed_def)
next
  case (SizedC c m)
  then obtain c' where "fed c p c'" by auto
  with SizedC.prems show ?case by (intro exI [of _ "SizedC c' m"]) (auto simp: fed_def)
next
  case (PrefixC want offset st)
  show ?case by (rule prefix_fed [OF PrefixC.prems(1)])
next
  case (LimitC c limit m seen st)
  show ?case
  proof (cases "st = NeedMore")
    case True
    with LimitC show ?thesis by (intro limit_fed [of c limit m seen p, folded True]) simp_all
  next
    case False
    with LimitC.prems show ?thesis by (intro exI [of _ "LimitC c limit m seen st"]) (simp add: fed_def)
  qed
next
  case (AndC cs ss m st)
  show ?case
  proof (cases "st \<noteq> NeedMore \<or> cs = []")
    case True
    with AndC.prems show ?thesis
      by (intro exI [of _ "AndC cs ss m (if st \<noteq> NeedMore then st else Match)"])
        (auto simp: fed_def and_verdict_def)
  next
    case False
    then have st: "st = NeedMore" "cs \<noteq> []" by simp_all
    show ?thesis unfolding st(1) by (rule and_fed) (use AndC st in simp_all)
  qed
next
  case (OrC cs ss m st mi)
  show ?case
  proof (cases "st \<noteq> NeedMore \<or> cs = []")
    case True
    with OrC.prems show ?thesis
      by (intro exI [of _ "OrC cs ss m (if st \<noteq> NeedMore then st else Mismatch) mi"])
        (auto simp: fed_def or_verdict_def)
  next
    case False
    then have st: "st = NeedMore" "cs \<noteq> []" by simp_all
    show ?thesis unfolding st(1) by (rule or_fed) (use OrC st in simp_all)
  qed
next
  case (NotC c m st)
  show ?case
  proof (cases "st = NeedMore")
    case True
    with NotC obtain c' where "fed c p c'" by auto
    from not_fed [OF this, of m] NotC.prems True show ?thesis by simp
  next
    case False
    with NotC.prems show ?thesis by (intro exI [of _ "NotC c m st"]) (simp add: fed_def)
  qed
qed

lemma tree_minsize: "tok c \<Longrightarrow> 0 \<le> minSniffBufferSize minsize c"
  by (cases c) (simp_all add: minsize_nonneg)

text \<open>So the combinators over contract-abiding classifiers abide by the contract.\<close>

lemma combinators:
  "classifier (feed fd) (tree_ok ok minsize) (tree_safe safe) (tree_verdict verdict) (minSniffBufferSize minsize)"
proof unfold_locales
  fix c p q
  show "tok c \<Longrightarrow> tsafe c p \<Longrightarrow> \<exists>c'. feed fd c p = Done (tverdict c p, c') \<and> tok c' \<and>
      minSniffBufferSize minsize c' = minSniffBufferSize minsize c \<and>
      (\<forall>q. tsafe c (p @ q) \<longrightarrow> tsafe c' q \<and> tverdict c' q = tverdict c (p @ q))"
    using tree_fed [of c p] by (simp add: fed_def)
  show "tok c \<Longrightarrow> valid_state (tverdict c p)" by (rule tree_valid)
  show "tok c \<Longrightarrow> tsafe c (p @ q) \<Longrightarrow> tsafe c p" by (rule tree_safe_prefix)
  show "tok c \<Longrightarrow> tsafe c (p @ q) \<Longrightarrow> tverdict c p \<noteq> NeedMore \<Longrightarrow> tverdict c (p @ q) = tverdict c p"
    by (rule tree_final)
  show "tok c \<Longrightarrow> 0 \<le> minSniffBufferSize minsize c" by (rule tree_minsize)
  show "tok c \<Longrightarrow> tsafe c p \<Longrightarrow> minSniffBufferSize minsize c \<le> int (length p) \<Longrightarrow> tverdict c p \<noteq> NeedMore"
    by (rule tree_decided)
qed

end

end
