(* ===== verification/Putback.thy ===== *)
theory Putback
  imports Prelude
begin

text \<open>
  \<^verbatim>\<open>src/putback/conn.go\<close>: a connection to which read bytes can be given back. The wrapped
  connection is foreign: its \<open>Read\<close> is a parameter that returns the bytes written to the start of
  the buffer and an error. Locks and the pooling of buffers are not observable in one reader and
  are left out; writing, closing and the socket options are delegated to the wrapped connection.
\<close>

type_synonym ('c, 'e) reader = "nat \<Rightarrow> 'c \<Rightarrow> (byte list \<times> 'e option) \<times> 'c"

record ('c, 'e) pconn =
  pc_conn :: 'c
  pc_extra :: "byte list"
  pc_deferredErr :: "'e option"

definition putback_New :: "'c option \<Rightarrow> ('c, 'e) pconn option" where
  "putback_New nc =
     (case nc of None \<Rightarrow> None | Some c \<Rightarrow> Some \<lparr>pc_conn = c, pc_extra = [], pc_deferredErr = None\<rparr>)"

definition pc_PutBack :: "byte list \<Rightarrow> ('c, 'e) pconn \<Rightarrow> ('c, 'e) pconn" where
  "pc_PutBack p c = (if p = [] then c else if pc_extra c = [] then c\<lparr>pc_extra := p\<rparr> else c\<lparr>pc_extra := p @ pc_extra c\<rparr>)"

definition pc_Buffered :: "('c, 'e) pconn \<Rightarrow> nat" where
  "pc_Buffered c = length (pc_extra c)"

definition pc_Read :: "('c, 'e) reader \<Rightarrow> (('c, 'e) pconn, 'e) reader" where
  "pc_Read rd n c =
     (if n = 0 then (([], None), c)
      else if pc_extra c \<noteq> [] then ((take n (pc_extra c), None), c\<lparr>pc_extra := drop n (pc_extra c)\<rparr>)
      else case pc_deferredErr c of
        Some e \<Rightarrow> (([], Some e), c\<lparr>pc_deferredErr := None\<rparr>)
      | None \<Rightarrow>
          (case rd n (pc_conn c) of
             ((bs, err), nc) \<Rightarrow>
               if bs \<noteq> [] \<and> err \<noteq> None then ((bs, None), c\<lparr>pc_conn := nc, pc_deferredErr := err\<rparr>)
               else ((bs, err), c\<lparr>pc_conn := nc\<rparr>)))"

text \<open>\<open>writeBufferedTo\<close>: \<open>wr\<close> is the writer, which reports how many bytes it took and an error.\<close>

datatype 'e werr = ErrShortWrite | WriteErr 'e

function writeBuffered :: "('w \<Rightarrow> byte list \<Rightarrow> (int \<times> 'e option) \<times> 'w) \<Rightarrow> byte list \<Rightarrow> int \<Rightarrow> 'w \<Rightarrow>
    (byte list \<times> int \<times> 'e werr option) \<times> 'w" where
  "writeBuffered wr extra written w =
     (if extra = [] then (([], written, None), w)
      else case wr w extra of ((n, err), w') \<Rightarrow>
        if n < 0 \<or> n > int (length extra) then ((extra, written, Some ErrShortWrite), w')
        else case err of
          Some e \<Rightarrow> ((drop (nat n) extra, written + n, Some (WriteErr e)), w')
        | None \<Rightarrow>
            if n = 0 then ((extra, written, Some ErrShortWrite), w')
            else writeBuffered wr (drop (nat n) extra) (written + n) w')"
  by pat_completeness auto
termination
  by (relation "measure (\<lambda>(wr, extra, written, w). length extra)") auto

declare writeBuffered.simps [simp del]

definition writeBufferedTo :: "('e \<Rightarrow> bool) \<Rightarrow> ('w \<Rightarrow> byte list \<Rightarrow> (int \<times> 'e option) \<times> 'w) \<Rightarrow> ('c, 'e) pconn \<Rightarrow> 'w \<Rightarrow>
    (int \<times> bool \<times> 'e werr option) \<times> ('c, 'e) pconn \<times> 'w" where
  "writeBufferedTo isEOF wr c w =
     (case writeBuffered wr (pc_extra c) 0 w of ((extra, written, err), w') \<Rightarrow>
        let c = c\<lparr>pc_extra := extra\<rparr> in
        if err \<noteq> None then ((written, True, err), c, w')
        else case pc_deferredErr c of
          Some e \<Rightarrow> ((written, True, if isEOF e then None else Some (WriteErr e)), c\<lparr>pc_deferredErr := None\<rparr>, w')
        | None \<Rightarrow> ((written, False, None), c, w'))"

text \<open>\<open>WriteTo\<close> of a TCP connection; \<open>wt\<close> is that of the wrapped connection.\<close>

definition pc_WriteTo :: "('e \<Rightarrow> bool) \<Rightarrow> ('w \<Rightarrow> byte list \<Rightarrow> (int \<times> 'e option) \<times> 'w) \<Rightarrow>
    ('c \<Rightarrow> 'w \<Rightarrow> (int \<times> 'e option) \<times> 'c \<times> 'w) \<Rightarrow> ('c, 'e) pconn \<Rightarrow> 'w \<Rightarrow>
    (int \<times> 'e werr option) \<times> ('c, 'e) pconn \<times> 'w" where
  "pc_WriteTo isEOF wr wt c w =
     (case writeBufferedTo isEOF wr c w of ((n, dn, err), c, w) \<Rightarrow>
        if err \<noteq> None \<or> dn then ((n, err), c, w)
        else case wt (pc_conn c) w of ((m, err), nc, w) \<Rightarrow> ((n + m, map_option WriteErr err), c\<lparr>pc_conn := nc\<rparr>, w))"

subsection \<open>The contract of a connection\<close>

text \<open>
  \<open>pending c\<close> is what is still to be read from \<open>c\<close>. \<open>Read\<close> returns a piece of it that fits the
  buffer, and the rest stays pending.
\<close>

locale net_conn =
  fixes rd :: "('c, 'e) reader" and pending :: "'c \<Rightarrow> byte list"
  assumes read_fits: "rd n c = ((bs, err), c') \<Longrightarrow> length bs \<le> n"
    and read_pending: "rd n c = ((bs, err), c') \<Longrightarrow> pending c = bs @ pending c'"

definition pc_pending :: "('c \<Rightarrow> byte list) \<Rightarrow> ('c, 'e) pconn \<Rightarrow> byte list" where
  "pc_pending pending c = pc_extra c @ pending (pc_conn c)"

lemma PutBack_pending: "pc_pending pending (pc_PutBack p c) = p @ pc_pending pending c"
  by (simp add: pc_pending_def pc_PutBack_def)

lemma Buffered_PutBack: "pc_Buffered (pc_PutBack p c) = length p + pc_Buffered c"
  by (simp add: pc_Buffered_def pc_PutBack_def)

lemma Read_cases:
  assumes "pc_Read rd n c = ((bs, err), c')"
  obtains "n = 0" and "bs = []" and "c' = c"
  | "bs = take n (pc_extra c)" and "c' = c\<lparr>pc_extra := drop n (pc_extra c)\<rparr>"
  | "bs = []" and "c' = c\<lparr>pc_deferredErr := None\<rparr>"
  | nc e where "rd n (pc_conn c) = ((bs, e), nc)" and "pc_extra c = []"
      and "c' = c\<lparr>pc_conn := nc\<rparr> \<or> c' = c\<lparr>pc_conn := nc, pc_deferredErr := e\<rparr>"
  using assms by (auto simp: pc_Read_def split: if_splits option.splits prod.splits)

context net_conn
begin

lemma putback_fits: "pc_Read rd n c = ((bs, err), c') \<Longrightarrow> length bs \<le> n"
  by (erule Read_cases) (auto dest: read_fits)

lemma putback_read_pending:
  "pc_Read rd n c = ((bs, err), c') \<Longrightarrow> pc_pending pending c = bs @ pc_pending pending c'"
  by (erule Read_cases) (auto simp: pc_pending_def dest: read_pending)

text \<open>A put-back connection is a connection again.\<close>

lemma putback_conn: "net_conn (pc_Read rd) (pc_pending pending)"
  by unfold_locales (rule putback_fits putback_read_pending; assumption)+

end

text \<open>
  A connection that delivers its bytes in given pieces, each with an error after it or not, and then
  ends with \<open>eof\<close>: a read into a buffer smaller than the piece leaves the rest for the next read.
\<close>

fun scripted_read :: "'e \<Rightarrow> ((byte list \<times> 'e option) list, 'e) reader" where
  "scripted_read eof n [] = (([], Some eof), [])"
| "scripted_read eof n ((bs, err) # rest) =
     (if bs = [] \<and> err = None then scripted_read eof n rest
      else if length bs \<le> n then ((bs, err), rest)
      else ((take n bs, None), (drop n bs, err) # rest))"

definition scripted_pending :: "(byte list \<times> 'e option) list \<Rightarrow> byte list" where
  "scripted_pending script = concat (map fst script)"

lemma scripted_laws:
  "scripted_read eof n c = ((bs, err), c') \<Longrightarrow> length bs \<le> n \<and> scripted_pending c = bs @ scripted_pending c'"
  by (induction eof n c rule: scripted_read.induct) (auto simp: scripted_pending_def split: if_splits)

lemma scripted_progress: "\<forall>n c. 0 < n \<longrightarrow> fst (scripted_read eof n c) \<noteq> ([], None)"
proof (intro allI impI)
  show "0 < n \<Longrightarrow> fst (scripted_read eof n c) \<noteq> ([], None)" for n c
    by (induction eof n c rule: scripted_read.induct) auto
qed

interpretation scripted: net_conn "scripted_read eof" scripted_pending for eof
  by unfold_locales (simp_all add: scripted_laws)

interpretation restored: net_conn "pc_Read (scripted_read eof)" "pc_pending scripted_pending" for eof
  by (rule scripted.putback_conn)

subsection \<open>Properties\<close>

text \<open>A reader that asks for buffers of the given sizes: the bytes it got, the errors it saw and the rest.\<close>

fun reads :: "('c, 'e) reader \<Rightarrow> nat list \<Rightarrow> 'c \<Rightarrow> byte list \<times> 'e list \<times> 'c" where
  "reads rd [] c = ([], [], c)"
| "reads rd (n # ns) c =
     (case rd n c of ((bs, err), c) \<Rightarrow>
        case reads rd ns c of (bs', errs, c) \<Rightarrow> (bs @ bs', (case err of None \<Rightarrow> errs | Some e \<Rightarrow> e # errs), c))"

context net_conn
begin

lemma reads_pending: "reads rd ns c = (bs, errs, c') \<Longrightarrow> pending c = bs @ pending c'"
  by (induction ns arbitrary: c bs errs) (auto split: prod.splits dest: read_pending)

end

lemma Read_PutBack: "p \<noteq> [] \<Longrightarrow> pc_Read rd (length p) (pc_PutBack p c) = ((p, None), c)"
  by (simp add: pc_Read_def pc_PutBack_def)

lemma PutBack_PutBack: "pc_PutBack q (pc_PutBack p c) = pc_PutBack (q @ p) c"
  by (simp add: pc_PutBack_def)

text \<open>
  C11. Putting back is the inverse of reading. Bytes that are put back are read first, in their
  order and before anything put back earlier, and reading them leaves the connection as it was.
  Conversely, whatever was read in any number of reads of any sizes, putting the bytes back makes
  the connection deliver the same stream again.
\<close>

theorem putback_inverse:
  assumes "net_conn rd pending" and "p \<noteq> []" and "reads (pc_Read rd) ns c = (bs, errs, c')"
  shows "pc_Read rd (length p) (pc_PutBack p c) = ((p, None), c) \<and>
    pc_Read rd (length (q @ p)) (pc_PutBack q (pc_PutBack p c)) = ((q @ p, None), c) \<and>
    pc_pending pending (pc_PutBack bs c') = pc_pending pending c \<and>
    pc_Buffered (pc_PutBack bs c') = length bs + pc_Buffered c'"
proof -
  have "pc_pending pending c = bs @ pc_pending pending c'"
    by (rule net_conn.reads_pending [OF net_conn.putback_conn [OF assms(1)] assms(3)])
  moreover have "pc_Read rd (length (q @ p)) (pc_PutBack (q @ p) c) = ((q @ p, None), c)"
    by (rule Read_PutBack) (simp add: assms(2))
  ultimately show ?thesis
    using Read_PutBack [OF assms(2), of rd c] by (simp add: PutBack_pending Buffered_PutBack PutBack_PutBack)
qed

definition two_pieces :: "((byte list \<times> nat option) list, nat) pconn" where
  "two_pieces = \<lparr>pc_conn = [([1, 2], Some 7), ([3], None)], pc_extra = [], pc_deferredErr = None\<rparr>"

lemma two_pieces_read:
  "reads (pc_Read (scripted_read 0)) [1, 4, 4, 4] two_pieces =
     ([1, 2, 3], [7], \<lparr>pc_conn = [], pc_extra = [], pc_deferredErr = None\<rparr>)"
  by (simp add: two_pieces_def pc_Read_def)

theorem putback_inverse_witness:
  "pc_Read (scripted_read 0) 2 (pc_PutBack [8, 9] two_pieces) = (([8, 9], None), two_pieces) \<and>
   pc_pending scripted_pending (pc_PutBack [1, 2, 3] \<lparr>pc_conn = [], pc_extra = [], pc_deferredErr = None\<rparr> ::
     ((byte list \<times> nat option) list, nat) pconn) = [1, 2, 3]"
proof -
  have "pc_pending scripted_pending two_pieces = [1, 2, 3]"
    by (simp add: two_pieces_def pc_pending_def scripted_pending_def)
  with putback_inverse [OF scripted.net_conn_axioms _ two_pieces_read, of "[8, 9]"] show ?thesis
    by (simp add: numeral_2_eq_2)
qed

end
