(* ===== verification/Sniff.thy ===== *)
theory Sniff
  imports Classifiers Putback
begin

text \<open>
  \<^verbatim>\<open>src/sniffer/sniff.go\<close>: reading from a put-back connection until a classifier matches, every
  classifier has mismatched, the byte budget is spent or the connection ends. \<open>fd\<close> is the \<open>Feed\<close> of
  the classifiers and \<open>rd\<close> the \<open>Read\<close> of the wrapped connection.
\<close>

text \<open>The first loop: an empty \<open>Feed\<close> of each classifier, in order. \<open>Inl i\<close> is a match at \<open>i\<close>.\<close>

fun sniff_initial :: "'x feeder \<Rightarrow> nat \<Rightarrow> 'x option list \<Rightarrow> (nat + ('x \<times> State) list) outcome" where
  "sniff_initial fd i [] = Done (Inr [])"
| "sniff_initial fd i (c # cs) =
     obind (required c) (\<lambda>c. obind (fd c []) (\<lambda>(s, c). obind (checkedState s) (\<lambda>s.
     if s = Match then Done (Inl i)
     else omap (map_sum id ((#) (c, s))) (sniff_initial fd (Suc i) cs))))"

text \<open>One byte for every classifier that needs more; the result is the first index that matched.\<close>

fun sniff_byte :: "'x feeder \<Rightarrow> byte \<Rightarrow> nat \<Rightarrow> ('x \<times> State) list \<Rightarrow> (nat option \<times> ('x \<times> State) list) outcome" where
  "sniff_byte fd b i [] = Done (None, [])"
| "sniff_byte fd b i ((c, s) # cs) =
     (if s \<noteq> NeedMore then omap (apsnd ((#) (c, s))) (sniff_byte fd b (Suc i) cs)
      else obind (fd c [b]) (\<lambda>(s, c). obind (checkedState s) (\<lambda>s.
        omap (\<lambda>(m, cs'). (if s = Match then Some i else m, (c, s) # cs')) (sniff_byte fd b (Suc i) cs))))"

definition active :: "('x \<times> State) list \<Rightarrow> nat" where
  "active cs = length (filter (\<lambda>(c, s). s = NeedMore) cs)"

text \<open>The bytes of one read; \<open>Inl\<close> is a return.\<close>

fun sniff_chunk :: "'x feeder \<Rightarrow> byte list \<Rightarrow> ('x \<times> State) list \<Rightarrow> (int + ('x \<times> State) list) outcome" where
  "sniff_chunk fd [] cs = Done (Inr cs)"
| "sniff_chunk fd (b # bs) cs =
     obind (sniff_byte fd b 0 cs) (\<lambda>(m, cs).
     case m of
       Some i \<Rightarrow> Done (Inl (int i))
     | None \<Rightarrow> if active cs = 0 then Done (Inl NoMatch) else sniff_chunk fd bs cs)"

text \<open>
  The read loop. \<open>used\<close> is the part of the buffer that holds read bytes; \<open>budget\<close> is the length of
  the buffer. A \<open>Read\<close> that returns more bytes than fit makes the slice expressions panic.
\<close>

function sniff_loop :: "'x feeder \<Rightarrow> ('c, 'e) reader \<Rightarrow> nat \<Rightarrow> byte list \<Rightarrow> ('c, 'e) pconn \<Rightarrow> ('x \<times> State) list \<Rightarrow>
    (int \<times> 'e option \<times> byte list \<times> ('c, 'e) pconn) outcome" where
  "sniff_loop fd rd budget used conn cs =
     (if budget \<le> length used then Done (NoMatch, None, used, conn)
      else case pc_Read rd (budget - length used) conn of ((bs, err), conn') \<Rightarrow>
        if length bs > budget - length used then Panic
        else case sniff_chunk fd bs cs of
          Panic \<Rightarrow> Panic
        | Done (Inl i) \<Rightarrow> Done (i, None, used @ bs, conn')
        | Done (Inr cs') \<Rightarrow>
            (case err of
               Some e \<Rightarrow> Done (NoMatch, Some e, used @ bs, conn')
             | None \<Rightarrow>
                 if bs = [] then Done (NoMatch, None, used, conn')
                 else sniff_loop fd rd budget (used @ bs) conn' cs'))"
  by pat_completeness auto
termination
  by (relation "measure (\<lambda>(fd, rd, budget, used, conn, cs). budget - length used)") (auto simp flip: length_greater_0_conv)

declare sniff_loop.simps [simp del]

text \<open>The deferred \<open>PutBack\<close> runs after the loop.\<close>

definition sniff :: "'x feeder \<Rightarrow> ('c, 'e) reader \<Rightarrow> nat \<Rightarrow> ('c, 'e) pconn option \<Rightarrow> 'x option list \<Rightarrow>
    (int \<times> 'e option \<times> ('c, 'e) pconn) outcome" where
  "sniff fd rd budget conn classifiers =
     obind (required conn) (\<lambda>conn.
     obind (sniff_initial fd 0 classifiers) (\<lambda>r.
     case r of
       Inl i \<Rightarrow> Done (int i, None, conn)
     | Inr cs \<Rightarrow>
         if active cs = 0 \<or> budget = 0 then Done (NoMatch, None, conn)
         else omap (\<lambda>(i, err, used, conn). (i, err, if used \<noteq> [] then pc_PutBack used conn else conn))
           (sniff_loop fd rd budget [] conn cs)))"

text \<open>The pooled variants differ in where the buffer comes from; the factory variants make the classifiers.\<close>

definition sniffWithPool :: "'x feeder \<Rightarrow> ('c, 'e) reader \<Rightarrow> int \<Rightarrow> ('c, 'e) pconn option \<Rightarrow> 'x option list \<Rightarrow>
    (int \<times> 'e option \<times> ('c, 'e) pconn) outcome" where
  "sniffWithPool fd rd bufferSize conn classifiers =
     (if bufferSize < 0 then Panic else sniff fd rd (nat bufferSize) conn classifiers)"

definition sniffFactories :: "'x feeder \<Rightarrow> ('c, 'e) reader \<Rightarrow> nat \<Rightarrow> ('c, 'e) pconn option \<Rightarrow> 'x factory option list \<Rightarrow>
    (int \<times> 'e option \<times> ('c, 'e) pconn) outcome" where
  "sniffFactories fd rd budget conn factories =
     obind (required_all factories) (\<lambda>fs. obind (new_classifiers fs) (\<lambda>cs. sniff (feed fd) rd budget conn cs))"

definition sniffFactoriesWithPool :: "'x feeder \<Rightarrow> ('c, 'e) reader \<Rightarrow> int \<Rightarrow> ('c, 'e) pconn option \<Rightarrow>
    'x factory option list \<Rightarrow> (int \<times> 'e option \<times> ('c, 'e) pconn) outcome" where
  "sniffFactoriesWithPool fd rd bufferSize conn factories =
     obind (required_all factories) (\<lambda>fs. obind (new_classifiers fs) (\<lambda>cs.
     sniffWithPool (feed fd) rd bufferSize conn cs))"

subsection \<open>Which classifier is selected\<close>

text \<open>
  The reference: the classifiers are asked about longer and longer prefixes of the stream, and the
  first of those that match on the shortest matching prefix is selected.
\<close>

fun first_match :: "State list \<Rightarrow> nat option" where
  "first_match [] = None"
| "first_match (s # ss) = (if s = Match then Some 0 else map_option Suc (first_match ss))"

fun selects_from :: "(byte list \<Rightarrow> State) list \<Rightarrow> byte list \<Rightarrow> byte list \<Rightarrow> int" where
  "selects_from vs seen [] = (case first_match (map (\<lambda>v. v seen) vs) of Some i \<Rightarrow> int i | None \<Rightarrow> NoMatch)"
| "selects_from vs seen (b # bs) =
     (case first_match (map (\<lambda>v. v seen) vs) of Some i \<Rightarrow> int i | None \<Rightarrow> selects_from vs (seen @ [b]) bs)"

definition selects :: "(byte list \<Rightarrow> State) list \<Rightarrow> byte list \<Rightarrow> int" where
  "selects vs bs = selects_from vs [] bs"

lemma first_match_None: "first_match ss = None \<longleftrightarrow> Match \<notin> set ss"
  by (induction ss) auto

lemma selects_unmatched:
  "(\<And>k v. v \<in> set vs \<Longrightarrow> k \<le> length bs \<Longrightarrow> v (seen @ take k bs) \<noteq> Match) \<Longrightarrow> selects_from vs seen bs = NoMatch"
proof (induction vs seen bs rule: selects_from.induct)
  case (1 vs seen)
  from "1.prems" [of _ 0] have "Match \<notin> set (map (\<lambda>v. v seen) vs)" by (auto dest: sym)
  then show ?case using first_match_None [of "map (\<lambda>v. v seen) vs"] by simp
next
  case (2 vs seen b bs)
  from "2.prems" [of _ 0] have "Match \<notin> set (map (\<lambda>v. v seen) vs)" by (auto dest: sym)
  then have n: "first_match (map (\<lambda>v. v seen) vs) = None" by (simp add: first_match_None)
  have "selects_from vs (seen @ [b]) bs = NoMatch"
    by (rule "2.IH" [OF n]) (use "2.prems" [of _ "Suc _"] in simp)
  with n show ?case by simp
qed

lemma selects_append:
  assumes "\<And>k v. v \<in> set vs \<Longrightarrow> k \<le> length bs \<Longrightarrow> v (seen @ take k bs) \<noteq> Match"
  shows "selects_from vs seen (bs @ q) = selects_from vs (seen @ bs) q"
  using assms
proof (induction bs arbitrary: seen)
  case (Cons b bs)
  from Cons.prems [of _ 0] have "Match \<notin> set (map (\<lambda>v. v seen) vs)" by (auto dest: sym)
  then have n: "first_match (map (\<lambda>v. v seen) vs) = None" by (simp add: first_match_None)
  have "selects_from vs (seen @ [b]) (bs @ q) = selects_from vs ((seen @ [b]) @ bs) q"
    by (rule Cons.IH) (use Cons.prems [of _ "Suc _"] in simp)
  with n show ?case by simp
qed simp

context classifier
begin

text \<open>
  \<open>tracks xs seen cs\<close>: the classifiers started as \<open>xs\<close>, have seen the bytes \<open>seen\<close> without a match, and
  are now \<open>cs\<close>.
\<close>

definition tracked :: "byte list \<Rightarrow> 'x \<Rightarrow> 'x \<times> State \<Rightarrow> bool" where
  "tracked seen x cs \<longleftrightarrow> snd cs = verdict x seen \<and> snd cs \<noteq> Match \<and> ok x \<and>
     (snd cs = NeedMore \<longrightarrow> ok (fst cs) \<and>
        (\<forall>q. safe x (seen @ q) \<longrightarrow> safe (fst cs) q \<and> verdict (fst cs) q = verdict x (seen @ q)))"

abbreviation tracks :: "'x list \<Rightarrow> byte list \<Rightarrow> ('x \<times> State) list \<Rightarrow> bool" where
  "tracks xs seen cs \<equiv> list_all2 (tracked seen) xs cs"

abbreviation all_safe :: "'x list \<Rightarrow> byte list \<Rightarrow> bool" where
  "all_safe xs p \<equiv> list_all (\<lambda>x. safe x p) xs"

lemma all_safe_prefix: "list_all ok xs \<Longrightarrow> all_safe xs (p @ q) \<Longrightarrow> all_safe xs p"
  using safe_prefix by (auto simp: list_all_iff)

lemma tracks_ok: "tracks xs seen cs \<Longrightarrow> list_all ok xs"
  by (induction rule: list_all2_induct) (auto simp: tracked_def)

lemma tracked_terminal:
  assumes "tracked seen x (c, s)" and "s \<noteq> NeedMore" and "safe x (seen @ q)"
  shows "s = Mismatch" and "verdict x (seen @ q) = Mismatch" and "tracked (seen @ q) x (c, s)"
proof -
  from assms(1) have o: "ok x" and v: "s = verdict x seen" "s \<noteq> Match" by (auto simp: tracked_def)
  with verdict_valid [OF o, of seen] assms(2) show s: "s = Mismatch" by (blast dest: valid_cases)
  with v verdict_final [OF o assms(3)] show "verdict x (seen @ q) = Mismatch" by simp
  with o s show "tracked (seen @ q) x (c, s)" by (simp add: tracked_def)
qed

lemma tracked_step:
  assumes "tracked seen x (c, NeedMore)" and "safe x (seen @ p)"
  shows "\<exists>c'. fd c p = Done (verdict x (seen @ p), c') \<and>
    (verdict x (seen @ p) \<noteq> Match \<longrightarrow> tracked (seen @ p) x (c', verdict x (seen @ p)))"
proof -
  from assms have o: "ok c" "ok x" "safe c p" and v: "verdict c p = verdict x (seen @ p)"
    by (auto simp: tracked_def)
  from fd_verdict [OF o(1,3)] obtain c' where c': "fd c p = Done (verdict c p, c')" "ok c'"
      "\<And>q. safe c (p @ q) \<Longrightarrow> safe c' q \<and> verdict c' q = verdict c (p @ q)" by blast
  have "safe c' q \<and> verdict c' q = verdict x ((seen @ p) @ q)" if "safe x ((seen @ p) @ q)" for q
    using assms(1) that c'(3) [of q] by (simp add: tracked_def)
  with c' o v show ?thesis by (auto simp: tracked_def)
qed

lemma byte_tracks:
  "tracks xs seen cs \<Longrightarrow> all_safe xs (seen @ [b]) \<Longrightarrow>
   \<exists>cs'. sniff_byte fd b i cs =
       Done (map_option ((+) i) (first_match (map (\<lambda>x. verdict x (seen @ [b])) xs)), cs') \<and>
     (first_match (map (\<lambda>x. verdict x (seen @ [b])) xs) = None \<longrightarrow> tracks xs (seen @ [b]) cs')"
proof (induction xs cs arbitrary: i rule: list_all2_induct)
  case (Cons x xs cs css)
  obtain c s where cs: "cs = (c, s)" by (cases cs)
  have safe: "safe x (seen @ [b])" "all_safe xs (seen @ [b])" using Cons.prems by simp_all
  from Cons.IH [OF safe(2), of "Suc i"] obtain cs' where
    "sniff_byte fd b (Suc i) css =
        Done (map_option ((+) (Suc i)) (first_match (map (\<lambda>x. verdict x (seen @ [b])) xs)), cs') \<and>
      (first_match (map (\<lambda>x. verdict x (seen @ [b])) xs) = None \<longrightarrow> tracks xs (seen @ [b]) cs')" ..
  note r = this [THEN conjunct1] this [THEN conjunct2, THEN mp]
  let ?m = "first_match (map (\<lambda>x. verdict x (seen @ [b])) xs)"
  have shift: "map_option ((+) (Suc i)) ?m = map_option ((+) i) (map_option Suc ?m)" by (cases ?m) simp_all
  show ?case
  proof (cases "s = NeedMore")
    case False
    note t = tracked_terminal [OF Cons.hyps(1) [unfolded cs] False safe(1)]
    have "sniff_byte fd b i (cs # css) = Done (map_option ((+) i) (map_option Suc ?m), (c, s) # cs')"
      using False r(1) by (simp add: cs shift)
    with t r(2) show ?thesis by (intro exI [of _ "(c, s) # cs'"]) simp
  next
    case True
    let ?v = "verdict x (seen @ [b])"
    have o: "ok x" using Cons.hyps(1) by (simp add: tracked_def)
    from tracked_step [OF Cons.hyps(1) [unfolded cs True] safe(1)] obtain c' where
      c': "fd c [b] = Done (?v, c')" "?v \<noteq> Match \<Longrightarrow> tracked (seen @ [b]) x (c', ?v)" by blast
    have "sniff_byte fd b i (cs # css) =
        Done (if ?v = Match then Some i else map_option ((+) i) (map_option Suc ?m), (c', ?v) # cs')"
      using True r(1) c'(1) verdict_valid [OF o, of "seen @ [b]"] by (simp add: cs shift)
    with c'(2) r(2) show ?thesis by (intro exI [of _ "(c', ?v) # cs'"]) simp
  qed
qed simp

lemma inactive_mismatch:
  "tracks xs seen cs \<Longrightarrow> active cs = 0 \<Longrightarrow> all_safe xs (seen @ q) \<Longrightarrow>
   list_all (\<lambda>x. verdict x (seen @ q) = Mismatch) xs"
proof (induction xs cs rule: list_all2_induct)
  case (Cons x xs cs css)
  obtain c s where cs: "cs = (c, s)" by (cases cs)
  from Cons.prems(1) have "s \<noteq> NeedMore" "active css = 0" by (auto simp: active_def cs split: if_splits)
  moreover from Cons.prems(2) have "safe x (seen @ q)" "all_safe xs (seen @ q)" by simp_all
  ultimately show ?case using tracked_terminal(2) [OF Cons.hyps(1) [unfolded cs], of q] Cons.IH by simp
qed simp

abbreviation verdicts :: "'x list \<Rightarrow> (byte list \<Rightarrow> State) list" where
  "verdicts xs \<equiv> map verdict xs"

lemma tracks_unmatched: "tracks xs seen cs \<Longrightarrow> first_match (map (\<lambda>v. v seen) (verdicts xs)) = None"
  by (induction rule: list_all2_induct) (auto simp: tracked_def)

lemma chunk_tracks:
  "tracks xs seen cs \<Longrightarrow> all_safe xs (seen @ bs) \<Longrightarrow>
   (\<exists>i. sniff_chunk fd bs cs = Done (Inl i) \<and>
      (\<forall>q. all_safe xs (seen @ bs @ q) \<longrightarrow> selects_from (verdicts xs) seen (bs @ q) = i)) \<or>
   (\<exists>cs'. sniff_chunk fd bs cs = Done (Inr cs') \<and> tracks xs (seen @ bs) cs' \<and>
      (\<forall>q. selects_from (verdicts xs) seen (bs @ q) = selects_from (verdicts xs) (seen @ bs) q))"
proof (induction bs arbitrary: seen cs)
  case Nil
  then show ?case by simp
next
  case (Cons b bs)
  let ?vs = "verdicts xs"
  let ?m = "first_match (map (\<lambda>x. verdict x (seen @ [b])) xs)"
  note n = tracks_unmatched [OF Cons.prems(1)]
  have m: "map (\<lambda>v. v (seen @ [b])) ?vs = map (\<lambda>x. verdict x (seen @ [b])) xs" by simp
  have sb: "all_safe xs (seen @ [b])"
    using all_safe_prefix [OF tracks_ok [OF Cons.prems(1)], of "seen @ [b]" bs] Cons.prems(2) by simp
  from byte_tracks [OF Cons.prems(1) sb, of 0] obtain cs' where
    "sniff_byte fd b 0 cs = Done (map_option ((+) 0) ?m, cs') \<and> (?m = None \<longrightarrow> tracks xs (seen @ [b]) cs')" ..
  note r = this [THEN conjunct1] this [THEN conjunct2, THEN mp]
  have step: "selects_from ?vs seen (b # bs @ q) = selects_from ?vs (seen @ [b]) (bs @ q)" for q
    using n by simp
  show ?case
  proof (cases ?m)
    case (Some i)
    then have "selects_from ?vs (seen @ [b]) q = int i" for q by (cases q) (simp_all add: m comp_def)
    with Some r(1) step show ?thesis by simp
  next
    case None
    note t = r(2) [OF None]
    show ?thesis
    proof (cases "active cs' = 0")
      case True
      have "selects_from ?vs (seen @ [b]) (bs @ q) = NoMatch" if "all_safe xs (seen @ b # bs @ q)" for q
      proof (rule selects_unmatched)
        fix k v
        assume "v \<in> set ?vs"
        then obtain x where x: "x \<in> set xs" "v = verdict x" by auto
        have "all_safe xs ((seen @ [b]) @ take k (bs @ q))"
          using all_safe_prefix [OF tracks_ok [OF t], of "(seen @ [b]) @ take k (bs @ q)" "drop k (bs @ q)"] that
          by (simp only: append_assoc append_take_drop_id append_Cons append_Nil)
        from inactive_mismatch [OF t True this] x show "v ((seen @ [b]) @ take k (bs @ q)) \<noteq> Match"
          by (simp add: list_all_iff)
      qed
      with r(1) None True step show ?thesis by simp
    next
      case False
      have c: "sniff_chunk fd (b # bs) cs = sniff_chunk fd bs cs'" using r(1) None False by simp
      have "all_safe xs ((seen @ [b]) @ bs)" using Cons.prems(2) by simp
      from Cons.IH [OF t this] step c show ?thesis by simp
    qed
  qed
qed

lemma initial_tracks:
  "list_all ok xs \<Longrightarrow> all_safe xs [] \<Longrightarrow>
   \<exists>cs. sniff_initial fd i (map Some xs) =
       Done (case first_match (map (\<lambda>x. verdict x []) xs) of Some k \<Rightarrow> Inl (i + k) | None \<Rightarrow> Inr cs) \<and>
     (first_match (map (\<lambda>x. verdict x []) xs) = None \<longrightarrow> tracks xs [] cs)"
proof (induction xs arbitrary: i)
  case Nil
  then show ?case by simp
next
  case (Cons x xs)
  let ?v = "verdict x []" and ?m = "first_match (map (\<lambda>x. verdict x []) xs)"
  have o: "ok x" "safe x []" using Cons.prems by simp_all
  from fd_verdict [OF o] obtain x' where x': "fd x [] = Done (?v, x')" "ok x'"
      "\<And>q. safe x q \<Longrightarrow> safe x' q \<and> verdict x' q = verdict x q" by auto
  have v: "valid_state ?v" by (rule verdict_valid [OF o(1)])
  from Cons.IH [of "Suc i"] Cons.prems obtain cs where
    "sniff_initial fd (Suc i) (map Some xs) = Done (case ?m of Some k \<Rightarrow> Inl (Suc i + k) | None \<Rightarrow> Inr cs) \<and>
     (?m = None \<longrightarrow> tracks xs [] cs)" by auto
  note r = this [THEN conjunct1] this [THEN conjunct2, THEN mp]
  show ?case
  proof (cases "?v = Match")
    case True
    with x'(1) v show ?thesis by (simp add: required_def)
  next
    case False
    have "tracked [] x (x', ?v)" using False o x' by (simp add: tracked_def)
    with r False x'(1) v show ?thesis
      by (intro exI [of _ "(x', ?v) # cs"]) (simp add: required_def split: option.split)
  qed
qed

lemma loop_result:
  assumes nc: "net_conn rd pending" and "tracks xs used cs" and "all_safe xs (used @ pc_pending pending conn)"
    and "length used \<le> budget"
  shows "\<exists>i err got conn'. sniff_loop fd rd budget used conn cs = Done (i, err, used @ got, conn') \<and>
    pc_pending pending conn = got @ pc_pending pending conn' \<and> length (used @ got) \<le> budget \<and>
    i = selects_from (verdicts xs) used got \<and> (err \<noteq> None \<longrightarrow> i = NoMatch) \<and>
    ((\<forall>n c. 0 < n \<longrightarrow> fst (rd n c) \<noteq> ([], None)) \<and> err = None \<longrightarrow>
       i = selects_from (verdicts xs) used (take (budget - length used) (pc_pending pending conn)))"
  using assms(2-4)
proof (induction "budget - length used" arbitrary: used conn cs rule: less_induct)
  case less
  let ?vs = "verdicts xs"
  have none: "selects_from ?vs used [] = NoMatch" using tracks_unmatched [OF less.prems(1)] by simp
  show ?case
  proof (cases "budget \<le> length used")
    case True
    with none less.prems(3) show ?thesis
      by (intro exI [of _ NoMatch] exI [of _ None] exI [of _ "[]"] exI [of _ conn]) (simp add: sniff_loop.simps)
  next
    case False
    let ?n = "budget - length used"
    obtain bs err conn' where rd: "pc_Read rd ?n conn = ((bs, err), conn')" by (metis prod.exhaust)
    from net_conn.putback_fits [OF nc rd] have fits: "length bs \<le> ?n" .
    from net_conn.putback_read_pending [OF nc rd] have pend: "pc_pending pending conn = bs @ pc_pending pending conn'" .
    have safe: "all_safe xs (used @ bs)"
      using all_safe_prefix [OF tracks_ok [OF less.prems(1)], of "used @ bs" "pc_pending pending conn'"] less.prems(2) pend
      by simp
    have loop: "sniff_loop fd rd budget used conn cs =
        (case sniff_chunk fd bs cs of
          Panic \<Rightarrow> Panic
        | Done (Inl i) \<Rightarrow> Done (i, None, used @ bs, conn')
        | Done (Inr cs') \<Rightarrow>
            (case err of
               Some e \<Rightarrow> Done (NoMatch, Some e, used @ bs, conn')
             | None \<Rightarrow>
                 if bs = [] then Done (NoMatch, None, used, conn')
                 else sniff_loop fd rd budget (used @ bs) conn' cs'))"
      using False rd fits by (subst sniff_loop.simps) simp
    have part: "take ?n (pc_pending pending conn) = bs @ take (?n - length bs) (pc_pending pending conn')"
      using pend fits by simp
    from chunk_tracks [OF less.prems(1) safe] consider
      (ret) i where "sniff_chunk fd bs cs = Done (Inl i)"
        "\<And>q. all_safe xs (used @ bs @ q) \<Longrightarrow> selects_from ?vs used (bs @ q) = i"
      | (cont) cs' where "sniff_chunk fd bs cs = Done (Inr cs')" "tracks xs (used @ bs) cs'"
        "\<And>q. selects_from ?vs used (bs @ q) = selects_from ?vs (used @ bs) q" by blast
    then show ?thesis
    proof cases
      case ret
      have "all_safe xs (used @ bs @ take k (pc_pending pending conn'))" for k
        using all_safe_prefix [OF tracks_ok [OF less.prems(1)],
            of "used @ bs @ take k (pc_pending pending conn')" "drop k (pc_pending pending conn')"] less.prems(2) pend
        by simp
      with ret(2) [of "[]"] ret(2) loop ret(1) fits pend part safe False show ?thesis
        by (intro exI [of _ i] exI [of _ None] exI [of _ bs] exI [of _ conn']) simp
    next
      case cont
      have here: "selects_from ?vs used bs = NoMatch"
        using cont(3) [of "[]"] tracks_unmatched [OF cont(2)] by simp
      show ?thesis
      proof (cases "err = None \<and> bs \<noteq> []")
        case True
        have "0 < length bs" using True by simp
        then have "budget - length (used @ bs) < ?n" using False fits unfolding length_append by linarith
        moreover have "all_safe xs ((used @ bs) @ pc_pending pending conn')" using less.prems(2) pend by simp
        moreover have "length (used @ bs) \<le> budget" using fits False by simp
        ultimately obtain i err2 got conn2 where
          l: "sniff_loop fd rd budget (used @ bs) conn' cs' = Done (i, err2, (used @ bs) @ got, conn2)"
            "pc_pending pending conn' = got @ pc_pending pending conn2" "length ((used @ bs) @ got) \<le> budget"
            "i = selects_from ?vs (used @ bs) got" "err2 \<noteq> None \<longrightarrow> i = NoMatch"
            "(\<forall>n c. 0 < n \<longrightarrow> fst (rd n c) \<noteq> ([], None)) \<and> err2 = None \<longrightarrow>
             i = selects_from ?vs (used @ bs) (take (budget - length (used @ bs)) (pc_pending pending conn'))"
          using less.hyps [OF _ cont(2), of conn'] by blast
        have "selects_from ?vs used (take ?n (pc_pending pending conn)) =
            selects_from ?vs (used @ bs) (take (budget - length (used @ bs)) (pc_pending pending conn'))"
          unfolding part cont(3) by (simp add: diff_diff_left)
        moreover have "sniff_loop fd rd budget used conn cs = sniff_loop fd rd budget (used @ bs) conn' cs'"
          using True loop cont(1) by simp
        moreover have "pc_pending pending conn = (bs @ got) @ pc_pending pending conn2" using pend l(2) by simp
        ultimately show ?thesis
          using l(1,3-6) cont(3) [of got]
          by (intro exI [of _ i] exI [of _ err2] exI [of _ "bs @ got"] exI [of _ conn2]) (metis append_assoc)
      next
        case stop: False
        have "\<not> (\<forall>n c. 0 < n \<longrightarrow> fst (rd n c) \<noteq> ([], None))" if "err = None"
        proof -
          from that stop have "pc_Read rd ?n conn = (([], None), conn')" using rd by simp
          then have "fst (rd ?n (pc_conn conn)) = ([], None)"
            using False by (auto simp: pc_Read_def split: if_splits option.splits prod.splits)
          with False show ?thesis by (metis diff_is_0_eq neq0_conv)
        qed
        with stop here loop cont(1) fits pend False none show ?thesis
          by (cases err) (auto intro!: exI [of _ NoMatch] simp: neq_Nil_conv)
      qed
    qed
  qed
qed

lemma sniff_result:
  assumes nc: "net_conn rd pending" and "list_all ok xs" and safe: "all_safe xs (pc_pending pending conn)"
  shows "\<exists>i err conn' got. sniff fd rd budget (Some conn) (map Some xs) = Done (i, err, conn') \<and>
    pc_pending pending conn' = pc_pending pending conn \<and> (err \<noteq> None \<longrightarrow> i = NoMatch) \<and>
    prefix got (pc_pending pending conn) \<and> length got \<le> budget \<and> i = selects (verdicts xs) got \<and>
    ((\<forall>n c. 0 < n \<longrightarrow> fst (rd n c) \<noteq> ([], None)) \<and> err = None \<longrightarrow>
       i = selects (verdicts xs) (take budget (pc_pending pending conn)))"
proof -
  let ?vs = "verdicts xs" and ?m = "first_match (map (\<lambda>x. verdict x []) xs)"
  have s0: "all_safe xs []" using all_safe_prefix [OF assms(2), of "[]"] safe by simp
  from initial_tracks [OF assms(2) s0, of 0] obtain cs where
    "sniff_initial fd 0 (map Some xs) = Done (case ?m of Some k \<Rightarrow> Inl (0 + k) | None \<Rightarrow> Inr cs) \<and>
     (?m = None \<longrightarrow> tracks xs [] cs)" ..
  note r = this [THEN conjunct1] this [THEN conjunct2, THEN mp]
  show ?thesis
  proof (cases ?m)
    case (Some k)
    then have "selects ?vs q = int k" for q by (cases q) (simp_all add: selects_def comp_def)
    with r(1) Some show ?thesis
      by (intro exI [of _ "int k"] exI [of _ None] exI [of _ conn] exI [of _ "[]"])
        (simp add: sniff_def required_def NoMatch_def)
  next
    case None
    note t = r(2) [OF None]
    have none: "selects ?vs [] = NoMatch" using None by (simp add: selects_def comp_def)
    show ?thesis
    proof (cases "active cs = 0 \<or> budget = 0")
      case True
      have "selects ?vs (take budget (pc_pending pending conn)) = NoMatch" if a: "active cs = 0"
        unfolding selects_def
      proof (rule selects_unmatched)
        fix k v
        let ?q = "take k (take budget (pc_pending pending conn))"
        assume "v \<in> set ?vs"
        then obtain x where x: "x \<in> set xs" "v = verdict x" by auto
        have "all_safe xs ([] @ ?q)"
          using all_safe_prefix [OF assms(2), of ?q "drop (min k budget) (pc_pending pending conn)"] safe
          by (simp add: min_def)
        from inactive_mismatch [OF t a this] x show "v ([] @ ?q) \<noteq> Match" by (simp add: list_all_iff)
      qed
      with True none r(1) None show ?thesis
        by (intro exI [of _ NoMatch] exI [of _ None] exI [of _ conn] exI [of _ "[]"])
          (auto simp: sniff_def required_def)
    next
      case False
      have e: "length ([] :: byte list) \<le> budget" by simp
      have "all_safe xs ([] @ pc_pending pending conn)" using safe by simp
      from loop_result [OF nc t this e] obtain i err got conn' where
        l: "sniff_loop fd rd budget [] conn cs = Done (i, err, [] @ got, conn')"
          "pc_pending pending conn = got @ pc_pending pending conn'" "length ([] @ got) \<le> budget"
          "i = selects_from ?vs [] got" "err \<noteq> None \<longrightarrow> i = NoMatch"
          "(\<forall>n c. 0 < n \<longrightarrow> fst (rd n c) \<noteq> ([], None)) \<and> err = None \<longrightarrow>
             i = selects_from ?vs [] (take (budget - length ([] :: byte list)) (pc_pending pending conn))"
        by (elim exE conjE) (rule that)
      note l = l [unfolded append_Nil list.size diff_zero selects_def [symmetric]]
      let ?conn = "if got \<noteq> [] then pc_PutBack got conn' else conn'"
      have "pc_pending pending ?conn = pc_pending pending conn" using l(2) by (simp add: PutBack_pending)
      moreover have "sniff fd rd budget (Some conn) (map Some xs) = Done (i, err, ?conn)"
        using False r(1) None l(1) by (simp add: sniff_def required_def)
      moreover have "prefix got (pc_pending pending conn)" using l(2) by simp
      ultimately show ?thesis
        using l(3-6)
        by - (intro exI [of _ i] exI [of _ err] exI [of _ ?conn] exI [of _ got] conjI; assumption)
    qed
  qed
qed

end

lemma selects_NoMatch: "selects_from vs seen bs = NoMatch \<Longrightarrow> v \<in> set vs \<Longrightarrow> v (seen @ bs) \<noteq> Match"
proof (induction vs seen bs rule: selects_from.induct)
  case (1 vs seen)
  then have "first_match (map (\<lambda>v. v seen) vs) = None" by (auto simp: NoMatch_def split: option.splits)
  with "1.prems"(2) show ?case by (auto simp: first_match_None dest: sym)
next
  case (2 vs seen b bs)
  then have "first_match (map (\<lambda>v. v seen) vs) = None" "selects_from vs (seen @ [b]) bs = NoMatch"
    by (auto simp: NoMatch_def split: option.splits)
  with "2.IH" "2.prems"(2) show ?case by simp
qed

subsection \<open>The classifiers of \<^verbatim>\<open>basic.go\<close> and \<^verbatim>\<open>combinators.go\<close> alone\<close>

text \<open>With no foreign classifiers at the leaves, the contract holds without conditions.\<close>

definition no_leaf :: "unit feeder" where "no_leaf x p = Panic"

interpretation bare: classifier no_leaf "\<lambda>_. False" "\<lambda>_ _. True" "\<lambda>_ _. Mismatch" "\<lambda>_. 0"
  by unfold_locales simp_all

interpretation combined: classifier "feed no_leaf" "tree_ok (\<lambda>_. False) (\<lambda>_. 0)" "tree_safe (\<lambda>_ _. True)"
    "tree_verdict (\<lambda>_ _. Mismatch)" "minSniffBufferSize (\<lambda>_. 0)"
  by (rule bare.combinators)

definition ssh_or_get :: "unit classifier list" where
  "ssh_or_get = [SSH, Prefix [0x47, 0x45, 0x54]]"

text \<open>A stream \<open>GET\<close> that arrives in two pieces and ends.\<close>

definition get_conn :: "((byte list \<times> unit option) list, unit) pconn" where
  "get_conn = \<lparr>pc_conn = [([0x47], None), ([0x45, 0x54, 0x20], None)], pc_extra = [], pc_deferredErr = None\<rparr>"

lemma ssh_or_get_ok: "list_all (tree_ok (\<lambda>_. False) (\<lambda>_. 0)) ssh_or_get"
  by (simp add: ssh_or_get_def SSH_def Prefix_def)

lemma ssh_or_get_safe: "list_all (\<lambda>x. tree_safe (\<lambda>_ _. True) x p) ssh_or_get"
  by (simp add: ssh_or_get_def SSH_def Prefix_def)

lemma get_selected:
  "selects (map (tree_verdict (\<lambda>_ _. Mismatch)) ssh_or_get) (take 16 (pc_pending scripted_pending get_conn)) = 1"
  by (simp add: selects_def ssh_or_get_def SSH_def Prefix_def pc_pending_def scripted_pending_def get_conn_def
      prefix_verdict_def)

subsection \<open>Properties\<close>

text \<open>
  C8. \<open>Sniff\<close> returns, without panic, and gives every byte back. For classifiers that keep their
  contract and a connection that keeps the contract of \<^verbatim>\<open>net.Conn\<close>, what can be read afterwards is
  what could be read before, on every path: match, no match, spent budget and read error. A read
  error is reported only without a match, and no more than the budget is inspected.
\<close>

theorem sniff_restores:
  assumes "classifier fd ok safe verdict minsize" and "net_conn rd pending" and "list_all ok xs"
    and "list_all (\<lambda>x. safe x (pc_pending pending conn)) xs"
  shows "\<exists>i err conn' got. sniff fd rd budget (Some conn) (map Some xs) = Done (i, err, conn') \<and>
    pc_pending pending conn' = pc_pending pending conn \<and> (err \<noteq> None \<longrightarrow> i = NoMatch) \<and>
    prefix got (pc_pending pending conn) \<and> length got \<le> budget \<and> i = selects (map verdict xs) got"
  using classifier.sniff_result [OF assms, of budget] by blast

theorem sniff_restores_witness:
  "\<exists>i err conn'. sniff (feed no_leaf) (scripted_read ()) 16 (Some get_conn) (map Some ssh_or_get) = Done (i, err, conn') \<and>
     pc_pending scripted_pending conn' = [0x47, 0x45, 0x54, 0x20]"
proof -
  have "pc_pending scripted_pending get_conn = [0x47, 0x45, 0x54, 0x20]"
    by (simp add: pc_pending_def scripted_pending_def get_conn_def)
  with sniff_restores [OF combined.classifier_axioms scripted.net_conn_axioms [of "()"] ssh_or_get_ok
      ssh_or_get_safe, of 16 get_conn] show ?thesis by metis
qed

text \<open>
  C9. The selected classifier does not depend on how the stream is cut into reads. If the
  connection makes progress and no read error is returned, \<open>Sniff\<close> selects the first of the
  classifiers that match on the shortest prefix of the stream on which any classifier matches, and
  none if there is no such prefix within the budget.
\<close>

theorem sniff_independent_of_reads:
  assumes "classifier fd ok safe verdict minsize" and "net_conn rd pending" and "list_all ok xs"
    and "list_all (\<lambda>x. safe x (pc_pending pending conn)) xs"
    and "\<forall>n c. 0 < n \<longrightarrow> fst (rd n c) \<noteq> ([], None)"
    and "sniff fd rd budget (Some conn) (map Some xs) = Done (i, None, conn')"
  shows "i = selects (map verdict xs) (take budget (pc_pending pending conn))"
  using classifier.sniff_result [OF assms(1-4), of budget] assms(5,6) by auto

lemma get_sniffed:
  "\<exists>conn'. sniff (feed no_leaf) (scripted_read ()) 16 (Some get_conn) (map Some ssh_or_get) = Done (1, None, conn')"
  by (simp add: sniff_def required_def ssh_or_get_def SSH_def Prefix_def checkedState_def active_def get_conn_def
      sniff_loop.simps pc_Read_def omap_def)

theorem sniff_independent_of_reads_witness:
  "(1 :: int) = selects (map (tree_verdict (\<lambda>_ _. Mismatch)) ssh_or_get) [0x47, 0x45, 0x54, 0x20]"
proof -
  obtain conn' where s: "sniff (feed no_leaf) (scripted_read ()) 16 (Some get_conn) (map Some ssh_or_get) =
      Done (1, None, conn')" using get_sniffed ..
  have "take 16 (pc_pending scripted_pending get_conn) = [0x47, 0x45, 0x54, 0x20]"
    by (simp add: pc_pending_def scripted_pending_def get_conn_def)
  with sniff_independent_of_reads [OF combined.classifier_axioms scripted.net_conn_axioms ssh_or_get_ok
      ssh_or_get_safe scripted_progress s] show ?thesis by simp
qed

text \<open>
  C10. A budget of at least \<^verbatim>\<open>MinSniffBufferSize\<close> of every classifier decides: if that many
  bytes arrive and \<open>Sniff\<close> selects nothing, every classifier has definitively mismatched.
\<close>

theorem sniff_budget_decides:
  assumes "classifier fd ok safe verdict minsize" and "net_conn rd pending" and "list_all ok xs"
    and "list_all (\<lambda>x. safe x (pc_pending pending conn)) xs"
    and "\<forall>n c. 0 < n \<longrightarrow> fst (rd n c) \<noteq> ([], None)"
    and "list_all (\<lambda>x. minsize x \<le> int budget) xs" and "budget \<le> length (pc_pending pending conn)"
    and "sniff fd rd budget (Some conn) (map Some xs) = Done (NoMatch, None, conn')"
  shows "list_all (\<lambda>x. verdict x (take budget (pc_pending pending conn)) = Mismatch) xs"
proof -
  let ?p = "take budget (pc_pending pending conn)"
  from classifier.sniff_result [OF assms(1-4), of budget] assms(5,8) have
    n: "selects_from (map verdict xs) [] ?p = NoMatch" by (auto simp: selects_def)
  have "verdict x ?p = Mismatch" if x: "x \<in> set xs" for x
  proof -
    have o: "ok x" "safe x (pc_pending pending conn)" "minsize x \<le> int budget"
      using assms(3,4,6) x by (auto simp: list_all_iff)
    have "safe x ?p"
      using classifier.safe_prefix [OF assms(1) o(1), of ?p "drop budget (pc_pending pending conn)"] o(2) by simp
    with classifier.decided [OF assms(1) o(1), of ?p] o(3) assms(7) have "verdict x ?p \<noteq> NeedMore" by simp
    moreover have "verdict x ?p \<noteq> Match" using selects_NoMatch [OF n, of "verdict x"] x by simp
    ultimately show ?thesis using classifier.verdict_valid [OF assms(1) o(1), of ?p] by (auto dest: valid_cases)
  qed
  then show ?thesis by (simp add: list_all_iff)
qed

text \<open>A stream that is neither.\<close>

definition other_conn :: "((byte list \<times> unit option) list, unit) pconn" where
  "other_conn = \<lparr>pc_conn = [([0x41, 0x42], None), ([0x43, 0x44], None)], pc_extra = [], pc_deferredErr = None\<rparr>"

lemma other_sniffed:
  "\<exists>conn'. sniff (feed no_leaf) (scripted_read ()) 4 (Some other_conn) (map Some ssh_or_get) = Done (NoMatch, None, conn')"
  by (simp add: sniff_def required_def ssh_or_get_def SSH_def Prefix_def checkedState_def active_def other_conn_def
      sniff_loop.simps pc_Read_def omap_def)

theorem sniff_budget_decides_witness:
  "list_all (\<lambda>x. tree_verdict (\<lambda>_ _. Mismatch) x [0x41, 0x42, 0x43, 0x44] = Mismatch) ssh_or_get"
proof -
  obtain conn' where s: "sniff (feed no_leaf) (scripted_read ()) 4 (Some other_conn) (map Some ssh_or_get) =
      Done (NoMatch, None, conn')" using other_sniffed ..
  have p: "pc_pending scripted_pending other_conn = [0x41, 0x42, 0x43, 0x44]"
    by (simp add: pc_pending_def scripted_pending_def other_conn_def)
  have m: "list_all (\<lambda>x. minSniffBufferSize (\<lambda>_. 0) x \<le> int 4) ssh_or_get"
    by (simp add: ssh_or_get_def SSH_def Prefix_def)
  from sniff_budget_decides [OF combined.classifier_axioms scripted.net_conn_axioms ssh_or_get_ok ssh_or_get_safe
      scripted_progress m _ s] p show ?thesis by simp
qed

end
