(* ===== verification/ByteScan.thy ===== *)
theory ByteScan
  imports Classifiers
begin

text \<open>
  What the protocol classifiers of \<^verbatim>\<open>src/sniffer/\<close> share: reading integers from a byte slice, and
  the loop of a \<open>Feed\<close> that takes one byte at a time. The locale \<open>byte_scanner\<close> says what such a
  loop has to guarantee, and \<open>scanner\<close> proves once that a classifier built on it keeps the
  contract of classifiers.
\<close>

subsection \<open>Bytes\<close>

text \<open>Reads of \<^verbatim>\<open>encoding/binary\<close> at an offset; the callers have checked the length.\<close>

definition u16be :: "byte list \<Rightarrow> nat \<Rightarrow> u16" where
  "u16be d i = of_nat (unat (d ! i) * 256 + unat (d ! (i + 1)))"

definition u32be :: "byte list \<Rightarrow> nat \<Rightarrow> u32" where
  "u32be d i = of_nat (((unat (d ! i) * 256 + unat (d ! (i + 1))) * 256 + unat (d ! (i + 2))) * 256 + unat (d ! (i + 3)))"

definition u16le :: "byte list \<Rightarrow> nat \<Rightarrow> u16" where
  "u16le d i = of_nat (unat (d ! i) + 256 * unat (d ! (i + 1)))"

definition u32le :: "byte list \<Rightarrow> nat \<Rightarrow> u32" where
  "u32le d i = of_nat (unat (d ! i) + 256 * (unat (d ! (i + 1)) + 256 * (unat (d ! (i + 2)) + 256 * unat (d ! (i + 3)))))"

text \<open>The bytes of a Go string, and the string of a byte slice.\<close>

definition bytes_of :: "string \<Rightarrow> byte list" where
  "bytes_of s = map of_char s"

definition string_of :: "byte list \<Rightarrow> string" where
  "string_of bs = map (\<lambda>b. char_of (unat b)) bs"

text \<open>\<^verbatim>\<open>data[lo:hi]\<close>.\<close>

definition sub_slice :: "'a list \<Rightarrow> nat \<Rightarrow> nat \<Rightarrow> 'a list" where
  "sub_slice d lo hi = drop lo (take hi d)"

definition protocolHasBytes :: "byte list \<Rightarrow> nat \<Rightarrow> nat \<Rightarrow> bool" where
  "protocolHasBytes data offset count \<longleftrightarrow> offset \<le> length data \<and> count \<le> length data - offset"

lemma u16be_unat [simp]: "unat (u16be d i) = unat (d ! i) * 256 + unat (d ! (i + 1))"
proof -
  have "unat (d ! i) < 256" "unat (d ! (i + 1)) < 256" by simp_all
  then have "unat (d ! i) * 256 + unat (d ! (i + 1)) < 65536" by linarith
  then show ?thesis unfolding u16be_def by (rule u16_of_nat)
qed

lemma of_char_unat: "unat (of_char c :: byte) = of_char c"
proof -
  have "(of_char c :: nat) < 256" by simp
  then have "unat (of_nat (of_char c) :: byte) = of_char c" by (rule byte_of_nat)
  then show ?thesis by (simp only: of_nat_of_char)
qed

lemma string_of_bytes [simp]: "string_of (bytes_of s) = s"
  by (simp add: string_of_def bytes_of_def comp_def of_char_unat)

lemma bytes_of_string [simp]: "bytes_of (string_of bs) = bs"
proof -
  have "of_char (char_of (unat b) :: char) = b" for b :: byte
  proof -
    have "(of_char (char_of (unat b) :: char) :: nat) = unat b" by (simp add: of_char_of)
    then have "of_nat (of_char (char_of (unat b) :: char)) = (of_nat (unat b) :: byte)" by (simp only:)
    then show ?thesis by (simp only: of_nat_of_char of_nat_unat ucast_id)
  qed
  then show ?thesis by (simp add: string_of_def bytes_of_def comp_def)
qed

lemma length_bytes_of [simp]: "length (bytes_of s) = length s" "length (string_of bs) = length bs"
  by (simp_all add: bytes_of_def string_of_def)

lemma bytes_of_Nil [simp]: "bytes_of s = [] \<longleftrightarrow> s = []"
  by (simp add: bytes_of_def)

lemma valid_if: "valid_state a \<Longrightarrow> valid_state b \<Longrightarrow> valid_state (if c then a else b)"
  by simp

subsection \<open>The byte loop\<close>

text \<open>
  \<^verbatim>\<open>if c.state != NeedMore { return c.state }\<close> and the loop over the bytes, which returns as soon as
  the state is terminal. \<open>step\<close> is the body of the loop; \<open>finish\<close> is what follows the loop.
\<close>

fun scan_loop :: "('s \<Rightarrow> byte \<Rightarrow> 's outcome) \<Rightarrow> ('s \<Rightarrow> State) \<Rightarrow> 's \<Rightarrow> byte list \<Rightarrow> 's outcome" where
  "scan_loop step stt s [] = Done s"
| "scan_loop step stt s (b # p) =
     (if stt s \<noteq> NeedMore then Done s else obind (step s b) (\<lambda>s. scan_loop step stt s p))"

definition scan_feed :: "('s \<Rightarrow> byte \<Rightarrow> 's outcome) \<Rightarrow> ('s \<Rightarrow> 's) \<Rightarrow> ('s \<Rightarrow> State) \<Rightarrow> 's feeder" where
  "scan_feed step finish stt s p =
     (if stt s \<noteq> NeedMore then Done (stt s, s)
      else omap (\<lambda>s. let s = (if stt s = NeedMore then finish s else s) in (stt s, s)) (scan_loop step stt s p))"

lemma scan_loop_terminal [simp]: "stt s \<noteq> NeedMore \<Longrightarrow> scan_loop step stt s p = Done s"
  by (cases p) simp_all

lemma scan_loop_append:
  "scan_loop step stt s (p @ q) = obind (scan_loop step stt s p) (\<lambda>s. scan_loop step stt s q)"
  by (induction p arbitrary: s) (auto simp: obind_assoc)

definition scan_verdict :: "('s \<Rightarrow> byte \<Rightarrow> 's outcome) \<Rightarrow> ('s \<Rightarrow> 's) \<Rightarrow> ('s \<Rightarrow> State) \<Rightarrow> 's \<Rightarrow> byte list \<Rightarrow> State" where
  "scan_verdict step finish stt s p =
     (case scan_loop step stt s p of
        Panic \<Rightarrow> Mismatch | Done s \<Rightarrow> if stt s = NeedMore then stt (finish s) else stt s)"

definition scan_safe :: "('s \<Rightarrow> byte \<Rightarrow> 's outcome) \<Rightarrow> ('s \<Rightarrow> State) \<Rightarrow> 's \<Rightarrow> byte list \<Rightarrow> bool" where
  "scan_safe step stt s p \<longleftrightarrow> scan_loop step stt s p \<noteq> Panic"

text \<open>
  A step keeps the invariant and, while undecided, makes progress towards the limit. After the loop
  an undecided scanner may still be decided, but only as the next byte would decide it; at the
  limit it is decided.
\<close>

locale byte_scanner =
  fixes step :: "'s \<Rightarrow> byte \<Rightarrow> 's outcome" and finish :: "'s \<Rightarrow> 's" and stt :: "'s \<Rightarrow> State"
    and ok :: "'s \<Rightarrow> bool" and seen :: "'s \<Rightarrow> nat" and limit :: "'s \<Rightarrow> nat"
  assumes step_ok: "ok s \<Longrightarrow> stt s = NeedMore \<Longrightarrow> step s b = Done s' \<Longrightarrow>
      ok s' \<and> limit s' = limit s \<and> (stt s' = NeedMore \<longrightarrow> seen s < seen s')"
    and finish_ok: "ok s \<Longrightarrow> stt s = NeedMore \<Longrightarrow> ok (finish s) \<and> limit (finish s) = limit s"
    and finish_undecided: "ok s \<Longrightarrow> stt s = NeedMore \<Longrightarrow> stt (finish s) = NeedMore \<Longrightarrow> finish s = s"
    and finish_decided: "ok s \<Longrightarrow> stt s = NeedMore \<Longrightarrow> stt (finish s) \<noteq> NeedMore \<Longrightarrow>
      \<exists>s'. step s b = Done s' \<and> stt s' = stt (finish s)"
    and state_valid: "ok s \<Longrightarrow> valid_state (stt s)"
    and limit_decides: "ok s \<Longrightarrow> stt s = NeedMore \<Longrightarrow> limit s \<le> seen s \<Longrightarrow> stt (finish s) \<noteq> NeedMore"
begin

abbreviation loop where "loop \<equiv> scan_loop step stt"
abbreviation verdict where "verdict \<equiv> scan_verdict step finish stt"
abbreviation safe where "safe \<equiv> scan_safe step stt"

lemma loop_ok:
  "ok s \<Longrightarrow> loop s p = Done s' \<Longrightarrow>
     ok s' \<and> limit s' = limit s \<and> (stt s' = NeedMore \<longrightarrow> seen s + length p \<le> seen s')"
proof (induction p arbitrary: s)
  case (Cons b p)
  show ?case
  proof (cases "stt s = NeedMore")
    case True
    with Cons.prems obtain t where t: "step s b = Done t" "loop t p = Done s'" by (auto simp: obind_eq_Done)
    from step_ok [OF Cons.prems(1) True t(1)] have ok: "ok t" "limit t = limit s"
      and s: "stt t = NeedMore \<Longrightarrow> seen s < seen t" by auto
    have "seen s + length (b # p) \<le> seen s'" if n: "stt s' = NeedMore"
    proof -
      have "stt t = NeedMore" using t(2) n by (cases "stt t = NeedMore") auto
      with s Cons.IH [OF ok(1) t(2)] n show ?thesis by simp
    qed
    with Cons.IH [OF ok(1) t(2)] ok(2) show ?thesis by simp
  qed (use Cons.prems in auto)
qed simp

lemma verdict_append: "loop s p = Done t \<Longrightarrow> verdict s (p @ q) = verdict t q"
  by (simp add: scan_verdict_def scan_loop_append)

lemma safe_append: "safe s (p @ q) \<longleftrightarrow> (\<exists>t. loop s p = Done t \<and> safe t q)"
  by (cases "loop s p") (simp_all add: scan_safe_def scan_loop_append)

lemma safe_Done: "safe s p \<Longrightarrow> \<exists>t. loop s p = Done t"
  by (cases "loop s p") (simp_all add: scan_safe_def)

lemma verdict_terminal: "stt s \<noteq> NeedMore \<Longrightarrow> verdict s p = stt s \<and> safe s p"
  by (simp add: scan_verdict_def scan_safe_def)

text \<open>Deciding after the loop makes no difference to what the rest of the stream decides.\<close>

lemma finish_same:
  assumes "ok s" and n: "stt s = NeedMore" and "safe s q"
  shows "safe (finish s) q \<and> verdict (finish s) q = verdict s q"
proof (cases "stt (finish s) = NeedMore")
  case True
  then have "finish s = s" by (rule finish_undecided [OF assms(1) n])
  with assms(3) show ?thesis by simp
next
  case False
  have "verdict s q = stt (finish s)"
  proof (cases q)
    case Nil
    with n show ?thesis by (simp add: scan_verdict_def)
  next
    case (Cons b r)
    from finish_decided [OF assms(1) n False, of b] obtain s' where s': "step s b = Done s'" "stt s' = stt (finish s)" by blast
    with Cons n False show ?thesis by (simp add: scan_verdict_def)
  qed
  with verdict_terminal [OF False] show ?thesis by simp
qed

lemma feed_verdict:
  assumes "ok s" and "safe s p"
  shows "\<exists>s'. scan_feed step finish stt s p = Done (verdict s p, s') \<and> ok s' \<and> limit s' = limit s \<and>
    (\<forall>q. safe s (p @ q) \<longrightarrow> safe s' q \<and> verdict s' q = verdict s (p @ q))"
proof (cases "stt s = NeedMore")
  case False
  with assms(1) verdict_terminal [OF False] show ?thesis by (simp add: scan_feed_def)
next
  case True
  obtain t where t: "loop s p = Done t" using safe_Done [OF assms(2)] ..
  note okt = loop_ok [OF assms(1) t]
  show ?thesis
  proof (cases "stt t = NeedMore")
    case False
    with True t okt verdict_terminal [OF False] show ?thesis
      by (intro exI [of _ t]) (auto simp: scan_feed_def scan_verdict_def scan_loop_append)
  next
    case n: True
    have "safe (finish t) q \<and> verdict (finish t) q = verdict s (p @ q)" if q: "safe s (p @ q)" for q
      using finish_same [of t q] okt n q t verdict_append [OF t] by (auto simp: safe_append)
    with True t n okt finish_ok [of t] show ?thesis
      by (intro exI [of _ "finish t"]) (auto simp: scan_feed_def scan_verdict_def Let_def)
  qed
qed

lemma verdict_cases:
  assumes "ok s"
  obtains t where "loop s p = Done t" and "ok t" and "stt t \<noteq> NeedMore" and "verdict s p = stt t"
  | t where "loop s p = Done t" and "ok t" and "stt t = NeedMore" and "verdict s p = stt (finish t)"
  | "loop s p = Panic" and "verdict s p = Mismatch"
proof (cases "loop s p")
  case (Done t)
  note okt = loop_ok [OF assms Done]
  with Done that(1,2) show ?thesis by (cases "stt t = NeedMore") (auto simp: scan_verdict_def)
qed (use that(3) in \<open>simp add: scan_verdict_def\<close>)

text \<open>A scanner whose body never panics is safe on every stream.\<close>

lemma total_safe:
  assumes "\<And>s b. ok s \<Longrightarrow> stt s = NeedMore \<Longrightarrow> step s b \<noteq> Panic"
  shows "ok s \<Longrightarrow> safe s p"
proof (induction p arbitrary: s)
  case (Cons b p)
  show ?case
  proof (cases "stt s = NeedMore")
    case True
    with assms [OF Cons.prems, of b] obtain t where t: "step s b = Done t" by (cases "step s b") auto
    with step_ok [OF Cons.prems True t] Cons.IH [of t] True show ?thesis by (simp add: scan_safe_def)
  qed (simp add: scan_safe_def)
qed (simp add: scan_safe_def)

theorem scanner: "classifier (scan_feed step finish stt) ok safe verdict (\<lambda>s. int (limit s))"
proof
  fix s p q
  show "ok s \<Longrightarrow> safe s p \<Longrightarrow> \<exists>s'. scan_feed step finish stt s p = Done (verdict s p, s') \<and> ok s' \<and>
      int (limit s') = int (limit s) \<and> (\<forall>q. safe s (p @ q) \<longrightarrow> safe s' q \<and> verdict s' q = verdict s (p @ q))"
    using feed_verdict [of s p] by simp
  show "ok s \<Longrightarrow> safe s (p @ q) \<Longrightarrow> safe s p"
    by (cases "loop s p") (simp_all add: scan_safe_def scan_loop_append)
  show "ok s \<Longrightarrow> valid_state (verdict s p)"
    by (erule verdict_cases [of _ p]) (auto intro: state_valid dest: finish_ok)
  show "verdict s (p @ q) = verdict s p" if o: "ok s" and f: "safe s (p @ q)" "verdict s p \<noteq> NeedMore"
    using o
  proof (rule verdict_cases [of s p])
    fix t assume t: "loop s p = Done t" "ok t" "stt t = NeedMore" "verdict s p = stt (finish t)"
    with f finish_same [of t q] verdict_terminal [of "finish t" q] show ?thesis
      by (auto simp: verdict_append safe_append)
  qed (use f verdict_terminal in \<open>auto simp: verdict_append scan_safe_def scan_loop_append\<close>)
  show "0 \<le> int (limit s)" by simp
  show "verdict s p \<noteq> NeedMore" if o: "ok s" and l: "int (limit s) \<le> int (length p)"
    using o
  proof (rule verdict_cases [of s p])
    fix t assume t: "loop s p = Done t" "ok t" "stt t = NeedMore" "verdict s p = stt (finish t)"
    with loop_ok [OF o t(1)] l limit_decides [of t] show ?thesis by simp
  qed auto
qed

end

end
