(* ===== verification/WellKnown.thy ===== *)
theory WellKnown
  imports ByteScan
begin

text \<open>
  \<^verbatim>\<open>src/sniffer/wellknown.go\<close>: the classifier that runs a matcher on a growing prefix, the classifier
  of a bounded CRLF line, and the matchers for RTSP, SIP, STUN, RDP, SMB, LDAP, Cassandra and
  memcached. Both classifiers are interpreted as byte scanners. The properties say which streams
  match: the incremental tests reject early exactly what the complete header or line would not pass.
\<close>

unbundle bit_operations_syntax

subsection \<open>The prefix classifier\<close>

record prefixc =
  pp_buf :: "byte list"
  pp_maxBytes :: nat
  pp_match :: "byte list \<Rightarrow> State"
  pp_state :: State

definition newProtocolPrefixClassifier :: "int \<Rightarrow> (byte list \<Rightarrow> State) option \<Rightarrow> prefixc outcome" where
  "newProtocolPrefixClassifier maxBytes match =
     (if maxBytes < 0 then Panic
      else obind (required match) (\<lambda>match.
        Done \<lparr>pp_buf = [], pp_maxBytes = nat maxBytes, pp_match = match, pp_state = NeedMore\<rparr>))"

definition pp_step :: "prefixc \<Rightarrow> byte \<Rightarrow> prefixc outcome" where
  "pp_step c b =
     (if length (pp_buf c) = pp_maxBytes c then Done (c\<lparr>pp_state := Mismatch\<rparr>)
      else let buf = pp_buf c @ [b] in
        obind (checkedState (pp_match c buf)) (\<lambda>state. Done (c\<lparr>pp_buf := buf, pp_state := state\<rparr>)))"

definition pp_finish :: "prefixc \<Rightarrow> prefixc" where
  "pp_finish c = (if length (pp_buf c) = pp_maxBytes c then c\<lparr>pp_state := Mismatch\<rparr> else c)"

definition pp_Feed :: "prefixc feeder" where
  "pp_Feed = scan_feed pp_step pp_finish pp_state"

subsection \<open>The line classifier\<close>

record linec =
  ln_line :: "byte list"
  ln_maxBytes :: nat
  ln_valid :: "byte list \<Rightarrow> bool"
  ln_state :: State


definition ln_step :: "linec \<Rightarrow> byte \<Rightarrow> linec outcome" where
  "ln_step c b =
     (if length (ln_line c) = ln_maxBytes c then Done (c\<lparr>ln_state := Mismatch\<rparr>)
      else if ln_line c \<noteq> [] \<and> last (ln_line c) = 0x0D \<and> b \<noteq> 0x0A then Done (c\<lparr>ln_state := Mismatch\<rparr>)
      else if (b < 0x20 \<and> b \<noteq> 0x0D \<and> b \<noteq> 0x0A) \<or> b = 0x7F then Done (c\<lparr>ln_state := Mismatch\<rparr>)
      else let line = ln_line c @ [b]; c = c\<lparr>ln_line := line\<rparr> in
        if b = 0x0A then
          (if length line < 2 \<or> line ! (length line - 2) \<noteq> 0x0D then Done (c\<lparr>ln_state := Mismatch\<rparr>)
           else if ln_valid c (take (length line - 2) line) then Done (c\<lparr>ln_state := Match\<rparr>)
           else Done (c\<lparr>ln_state := Mismatch\<rparr>))
        else Done c)"

definition ln_finish :: "linec \<Rightarrow> linec" where
  "ln_finish c = (if length (ln_line c) = ln_maxBytes c then c\<lparr>ln_state := Mismatch\<rparr> else c)"


subsection \<open>Text request lines\<close>








subsection \<open>STUN\<close>

definition stunHeaderBytes :: nat where "stunHeaderBytes = 20"

definition stunMagicCookie :: u32 where "stunMagicCookie = 0x2112a442"

definition validSTUNMessageType :: "u16 \<Rightarrow> bool" where
  "validSTUNMessageType messageType =
     (if messageType AND 0xc000 \<noteq> 0 then False
      else let verb = (messageType AND 0x000f) OR (drop_bit 1 (messageType AND 0x00e0)) OR (drop_bit 2 (messageType AND 0x3e00))
        in verb \<in> {0x001, 0x002, 0x003, 0x004, 0x006, 0x007, 0x008, 0x009, 0x00a, 0x00b, 0x00c})"

definition matchSTUNHeaderPrefix :: "byte list \<Rightarrow> State" where
  "matchSTUNHeaderPrefix data =
     (if length data = 0 then NeedMore
      else if data ! 0 AND 0xc0 \<noteq> 0 then Mismatch
      else if length data \<ge> 2 \<and> \<not> validSTUNMessageType (u16be data 0) then Mismatch
      else if length data \<ge> 4 \<and> u16be data 2 mod 4 \<noteq> 0 then Mismatch
      else if length data \<ge> 8 \<and> u32be data 4 \<noteq> stunMagicCookie then Mismatch
      else if length data < stunHeaderBytes then NeedMore
      else Match)"

subsection \<open>RDP\<close>

definition rdpConnectionRequestMinBytes :: nat where "rdpConnectionRequestMinBytes = 11"

definition validRDPConnectionRequestHeader :: "byte list \<Rightarrow> bool" where
  "validRDPConnectionRequestHeader header =
     (if length header \<noteq> rdpConnectionRequestMinBytes \<or> header ! 0 \<noteq> 3 \<or> header ! 1 \<noteq> 0 \<or>
         header ! 5 AND 0xf0 \<noteq> 0xe0 then False
      else let tpktLen = unat (u16be header 2); cotpHeaderBytes = unat (header ! 4) + 1 in
        if tpktLen < rdpConnectionRequestMinBytes \<or> cotpHeaderBytes < 7 \<or> cotpHeaderBytes > tpktLen - 4 then False
        else if u16be header 6 \<noteq> 0 then False
        else header ! 10 AND 0xf0 = 0)"

definition matchRDPConnectionRequestPrefix :: "byte list \<Rightarrow> State" where
  "matchRDPConnectionRequestPrefix data =
     (if length data = 0 then NeedMore
      else if length data = 1 \<and> data ! 0 \<noteq> 3 then Mismatch
      else if length data = 2 \<and> data ! 1 \<noteq> 0 then Mismatch
      else if length data = 4 \<and> unat (u16be data 2) < rdpConnectionRequestMinBytes then Mismatch
      else if length data = 5 \<and> data ! 4 < 6 then Mismatch
      else if length data = 6 \<and> data ! 5 AND 0xf0 \<noteq> 0xe0 then Mismatch
      else if length data < rdpConnectionRequestMinBytes then NeedMore
      else if validRDPConnectionRequestHeader data then Match
      else Mismatch)"

subsection \<open>SMB\<close>

definition smbOverTCPRequestMinBytes :: nat where "smbOverTCPRequestMinBytes = 24"

definition validSMBOverTCPRequestHeader :: "byte list \<Rightarrow> bool" where
  "validSMBOverTCPRequestHeader header =
     (if length header \<noteq> smbOverTCPRequestMinBytes then False
      else let payloadLen = unat (header ! 1 AND 0x01) * 65536 + unat (u16be header 2); protocolID = sub_slice header 4 8 in
        if protocolID = [0xff, 0x53, 0x4d, 0x42] then
          payloadLen \<ge> 32 \<and> header ! 8 = 0x72 \<and> header ! 13 AND 0x80 = 0
        else if protocolID = [0xfe, 0x53, 0x4d, 0x42] then
          payloadLen \<ge> 64 \<and> u16le header 8 = 64 \<and> u16le header 16 = 0 \<and> u32le header 20 AND 0x00000001 = 0
        else False)"

definition matchSMBOverTCPRequestPrefix :: "byte list \<Rightarrow> State" where
  "matchSMBOverTCPRequestPrefix data =
     (if length data = 0 then NeedMore
      else if data ! 0 \<noteq> 0 then Mismatch
      else if length data \<ge> 2 \<and> data ! 1 AND 0xfe \<noteq> 0 then Mismatch
      else if length data \<ge> 8 \<and> sub_slice data 4 8 \<noteq> [0xff, 0x53, 0x4d, 0x42] \<and> sub_slice data 4 8 \<noteq> [0xfe, 0x53, 0x4d, 0x42]
        then Mismatch
      else if length data < smbOverTCPRequestMinBytes then NeedMore
      else if validSMBOverTCPRequestHeader data then Match
      else Mismatch)"

subsection \<open>LDAP\<close>

definition ldapMessagePrefixMaxBytes :: nat where "ldapMessagePrefixMaxBytes = 16"

text \<open>The value, the offset after it and \<open>Match\<close>, or \<open>NeedMore\<close> or \<open>Mismatch\<close> with zeros.\<close>

definition parseBERDefiniteLength :: "byte list \<Rightarrow> nat \<Rightarrow> nat \<Rightarrow> nat \<times> nat \<times> State" where
  "parseBERDefiniteLength data offset maxLengthOctets =
     (if \<not> protocolHasBytes data offset 1 then (0, 0, NeedMore)
      else let first = data ! offset in
        if first < 0x80 then (unat first, offset + 1, Match)
        else if first = 0x80 \<or> first = 0xff then (0, 0, Mismatch)
        else let lengthOctets = unat (first AND 0x7f) in
          if lengthOctets = 0 \<or> lengthOctets > maxLengthOctets then (0, 0, Mismatch)
          else if \<not> protocolHasBytes data (offset + 1) lengthOctets then (0, 0, NeedMore)
          else if data ! (offset + 1) = 0 then (0, 0, Mismatch)
          else (foldl (\<lambda>value b. value * 256 + unat b) 0 (sub_slice data (offset + 1) (offset + 1 + lengthOctets)),
                offset + 1 + lengthOctets, Match))"

definition validLDAPMessageID :: "byte list \<Rightarrow> bool" where
  "validLDAPMessageID encoded =
     (if encoded = [] \<or> hd encoded AND 0x80 \<noteq> 0 then False else list_ex (\<lambda>b. b \<noteq> 0) encoded)"

definition validLDAPClientProtocolOpTag :: "byte \<Rightarrow> bool" where
  "validLDAPClientProtocolOpTag tag \<longleftrightarrow> tag \<in> {0x60, 0x42, 0x63, 0x66, 0x68, 0x4a, 0x6c, 0x6e, 0x50, 0x77}"

definition matchLDAPMessagePrefix :: "byte list \<Rightarrow> State" where
  "matchLDAPMessagePrefix data =
     (if length data = 0 then NeedMore
      else if data ! 0 \<noteq> 0x30 then Mismatch
      else case parseBERDefiniteLength data 1 4 of (messageLen, offset, state) \<Rightarrow>
        if state \<noteq> Match then state
        else if messageLen < 5 then Mismatch
        else if \<not> protocolHasBytes data offset 1 then NeedMore
        else if data ! offset \<noteq> 0x02 then Mismatch
        else case parseBERDefiniteLength data (offset + 1) 1 of (messageIDLen, valueOffset, state) \<Rightarrow>
          if state \<noteq> Match then state
          else if messageIDLen = 0 \<or> messageIDLen > 5 then Mismatch
          else if valueOffset + messageIDLen > offset + messageLen then Mismatch
          else if \<not> protocolHasBytes data valueOffset messageIDLen then NeedMore
          else if \<not> validLDAPMessageID (sub_slice data valueOffset (valueOffset + messageIDLen)) then Mismatch
          else let opOffset = valueOffset + messageIDLen in
            if opOffset \<ge> offset + messageLen then Mismatch
            else if \<not> protocolHasBytes data opOffset 1 then NeedMore
            else if validLDAPClientProtocolOpTag (data ! opOffset) then Match
            else Mismatch)"

subsection \<open>Cassandra\<close>

definition cassandraRequestHeaderBytes :: nat where "cassandraRequestHeaderBytes = 9"

definition validCassandraRequestVersion :: "byte \<Rightarrow> bool" where
  "validCassandraRequestVersion version \<longleftrightarrow> version = 3 \<or> version = 4 \<or> version = 5"

definition validCassandraRequestHeader :: "byte list \<Rightarrow> bool" where
  "validCassandraRequestHeader header =
     (if length header \<noteq> cassandraRequestHeaderBytes \<or> \<not> validCassandraRequestVersion (header ! 0) \<or>
         header ! 1 AND 0xf0 \<noteq> 0 then False
      else let bodyLen = u32be header 5 in
        if bodyLen > 2 ^ 31 - 1 then False
        else if header ! 4 = 0x01 then bodyLen \<ge> 2
        else if header ! 4 = 0x05 then bodyLen = 0
        else False)"

definition matchCassandraRequestHeaderPrefix :: "byte list \<Rightarrow> State" where
  "matchCassandraRequestHeaderPrefix data =
     (if length data = 0 then NeedMore
      else if length data \<ge> 1 \<and> \<not> validCassandraRequestVersion (data ! 0) then Mismatch
      else if length data \<ge> 2 \<and> data ! 1 AND 0xf0 \<noteq> 0 then Mismatch
      else if length data \<ge> 5 \<and> data ! 4 \<noteq> 0x01 \<and> data ! 4 \<noteq> 0x05 then Mismatch
      else if length data < cassandraRequestHeaderBytes then NeedMore
      else if validCassandraRequestHeader data then Match
      else Mismatch)"

subsection \<open>Memcached\<close>

datatype memcachedBinaryKeyMode = KeyOptional | KeyRequired | KeyForbidden

definition memcachedBinaryHeaderBytes :: nat where "memcachedBinaryHeaderBytes = 24"

text \<open>Key mode and the allowed lengths of the extras.\<close>

definition memcachedBinaryRequestOpcodeRules :: "byte \<Rightarrow> (memcachedBinaryKeyMode \<times> int \<times> int) option" where
  "memcachedBinaryRequestOpcodeRules opcode =
     (if opcode \<in> {0x00, 0x04, 0x09, 0x0c, 0x0d, 0x0e, 0x0f, 0x14, 0x19, 0x1a, 0x21, 0x22} then Some (KeyRequired, 0, -1)
      else if opcode \<in> {0x01, 0x02, 0x03, 0x11, 0x12, 0x13} then Some (KeyRequired, 8, -1)
      else if opcode \<in> {0x05, 0x06, 0x15, 0x16} then Some (KeyRequired, 20, -1)
      else if opcode \<in> {0x1c, 0x1d, 0x1e} then Some (KeyRequired, 4, -1)
      else if opcode \<in> {0x07, 0x0a, 0x0b, 0x17, 0x20} then Some (KeyForbidden, 0, -1)
      else if opcode \<in> {0x08, 0x18} then Some (KeyForbidden, 0, 4)
      else if opcode = 0x1b then Some (KeyForbidden, 4, -1)
      else if opcode = 0x10 then Some (KeyOptional, 0, -1)
      else None)"

definition knownMemcachedBinaryRequestOpcode :: "byte \<Rightarrow> bool" where
  "knownMemcachedBinaryRequestOpcode opcode \<longleftrightarrow> memcachedBinaryRequestOpcodeRules opcode \<noteq> None"

definition memcachedBinaryExtrasLengthOK :: "byte \<Rightarrow> int \<Rightarrow> int \<Rightarrow> bool" where
  "memcachedBinaryExtrasLengthOK got wantA wantB \<longleftrightarrow>
     int (unat got) = wantA \<or> (wantB \<ge> 0 \<and> int (unat got) = wantB)"

fun memcachedBinaryKeyLengthOK :: "memcachedBinaryKeyMode \<Rightarrow> u32 \<Rightarrow> bool" where
  "memcachedBinaryKeyLengthOK KeyRequired keyLen = (keyLen > 0)"
| "memcachedBinaryKeyLengthOK KeyForbidden keyLen = (keyLen = 0)"
| "memcachedBinaryKeyLengthOK KeyOptional keyLen = True"

definition validMemcachedBinaryHeader :: "byte list \<Rightarrow> bool" where
  "validMemcachedBinaryHeader header =
     (if length header \<noteq> memcachedBinaryHeaderBytes \<or> header ! 0 \<noteq> 0x80 \<or> header ! 5 \<noteq> 0 then False
      else case memcachedBinaryRequestOpcodeRules (header ! 1) of
        None \<Rightarrow> False
      | Some (keyMode, extrasA, extrasB) \<Rightarrow>
          if \<not> memcachedBinaryExtrasLengthOK (header ! 4) extrasA extrasB then False
          else let keyLen = ucast (u16be header 2); extrasLen = ucast (header ! 4); bodyLen = u32be header 8 in
            if bodyLen < keyLen + extrasLen then False
            else memcachedBinaryKeyLengthOK keyMode keyLen)"

definition matchMemcachedBinaryHeaderPrefix :: "byte list \<Rightarrow> State" where
  "matchMemcachedBinaryHeaderPrefix data =
     (if length data = 0 then NeedMore
      else if data ! 0 \<noteq> 0x80 then Mismatch
      else if length data \<ge> 2 \<and> \<not> knownMemcachedBinaryRequestOpcode (data ! 1) then Mismatch
      else if length data \<ge> 6 \<and> data ! 5 \<noteq> 0 then Mismatch
      else if length data < memcachedBinaryHeaderBytes then NeedMore
      else if validMemcachedBinaryHeader data then Match
      else Mismatch)"












subsection \<open>Both classifiers are byte scanners\<close>

definition pp_ok :: "prefixc \<Rightarrow> bool" where
  "pp_ok c \<longleftrightarrow> length (pp_buf c) \<le> pp_maxBytes c \<and> (\<forall>d. valid_state (pp_match c d)) \<and> valid_state (pp_state c)"

interpretation pp: byte_scanner pp_step pp_finish pp_state pp_ok "\<lambda>c. length (pp_buf c)" pp_maxBytes
  by unfold_locales
    (auto simp: pp_ok_def pp_step_def pp_finish_def Let_def split: if_splits)

definition ln_ok :: "linec \<Rightarrow> bool" where
  "ln_ok c \<longleftrightarrow> length (ln_line c) \<le> ln_maxBytes c \<and> valid_state (ln_state c)"

interpretation ln: byte_scanner ln_step ln_finish ln_state ln_ok "\<lambda>c. length (ln_line c)" ln_maxBytes
  by unfold_locales
    (auto simp: ln_ok_def ln_step_def ln_finish_def Let_def split: if_splits)

subsection \<open>What a prefix classifier matches\<close>

abbreviation pp_at where
  "pp_at n m buf \<equiv> \<lparr>pp_buf = buf, pp_maxBytes = n, pp_match = m, pp_state = NeedMore\<rparr>"

abbreviation pp_verdict where
  "pp_verdict \<equiv> scan_verdict pp_step pp_finish pp_state"

lemma pp_verdict_Nil: "pp_verdict (pp_at n m buf) [] = (if length buf = n then Mismatch else NeedMore)"
  by (simp add: scan_verdict_def pp_finish_def)

lemma pp_verdict_Cons:
  assumes "\<And>d. valid_state (m d)"
  shows "pp_verdict (pp_at n m buf) (b # p) =
    (if length buf = n then Mismatch
     else if m (buf @ [b]) = NeedMore then pp_verdict (pp_at n m (buf @ [b])) p else m (buf @ [b]))"
  using assms by (simp add: scan_verdict_def pp_step_def Let_def)

text \<open>It matches when the matcher matches a prefix within the bound and needed more on every shorter one.\<close>

lemma pp_verdict_Match:
  assumes v: "\<And>d. valid_state (m d)"
  shows "length buf \<le> n \<Longrightarrow> pp_verdict (pp_at n m buf) p = Match \<longleftrightarrow>
    (\<exists>k. 0 < k \<and> k \<le> length p \<and> length buf + k \<le> n \<and> m (buf @ take k p) = Match \<and>
      (\<forall>j. 0 < j \<and> j < k \<longrightarrow> m (buf @ take j p) = NeedMore))"
proof (induction p arbitrary: buf)
  case Nil
  then show ?case by (auto simp: pp_verdict_Nil)
next
  case (Cons b p)
  let ?P = "\<lambda>buf p k. 0 < k \<and> k \<le> length p \<and> length buf + k \<le> n \<and> m (buf @ take k p) = Match \<and>
      (\<forall>j. 0 < j \<and> j < k \<longrightarrow> m (buf @ take j p) = NeedMore)"
  show ?case
  proof (cases "length buf = n")
    case True
    then show ?thesis by (auto simp: pp_verdict_Cons [OF v])
  next
    case l: False
    show ?thesis
    proof (cases "m (buf @ [b]) = NeedMore")
      case True
      have "(\<exists>k. ?P (buf @ [b]) p k) \<longleftrightarrow> (\<exists>k. ?P buf (b # p) k)"
      proof
        assume "\<exists>k. ?P (buf @ [b]) p k"
        then obtain k where k: "?P (buf @ [b]) p k" ..
        have "m (buf @ take j (b # p)) = NeedMore" if "0 < j" "j < Suc k" for j
          using that k True by (cases j; cases "j = 1") auto
        with k have "?P buf (b # p) (Suc k)" by auto
        then show "\<exists>k. ?P buf (b # p) k" ..
      next
        assume "\<exists>k. ?P buf (b # p) k"
        then obtain k where k: "?P buf (b # p) k" ..
        with True have "k \<noteq> 1" by auto
        with k obtain i where i: "k = Suc i" "0 < i" by (cases k) auto
        have "m ((buf @ [b]) @ take j p) = NeedMore" if "0 < j" "j < i" for j
          using k [THEN conjunct2, THEN conjunct2, THEN conjunct2, THEN conjunct2, rule_format, of "Suc j"] that i by simp
        with k i have "?P (buf @ [b]) p i" by auto
        then show "\<exists>k. ?P (buf @ [b]) p k" ..
      qed
      with Cons.IH [of "buf @ [b]"] Cons.prems l True show ?thesis by (simp add: pp_verdict_Cons [OF v])
    next
      case False
      have "(\<exists>k. ?P buf (b # p) k) \<longleftrightarrow> m (buf @ [b]) = Match"
      proof
        assume "\<exists>k. ?P buf (b # p) k"
        then obtain k where k: "?P buf (b # p) k" ..
        have "k = 1"
        proof (rule ccontr)
          assume "k \<noteq> 1"
          with k have "m (buf @ take 1 (b # p)) = NeedMore" by auto
          with False show False by simp
        qed
        with k show "m (buf @ [b]) = Match" by simp
      next
        assume "m (buf @ [b]) = Match"
        with Cons.prems l have "?P buf (b # p) 1" by auto
        then show "\<exists>k. ?P buf (b # p) k" ..
      qed
      with False l show ?thesis by (simp add: pp_verdict_Cons [OF v])
    qed
  qed
qed

text \<open>A matcher whose decisions are final matches when it matches a prefix within the bound.\<close>

lemma stable_matcher:
  assumes v: "\<And>d. valid_state (m d)" and "m [] = NeedMore"
    and stable: "\<And>d q. m d \<noteq> NeedMore \<Longrightarrow> m (d @ q) = m d"
  shows "pp_verdict (pp_at n m []) p = Match \<longleftrightarrow> (\<exists>k \<le> n. m (take k p) = Match)"
proof
  assume "pp_verdict (pp_at n m []) p = Match"
  then show "\<exists>k \<le> n. m (take k p) = Match" by (auto simp: pp_verdict_Match [OF v])
next
  assume "\<exists>k \<le> n. m (take k p) = Match"
  then obtain h where h: "h \<le> n" "m (take h p) = Match" by blast
  define k where "k = (LEAST k. m (take k p) \<noteq> NeedMore)"
  have k: "m (take k p) \<noteq> NeedMore" unfolding k_def by (rule LeastI [of _ h]) (simp add: h)
  have kh: "k \<le> h" unfolding k_def by (rule Least_le) (simp add: h)
  have less: "m (take j p) = NeedMore" if "j < k" for j
    using not_less_Least [of j "\<lambda>k. m (take k p) \<noteq> NeedMore"] that unfolding k_def by simp
  have "take h p = take k p @ drop k (take h p)" using kh by (metis append_take_drop_id min.absorb1 take_take)
  with stable [OF k] h have M: "m (take k p) = Match" by metis
  have "0 < k" using k assms(2) by (cases k) simp_all
  have "k \<le> length p"
  proof (rule ccontr)
    assume "\<not> k \<le> length p"
    then have "m (take (length p) p) = NeedMore" by (intro less) simp
    with k \<open>\<not> k \<le> length p\<close> show False by simp
  qed
  with M \<open>0 < k\<close> kh h less show "pp_verdict (pp_at n m []) p = Match"
    by (auto simp: pp_verdict_Match [OF v] intro!: exI [of _ k])
qed

text \<open>A matcher of a header of fixed size whose early tests reject only headers that are not valid.\<close>

lemma fixed_header:
  assumes "\<And>d. valid_state (m d)" and "0 < n"
    and "\<And>d. length d < n \<Longrightarrow> m d \<noteq> Match"
    and "\<And>d. length d = n \<Longrightarrow> m d = Match \<longleftrightarrow> V d"
    and "\<And>d k. length d = n \<Longrightarrow> V d \<Longrightarrow> 0 < k \<Longrightarrow> k < n \<Longrightarrow> m (take k d) = NeedMore"
  shows "pp_verdict (pp_at n m []) p = Match \<longleftrightarrow> n \<le> length p \<and> V (take n p)"
proof
  assume "pp_verdict (pp_at n m []) p = Match"
  then obtain k where k: "k \<le> length p" "k \<le> n" "m (take k p) = Match"
    by (auto simp: pp_verdict_Match [OF assms(1)])
  then have "k = n" using assms(3) [of "take k p"] by (cases "k = n") auto
  with k assms(4) [of "take n p"] show "n \<le> length p \<and> V (take n p)" by simp
next
  assume n: "n \<le> length p \<and> V (take n p)"
  have "m (take j p) = NeedMore" if "0 < j" "j < n" for j
    using assms(5) [of "take n p" j] n that by (simp add: min.absorb1)
  with n assms(2,4) show "pp_verdict (pp_at n m []) p = Match"
    by (auto simp: pp_verdict_Match [OF assms(1)] intro!: exI [of _ n])
qed

subsection \<open>What a line classifier matches\<close>













subsection \<open>Headers of fixed size\<close>

lemma slice_take [simp]:
  "i + 1 < k \<Longrightarrow> u16be (take k d) i = u16be d i"
  "i + 3 < k \<Longrightarrow> u32be (take k d) i = u32be d i"
  "hi \<le> k \<Longrightarrow> sub_slice (take k d) lo hi = sub_slice d lo hi"
  by (simp_all add: u16be_def u32be_def sub_slice_def min.absorb1)

lemma matchers_valid:
  "valid_state (matchSTUNHeaderPrefix d)" "valid_state (matchRDPConnectionRequestPrefix d)"
  "valid_state (matchSMBOverTCPRequestPrefix d)" "valid_state (matchCassandraRequestHeaderPrefix d)"
  "valid_state (matchMemcachedBinaryHeaderPrefix d)"
  by (simp_all add: matchSTUNHeaderPrefix_def matchRDPConnectionRequestPrefix_def matchSMBOverTCPRequestPrefix_def
      matchCassandraRequestHeaderPrefix_def matchMemcachedBinaryHeaderPrefix_def)

lemma parseBER_valid: "parseBERDefiniteLength d off k = (v, next, st) \<Longrightarrow> valid_state st"
  by (auto simp: parseBERDefiniteLength_def Let_def split: if_splits)

lemma matchLDAP_valid: "valid_state (matchLDAPMessagePrefix d)"
proof -
  obtain messageLen offset st where 1: "parseBERDefiniteLength d 1 4 = (messageLen, offset, st)" by (rule prod_cases3)
  obtain idLen valueOffset st' where 2: "parseBERDefiniteLength d (offset + 1) 1 = (idLen, valueOffset, st')" by (rule prod_cases3)
  from parseBER_valid [OF 1] parseBER_valid [OF 2] show ?thesis
    unfolding matchLDAPMessagePrefix_def Let_def 1 2 prod.case by (intro valid_if valid_states) assumption+
qed

text \<open>A STUN header, without the order of the tests.\<close>

definition stun_header :: "byte list \<Rightarrow> bool" where
  "stun_header h \<longleftrightarrow> h ! 0 AND 0xc0 = 0 \<and> validSTUNMessageType (u16be h 0) \<and> u16be h 2 mod 4 = 0 \<and> u32be h 4 = stunMagicCookie"

lemma stun_Match: "pp_verdict (pp_at stunHeaderBytes matchSTUNHeaderPrefix []) p = Match \<longleftrightarrow>
    stunHeaderBytes \<le> length p \<and> stun_header (take stunHeaderBytes p)"
  by (rule fixed_header) (auto simp: matchers_valid matchSTUNHeaderPrefix_def stun_header_def stunHeaderBytes_def)

lemma rdp_Match: "pp_verdict (pp_at rdpConnectionRequestMinBytes matchRDPConnectionRequestPrefix []) p = Match \<longleftrightarrow>
    rdpConnectionRequestMinBytes \<le> length p \<and> validRDPConnectionRequestHeader (take rdpConnectionRequestMinBytes p)"
  by (rule fixed_header)
    (auto simp: matchers_valid matchRDPConnectionRequestPrefix_def validRDPConnectionRequestHeader_def Let_def
      rdpConnectionRequestMinBytes_def word_less_nat_alt split: if_splits)

definition smb_header :: "byte list \<Rightarrow> bool" where
  "smb_header h \<longleftrightarrow> h ! 0 = 0 \<and> h ! 1 AND 0xfe = 0 \<and> validSMBOverTCPRequestHeader h"

lemma smb_Match: "pp_verdict (pp_at smbOverTCPRequestMinBytes matchSMBOverTCPRequestPrefix []) p = Match \<longleftrightarrow>
    smbOverTCPRequestMinBytes \<le> length p \<and> smb_header (take smbOverTCPRequestMinBytes p)"
  by (rule fixed_header)
    (auto simp: matchers_valid matchSMBOverTCPRequestPrefix_def smb_header_def validSMBOverTCPRequestHeader_def Let_def
      smbOverTCPRequestMinBytes_def split: if_splits)

lemma cassandra_Match: "pp_verdict (pp_at cassandraRequestHeaderBytes matchCassandraRequestHeaderPrefix []) p = Match \<longleftrightarrow>
    cassandraRequestHeaderBytes \<le> length p \<and> validCassandraRequestHeader (take cassandraRequestHeaderBytes p)"
  by (rule fixed_header)
    (auto simp: matchers_valid matchCassandraRequestHeaderPrefix_def validCassandraRequestHeader_def Let_def
      cassandraRequestHeaderBytes_def split: if_splits)

lemma memcached_Match: "pp_verdict (pp_at memcachedBinaryHeaderBytes matchMemcachedBinaryHeaderPrefix []) p = Match \<longleftrightarrow>
    memcachedBinaryHeaderBytes \<le> length p \<and> validMemcachedBinaryHeader (take memcachedBinaryHeaderBytes p)"
  by (rule fixed_header)
    (auto simp: matchers_valid matchMemcachedBinaryHeaderPrefix_def validMemcachedBinaryHeader_def Let_def
      knownMemcachedBinaryRequestOpcode_def memcachedBinaryHeaderBytes_def split: if_splits option.splits)

subsection \<open>Text request lines\<close>








subsection \<open>LDAP messages\<close>

text \<open>A definite length in BER: one octet, or a count of at most \<open>k\<close> octets and the value without leading zero.\<close>

definition ber_length :: "nat \<Rightarrow> byte list \<Rightarrow> nat \<Rightarrow> bool" where
  "ber_length k enc v \<longleftrightarrow>
     (\<exists>b. enc = [b] \<and> b < 0x80 \<and> v = unat b) \<or>
     (\<exists>b os. enc = b # os \<and> 0x80 < b \<and> b \<noteq> 0xff \<and> length os = unat (b AND 0x7f) \<and> os \<noteq> [] \<and> length os \<le> k \<and>
        hd os \<noteq> 0 \<and> v = foldl (\<lambda>value b. value * 256 + unat b) 0 os)"

lemma sub_slice_append: "length pre = lo \<Longrightarrow> lo + length xs = hi \<Longrightarrow> sub_slice (pre @ xs @ r) lo hi = xs"
  by (auto simp: sub_slice_def)

lemma has_bytes_append: "protocolHasBytes (pre @ xs) (length pre) n \<longleftrightarrow> n \<le> length xs"
  by (simp add: protocolHasBytes_def)

lemma parseBER_at:
  assumes "ber_length k enc v"
  shows "parseBERDefiniteLength (pre @ enc @ r) (length pre) k = (v, length pre + length enc, Match)"
  using assms unfolding ber_length_def
proof (elim disjE exE conjE)
  fix b assume "enc = [b]" "b < 0x80" "v = unat b"
  then show ?thesis by (simp add: parseBERDefiniteLength_def protocolHasBytes_def Let_def)
next
  fix b os assume b: "enc = b # os" "0x80 < b" "b \<noteq> 0xff" "length os = unat (b AND 0x7f)" "os \<noteq> []" "length os \<le> k"
    "hd os \<noteq> 0" "v = foldl (\<lambda>value b. value * 256 + unat b) 0 os"
  have "\<not> b < 0x80" "b \<noteq> 0x80" using b(2) by auto
  moreover have "(pre @ b # os @ r) ! (length pre + 1) = hd os" using b(5) by (cases os) (simp_all add: nth_append)
  moreover have "sub_slice (pre @ b # os @ r) (length pre + 1) (length pre + 1 + length os) = os"
    using sub_slice_append [of "pre @ [b]" "length pre + 1" os _ r] by simp
  moreover have "protocolHasBytes (pre @ b # os @ r) (length pre) 1" "protocolHasBytes (pre @ b # os @ r) (length pre + 1) (length os)"
    using has_bytes_append [of "pre @ [b]" "os @ r" "length os"] by (simp_all add: protocolHasBytes_def)
  moreover have "0 < unat (b AND 0x7f)" using b(4,5) by (metis length_greater_0_conv)
  ultimately show ?thesis using b(3-8) unfolding b(1) by (simp add: parseBERDefiniteLength_def Let_def)
qed

lemma parseBER_Match:
  assumes "parseBERDefiniteLength d off k = (v, nx, Match)"
  shows "\<exists>enc r. drop off d = enc @ r \<and> off + length enc \<le> length d \<and> ber_length k enc v \<and> nx = off + length enc"
proof -
  have o: "off < length d" using assms
    by (auto simp: parseBERDefiniteLength_def protocolHasBytes_def split: if_splits)
  then have d: "drop off d = d ! off # drop (off + 1) d" by (simp add: Cons_nth_drop_Suc)
  have p1: "protocolHasBytes d off 1" using o by (simp add: protocolHasBytes_def)
  show ?thesis
  proof (cases "d ! off < 0x80")
    case True
    with assms p1 have "v = unat (d ! off)" "nx = off + 1" by (simp_all add: parseBERDefiniteLength_def Let_def)
    with True have "ber_length k [d ! off] v" "nx = off + length [d ! off]" by (simp_all add: ber_length_def)
    with d o show ?thesis by - (rule exI [of _ "[d ! off]"], rule exI [of _ "drop (off + 1) d"], simp)
  next
    case False
    let ?n = "unat (d ! off AND 0x7f)" let ?os = "take ?n (drop (off + 1) d)"
    from assms p1 False have c: "d ! off \<noteq> 0x80" "d ! off \<noteq> 0xff" "?n \<noteq> 0" "?n \<le> k"
        "protocolHasBytes d (off + 1) ?n" "d ! (off + 1) \<noteq> 0" "nx = off + 1 + ?n"
        "v = foldl (\<lambda>value b. value * 256 + unat b) 0 (sub_slice d (off + 1) (off + 1 + ?n))"
      by (auto simp: parseBERDefiniteLength_def Let_def split: if_splits)
    from c(5) have l: "off + 1 + ?n \<le> length d" "length ?os = ?n" by (auto simp: protocolHasBytes_def)
    have "hd ?os = d ! (off + 1)" using l c(3) by (simp add: hd_drop_conv_nth hd_conv_nth)
    moreover have "sub_slice d (off + 1) (off + 1 + ?n) = ?os" by (simp add: sub_slice_def drop_take)
    moreover have "0x80 < d ! off" using False c(1) by (simp add: order_le_less not_less)
    ultimately have "ber_length k (d ! off # ?os) v"
      using c l by (auto simp: ber_length_def)
    moreover have "drop off d = (d ! off # ?os) @ drop ?n (drop (off + 1) d)"
      unfolding d by (simp only: append_Cons append_take_drop_id)
    moreover have "off + length (d ! off # ?os) \<le> length d" "nx = off + length (d ! off # ?os)" using l c(7) by simp_all
    ultimately show ?thesis by blast
  qed
qed

lemma has_bytes_more: "protocolHasBytes d off n \<Longrightarrow> protocolHasBytes (d @ q) off n"
  by (auto simp: protocolHasBytes_def)

lemma has_bytes_nth: "protocolHasBytes d off n \<Longrightarrow> i < n \<Longrightarrow> (d @ q) ! (off + i) = d ! (off + i)"
  by (auto simp: protocolHasBytes_def nth_append)

lemma has_bytes_slice: "protocolHasBytes d off n \<Longrightarrow> sub_slice (d @ q) off (off + n) = sub_slice d off (off + n)"
  by (auto simp: protocolHasBytes_def sub_slice_def)

lemma parseBER_stable:
  assumes p: "parseBERDefiniteLength d off k = (v, nx, st)" and "st \<noteq> NeedMore"
  shows "parseBERDefiniteLength (d @ q) off k = (v, nx, st)"
proof -
  from assms have 1: "protocolHasBytes d off 1"
    by (auto simp: parseBERDefiniteLength_def split: if_splits)
  note o = has_bytes_more [OF 1, of q] has_bytes_nth [OF 1, of 0 q, simplified]
  let ?n = "unat (d ! off AND 0x7f)"
  consider "d ! off < 0x80 \<or> d ! off = 0x80 \<or> d ! off = 0xff \<or> ?n = 0 \<or> k < ?n"
    | "\<not> d ! off < 0x80" "d ! off \<noteq> 0x80" "d ! off \<noteq> 0xff" "?n \<noteq> 0" "\<not> k < ?n" by blast
  then show ?thesis
  proof cases
    case 1
    with p o \<open>protocolHasBytes d off 1\<close> show ?thesis by (auto simp: parseBERDefiniteLength_def Let_def)
  next
    case 2
    with p 1 assms(2) have n: "protocolHasBytes d (off + 1) ?n"
      by (auto simp: parseBERDefiniteLength_def Let_def split: if_splits)
    have "(d @ q) ! (off + 1) = d ! (off + 1)" using has_bytes_nth [OF n, of 0 q] 2(4) by simp
    with p 1 2 n o has_bytes_more [OF n, of q] has_bytes_slice [OF n, of q] show ?thesis
      by (auto simp: parseBERDefiniteLength_def Let_def split: if_splits)
  qed
qed

text \<open>
  The start of an LDAP request: a sequence of at least five octets that begins with a message
  identifier, positive and of one to five octets, followed within the sequence by the tag of a
  client request.
\<close>

definition ldap_request :: "byte list \<Rightarrow> bool" where
  "ldap_request p \<longleftrightarrow>
     (\<exists>enc messageLen enc' ident tag rest.
        p = 0x30 # enc @ 0x02 # enc' @ ident @ tag # rest \<and> ber_length 4 enc messageLen \<and> 5 \<le> messageLen \<and>
        ber_length 1 enc' (length ident) \<and> length ident \<le> 5 \<and> 1 + length enc' + length ident < messageLen \<and>
        validLDAPMessageID ident \<and> validLDAPClientProtocolOpTag tag)"

lemma matchLDAP_request:
  assumes "ldap_request p"
  shows "matchLDAPMessagePrefix p = Match"
proof -
  from assms obtain enc messageLen enc' ident tag rest where
    p: "p = 0x30 # enc @ 0x02 # enc' @ ident @ tag # rest" and l: "ber_length 4 enc messageLen" "5 \<le> messageLen"
      "ber_length 1 enc' (length ident)" "length ident \<le> 5" "1 + length enc' + length ident < messageLen"
      "validLDAPMessageID ident" "validLDAPClientProtocolOpTag tag" unfolding ldap_request_def by blast
  have n: "ident \<noteq> []" using l(6) by (auto simp: validLDAPMessageID_def)
  have 1: "parseBERDefiniteLength p 1 4 = (messageLen, 1 + length enc, Match)"
    using parseBER_at [OF l(1), of "[0x30]" "0x02 # enc' @ ident @ tag # rest"] by (simp add: p)
  have 2: "parseBERDefiniteLength p (1 + length enc + 1) 1 = (length ident, 1 + length enc + 1 + length enc', Match)"
    using parseBER_at [OF l(3), of "0x30 # enc @ [0x02]" "ident @ tag # rest"] by (simp add: p)
  have "sub_slice p (1 + length enc + 1 + length enc') (1 + length enc + 1 + length enc' + length ident) = ident"
    using sub_slice_append [of "0x30 # enc @ 0x02 # enc'" "1 + length enc + 1 + length enc'" ident _ "tag # rest"] by (simp add: p)
  moreover have "p ! (1 + length enc) = 0x02" by (simp add: p nth_append)
  moreover have "p ! (1 + length enc + 1 + length enc' + length ident) = tag" by (simp add: p nth_append)
  moreover have "protocolHasBytes p (1 + length enc) 1" "protocolHasBytes p (1 + length enc + 1 + length enc') (length ident)"
    "protocolHasBytes p (1 + length enc + 1 + length enc' + length ident) 1" "p ! 0 = 0x30" "p \<noteq> []"
    by (simp_all add: p protocolHasBytes_def)
  ultimately show ?thesis
    unfolding matchLDAPMessagePrefix_def 1 prod.case 2 Let_def using l n by simp
qed

lemma matchLDAP_Match:
  assumes "matchLDAPMessagePrefix p = Match"
  shows "ldap_request p"
proof -
  obtain messageLen offset st where 1: "parseBERDefiniteLength p 1 4 = (messageLen, offset, st)" by (rule prod_cases3)
  obtain n vo st' where 2: "parseBERDefiniteLength p (offset + 1) 1 = (n, vo, st')" by (rule prod_cases3)
  from assms have m: "p \<noteq> []" "p ! 0 = 0x30" "st = Match" "\<not> messageLen < 5" "protocolHasBytes p offset 1" "p ! offset = 0x02"
      "st' = Match" "n \<noteq> 0" "n \<le> 5" "protocolHasBytes p vo n" "validLDAPMessageID (sub_slice p vo (vo + n))"
      "vo + n < offset + messageLen" "protocolHasBytes p (vo + n) 1" "validLDAPClientProtocolOpTag (p ! (vo + n))"
    unfolding matchLDAPMessagePrefix_def 1 prod.case 2 Let_def by (simp_all split: if_splits)
  from parseBER_Match [OF 1 [unfolded m(3)]] obtain enc r where
    e: "drop 1 p = enc @ r" "1 + length enc \<le> length p" "ber_length 4 enc messageLen" "offset = 1 + length enc" by blast
  from parseBER_Match [OF 2 [unfolded m(7)]] obtain enc' r' where
    e': "drop (offset + 1) p = enc' @ r'" "offset + 1 + length enc' \<le> length p" "ber_length 1 enc' n" "vo = offset + 1 + length enc'"
    by blast
  have "p = 0x30 # drop 1 p" using m(1,2) by (cases p) auto
  then have p1: "p = 0x30 # enc @ r" using e(1) by simp
  have "r = drop offset p" using p1 e(4) by simp
  also have "\<dots> = 0x02 # drop (offset + 1) p"
    using m(5,6) Cons_nth_drop_Suc [of offset p] by (auto simp: protocolHasBytes_def)
  finally have p2: "p = 0x30 # enc @ 0x02 # enc' @ r'" using p1 e'(1) by simp
  let ?ident = "sub_slice p vo (vo + n)"
  have r': "r' = drop vo p" using p2 e(4) e'(4) by simp
  have "?ident = take n r'" by (simp add: r' sub_slice_def drop_take)
  moreover have ln: "length ?ident = n" using m(10) by (auto simp: sub_slice_def protocolHasBytes_def)
  moreover have "drop n r' = p ! (vo + n) # drop (Suc (vo + n)) p"
    using m(13) Cons_nth_drop_Suc [of "vo + n" p] by (auto simp: r' protocolHasBytes_def add.commute)
  ultimately have "r' = ?ident @ p ! (vo + n) # drop (Suc (vo + n)) p" by (metis append_take_drop_id)
  with p2 have "p = 0x30 # enc @ 0x02 # enc' @ ?ident @ p ! (vo + n) # drop (Suc (vo + n)) p" by metis
  moreover have "1 + length enc' + length ?ident < messageLen" using m(12) e'(4) ln by simp
  ultimately show ?thesis unfolding ldap_request_def
    using e(3) m(4) e'(3) ln m(9,11,14) by (metis not_less)
qed

lemma matchLDAP_stable:
  assumes "matchLDAPMessagePrefix d \<noteq> NeedMore"
  shows "matchLDAPMessagePrefix (d @ q) = matchLDAPMessagePrefix d"
proof -
  obtain messageLen offset st where 1: "parseBERDefiniteLength d 1 4 = (messageLen, offset, st)" by (rule prod_cases3)
  obtain n vo st' where 2: "parseBERDefiniteLength d (offset + 1) 1 = (n, vo, st')" by (rule prod_cases3)
  note u = matchLDAPMessagePrefix_def Let_def
  have ne: "d \<noteq> []" using assms by (auto simp: u)
  then have d0: "(d @ q) ! 0 = d ! 0" by (simp add: nth_append)
  show ?thesis
  proof (cases "d ! 0 = 0x30")
    case True
    then have "st \<noteq> NeedMore" using assms ne unfolding u 1 by auto
    note p1 = parseBER_stable [OF 1 this, of q]
    show ?thesis
    proof (cases "st = Match \<and> \<not> messageLen < 5")
      case st: True
      then have b: "protocolHasBytes d offset 1" using assms ne True unfolding u 1 by (auto split: if_splits)
      note b' = has_bytes_more [OF b, of q] has_bytes_nth [OF b, of 0 q, simplified]
      show ?thesis
      proof (cases "d ! offset = 0x02")
        case tag: True
        then have "st' \<noteq> NeedMore" using assms ne True st b unfolding u 1 prod.case 2 by auto
        note p2 = parseBER_stable [OF 2 this, of q]
        show ?thesis
        proof (cases "st' = Match \<and> n \<noteq> 0 \<and> n \<le> 5 \<and> vo + n \<le> offset + messageLen")
          case st2: True
          then have i: "protocolHasBytes d vo n"
            using assms ne True st b tag unfolding u 1 prod.case 2 by (auto split: if_splits)
          note i' = has_bytes_more [OF i, of q] has_bytes_slice [OF i, of q]
          have "protocolHasBytes d (vo + n) 1" if "validLDAPMessageID (sub_slice d vo (vo + n))" "vo + n < offset + messageLen"
            using assms ne True st b tag st2 i that unfolding u 1 prod.case 2 by (auto split: if_splits)
          then have "protocolHasBytes (d @ q) (vo + n) 1 \<and> (d @ q) ! (vo + n) = d ! (vo + n) \<and> protocolHasBytes d (vo + n) 1"
            if "validLDAPMessageID (sub_slice d vo (vo + n))" "vo + n < offset + messageLen"
            using that has_bytes_more [of d "vo + n" 1 q] has_bytes_nth [of d "vo + n" 1 0 q] by simp
          then show ?thesis using ne d0 True st b b' tag st2 i i' unfolding u 1 p1 prod.case 2 p2 by auto
        qed (use ne d0 True st b b' tag \<open>st' \<noteq> NeedMore\<close> in \<open>unfold u 1 p1 prod.case 2 p2, auto\<close>)
      qed (use ne d0 True st b b' in \<open>unfold u 1 p1 prod.case, auto\<close>)
    qed (use ne d0 True \<open>st \<noteq> NeedMore\<close> in \<open>unfold u 1 p1 prod.case, auto\<close>)
  qed (use ne d0 in \<open>auto simp: u\<close>)
qed

lemma ber_length_bound: "ber_length k enc v \<Longrightarrow> length enc \<le> k + 1"
  by (auto simp: ber_length_def)

lemma ldap_Match: "pp_verdict (pp_at ldapMessagePrefixMaxBytes matchLDAPMessagePrefix []) p = Match \<longleftrightarrow> ldap_request p"
proof -
  have "pp_verdict (pp_at ldapMessagePrefixMaxBytes matchLDAPMessagePrefix []) p = Match \<longleftrightarrow>
      (\<exists>k \<le> ldapMessagePrefixMaxBytes. matchLDAPMessagePrefix (take k p) = Match)"
    by (rule stable_matcher [OF matchLDAP_valid _ matchLDAP_stable]) (simp_all add: matchLDAPMessagePrefix_def)
  also have "\<dots> \<longleftrightarrow> ldap_request p"
  proof
    assume "\<exists>k \<le> ldapMessagePrefixMaxBytes. matchLDAPMessagePrefix (take k p) = Match"
    then obtain k where k: "matchLDAPMessagePrefix (take k p) = Match" by blast
    with matchLDAP_stable [of "take k p" "drop k p"] show "ldap_request p" by (intro matchLDAP_Match) simp
  next
    assume "ldap_request p"
    then obtain enc messageLen enc' ident tag rest where
      p: "p = 0x30 # enc @ 0x02 # enc' @ ident @ tag # rest" and l: "ber_length 4 enc messageLen" "5 \<le> messageLen"
        "ber_length 1 enc' (length ident)" "length ident \<le> 5" "1 + length enc' + length ident < messageLen"
        "validLDAPMessageID ident" "validLDAPClientProtocolOpTag tag" unfolding ldap_request_def by blast
    let ?h = "0x30 # enc @ 0x02 # enc' @ ident @ [tag]"
    have "ldap_request ?h" unfolding ldap_request_def using l by blast
    then have "matchLDAPMessagePrefix ?h = Match" by (rule matchLDAP_request)
    moreover have "take (length ?h) p = ?h" by (simp add: p)
    moreover have "length ?h \<le> ldapMessagePrefixMaxBytes"
      using ber_length_bound [OF l(1)] ber_length_bound [OF l(3)] l(4) by (simp add: ldapMessagePrefixMaxBytes_def)
    ultimately show "\<exists>k \<le> ldapMessagePrefixMaxBytes. matchLDAPMessagePrefix (take k p) = Match" by metis
  qed
  finally show ?thesis .
qed

subsection \<open>Properties\<close>

lemma pp_total: "pp_ok c \<Longrightarrow> scan_safe pp_step pp_state c p"
  by (rule pp.total_safe) (auto simp: pp_step_def pp_ok_def Let_def)


text \<open>
  A new prefix classifier, fed a stream, neither panics nor stays undecided beyond its bound, and
  matches the streams in \<open>L\<close>; the same for a line classifier and the streams that begin with a
  line in \<open>L\<close>.
\<close>

definition pp_recognizes :: "nat \<Rightarrow> (byte list \<Rightarrow> State) \<Rightarrow> (byte list \<Rightarrow> bool) \<Rightarrow> bool" where
  "pp_recognizes n m L \<longleftrightarrow>
     (\<forall>p. \<exists>s c. obind (newProtocolPrefixClassifier (int n) (Some m)) (\<lambda>c. pp_Feed c p) = Done (s, c) \<and>
        (s = Match \<longleftrightarrow> L p) \<and> (n \<le> length p \<longrightarrow> s \<noteq> NeedMore))"


lemma pp_recognizesI:
  assumes v: "\<And>d. valid_state (m d)" and L: "\<And>p. pp_verdict (pp_at n m []) p = Match \<longleftrightarrow> L p"
  shows "pp_recognizes n m L"
  unfolding pp_recognizes_def
proof
  fix p
  have ok: "pp_ok (pp_at n m [])" using v by (simp add: pp_ok_def)
  from pp.feed_verdict [OF ok pp_total [OF ok], of p] obtain c where
    f: "pp_Feed (pp_at n m []) p = Done (pp_verdict (pp_at n m []) p, c)" by (auto simp: pp_Feed_def)
  have "n \<le> length p \<longrightarrow> pp_verdict (pp_at n m []) p \<noteq> NeedMore"
    using classifier.decided [OF pp.scanner ok pp_total [OF ok], of p] by simp
  with f L show "\<exists>s c. obind (newProtocolPrefixClassifier (int n) (Some m)) (\<lambda>c. pp_Feed c p) = Done (s, c) \<and>
      (s = Match \<longleftrightarrow> L p) \<and> (n \<le> length p \<longrightarrow> s \<noteq> NeedMore)"
    by (simp add: newProtocolPrefixClassifier_def required_def)
qed


text \<open>
  C12. The binary classifiers match exactly the streams that begin with a valid header. For STUN,
  RDP, SMB, Cassandra and the memcached binary protocol the tests made on an incomplete header
  reject nothing that the complete header would pass; for LDAP the streams are those of the grammar
  \<open>ldap_request\<close>, and the sixteen inspected bytes always suffice. None of them panics, and each is
  decided once its bound has been read.
\<close>

theorem binary_headers_recognized:
  "pp_recognizes stunHeaderBytes matchSTUNHeaderPrefix (\<lambda>p. 20 \<le> length p \<and> stun_header (take 20 p)) \<and>
   pp_recognizes rdpConnectionRequestMinBytes matchRDPConnectionRequestPrefix
     (\<lambda>p. 11 \<le> length p \<and> validRDPConnectionRequestHeader (take 11 p)) \<and>
   pp_recognizes smbOverTCPRequestMinBytes matchSMBOverTCPRequestPrefix (\<lambda>p. 24 \<le> length p \<and> smb_header (take 24 p)) \<and>
   pp_recognizes cassandraRequestHeaderBytes matchCassandraRequestHeaderPrefix
     (\<lambda>p. 9 \<le> length p \<and> validCassandraRequestHeader (take 9 p)) \<and>
   pp_recognizes memcachedBinaryHeaderBytes matchMemcachedBinaryHeaderPrefix
     (\<lambda>p. 24 \<le> length p \<and> validMemcachedBinaryHeader (take 24 p)) \<and>
   pp_recognizes ldapMessagePrefixMaxBytes matchLDAPMessagePrefix ldap_request"
  using stun_Match rdp_Match smb_Match cassandra_Match memcached_Match ldap_Match matchers_valid matchLDAP_valid
  by (intro conjI pp_recognizesI)
    (simp_all add: stunHeaderBytes_def rdpConnectionRequestMinBytes_def smbOverTCPRequestMinBytes_def
      cassandraRequestHeaderBytes_def memcachedBinaryHeaderBytes_def)





end
