(* ===== verification/Protocols.thy ===== *)
theory Protocols
  imports WellKnown
begin

text \<open>
  \<^verbatim>\<open>src/sniffer/protocols.go\<close>: the classifiers for MQTT, PostgreSQL, MongoDB, Redis, the PROXY
  protocol, SOCKS 4 and 5 and DNS over TCP. The classifiers that are built from prefixes only
  (HTTP/2, AMQP, PROXY v1) are in the theory that assembles all classifiers.
\<close>

unbundle bit_operations_syntax

subsection \<open>MQTT\<close>







subsection \<open>Redis\<close>







subsection \<open>Headers of fixed size\<close>




















subsection \<open>SOCKS 5\<close>






subsection \<open>DNS over TCP\<close>

record dnsc =
  dc_maxMessageBytes :: nat
  dc_buf :: "byte list"
  dc_needBytes :: nat
  dc_state :: State

definition normalizeDNSOverTCPConfig :: "int \<Rightarrow> nat outcome" where
  "normalizeDNSOverTCPConfig maxMessageBytes =
     (if maxMessageBytes < 0 then Panic
      else if maxMessageBytes > 65535 then Panic
      else Done (if maxMessageBytes = 0 then 4096 else nat maxMessageBytes))"

definition newDNSOverTCPClassifier :: "nat \<Rightarrow> dnsc" where
  "newDNSOverTCPClassifier maxMessageBytes =
     \<lparr>dc_maxMessageBytes = maxMessageBytes, dc_buf = [], dc_needBytes = 2, dc_state = NeedMore\<rparr>"

definition dns_minSniffBufferSize :: "dnsc \<Rightarrow> nat" where
  "dns_minSniffBufferSize c = 2 + dc_maxMessageBytes c"

text \<open>
  The loop of \<open>skipDNSName\<close>. \<open>visited\<close> are the offsets seen before, all of them inside the message, so
  the loop ends; \<open>returnOffset\<close> is 0 until a pointer is followed.
\<close>

function skipDNSName_from :: "byte list \<Rightarrow> nat \<Rightarrow> nat \<Rightarrow> nat \<Rightarrow> nat set \<Rightarrow> nat option" where
  "skipDNSName_from message offset nameBytes returnOffset visited =
     (if \<not> protocolHasBytes message offset 1 then None
      else if offset \<in> visited then None
      else let visited = insert offset visited; len = message ! offset in
        if len AND 0xc0 = 0 then
          (if nameBytes + 1 > 255 then None
           else if len = 0 then Some (if returnOffset \<noteq> 0 then returnOffset else offset + 1)
           else if \<not> protocolHasBytes message (offset + 1) (unat len) then None
           else if nameBytes + 1 + unat len > 255 then None
           else skipDNSName_from message (offset + 1 + unat len) (nameBytes + 1 + unat len) returnOffset visited)
        else if len AND 0xc0 = 0xc0 then
          (if \<not> protocolHasBytes message offset 2 then None
           else let pointer = unat (u16be message offset AND 0x3fff) in
             if pointer \<ge> length message then None
             else skipDNSName_from message pointer nameBytes (if returnOffset = 0 then offset + 2 else returnOffset) visited)
        else None)"
  by pat_completeness auto
termination
proof (relation "measure (\<lambda>(message, offset, n, r, visited). card ({..< length message} - visited))", goal_cases)
  case 1
  then show ?case by simp
next
  case (2 message offset nameBytes returnOffset visited visited' len)
  then have "offset \<in> {..< length message}" by (auto simp: protocolHasBytes_def)
  with 2 show ?case by (auto simp: card_gt_0_iff intro!: diff_less)
next
  case (3 message offset nameBytes returnOffset visited visited' len pointer)
  then have "offset \<in> {..< length message}" by (auto simp: protocolHasBytes_def)
  with 3 show ?case by (auto simp: card_gt_0_iff intro!: diff_less)
qed

declare skipDNSName_from.simps [simp del]

definition skipDNSName :: "byte list \<Rightarrow> nat \<Rightarrow> nat option" where
  "skipDNSName message offset = skipDNSName_from message offset 0 0 {}"

fun dnsQuestions :: "byte list \<Rightarrow> nat \<Rightarrow> nat \<Rightarrow> bool" where
  "dnsQuestions message 0 offset \<longleftrightarrow> offset \<le> length message"
| "dnsQuestions message (Suc n) offset =
     (case skipDNSName message offset of
        None \<Rightarrow> False
      | Some offset \<Rightarrow>
          if \<not> protocolHasBytes message offset 4 then False
          else if u16be message offset = 0 \<or> u16be message (offset + 2) = 0 then False
          else dnsQuestions message n (offset + 4))"

definition validDNSOverTCPQuery :: "byte list \<Rightarrow> bool" where
  "validDNSOverTCPQuery message =
     (if length message < 12 then False
      else let flags = u16be message 2 in
        if flags AND 0x8000 \<noteq> 0 then False
        else if (drop_bit 11 flags) AND 0x0f > 5 then False
        else let questionCount = unat (u16be message 4) in
          if questionCount = 0 then False
          else dnsQuestions message questionCount 12)"

text \<open>What follows once the bytes are in the buffer.\<close>

definition dns_decide :: "dnsc \<Rightarrow> State \<times> dnsc" where
  "dns_decide c =
     (if length (dc_buf c) < 2 then (NeedMore, c)
      else let messageLen = unat (u16be (dc_buf c) 0) in
        if messageLen < 12 \<or> messageLen > dc_maxMessageBytes c then (Mismatch, c\<lparr>dc_state := Mismatch\<rparr>)
        else let c = c\<lparr>dc_needBytes := 2 + messageLen\<rparr> in
          if length (dc_buf c) < dc_needBytes c then (NeedMore, c)
          else let state = (if validDNSOverTCPQuery (sub_slice (dc_buf c) 2 (dc_needBytes c)) then Match else Mismatch)
            in (state, c\<lparr>dc_state := state\<rparr>))"

definition dns_Feed :: "dnsc feeder" where
  "dns_Feed c p =
     (if dc_state c \<noteq> NeedMore then Done (dc_state c, c)
      else let remaining = int (dns_minSniffBufferSize c) - int (length (dc_buf c)) in
        if p \<noteq> [] \<and> remaining \<le> 0 then Done (Mismatch, c\<lparr>dc_state := Mismatch\<rparr>)
        else Done (dns_decide (if p = [] then c else c\<lparr>dc_buf := dc_buf c @ take (nat remaining) p\<rparr>)))"

subsection \<open>The headers are byte scanners\<close>







lemma u32le_take [simp]: "i + 3 < k \<Longrightarrow> u32le (take k d) i = u32le d i"
  by (simp add: u32le_def)





subsection \<open>SOCKS 5 is a byte scanner\<close>









subsection \<open>MQTT connect packets\<close>

















subsection \<open>Redis requests\<close>




















subsection \<open>DNS over TCP keeps the contract of classifiers\<close>

text \<open>What the bytes read so far decide.\<close>

definition dns_verdict :: "nat \<Rightarrow> byte list \<Rightarrow> State" where
  "dns_verdict m d =
     (if length d < 2 then NeedMore
      else let n = unat (u16be d 0) in
        if n < 12 \<or> n > m then Mismatch
        else if length d < 2 + n then NeedMore
        else if validDNSOverTCPQuery (sub_slice d 2 (2 + n)) then Match else Mismatch)"

definition dns_ok :: "dnsc \<Rightarrow> bool" where
  "dns_ok c \<longleftrightarrow> valid_state (dc_state c) \<and>
     (dc_state c = NeedMore \<longrightarrow> dns_verdict (dc_maxMessageBytes c) (dc_buf c) = NeedMore)"

definition dnsc_verdict :: "dnsc \<Rightarrow> byte list \<Rightarrow> State" where
  "dnsc_verdict c p = (if dc_state c \<noteq> NeedMore then dc_state c else dns_verdict (dc_maxMessageBytes c) (dc_buf c @ p))"

lemma dns_verdict_valid: "valid_state (dns_verdict m d)"
  by (simp add: dns_verdict_def Let_def)

lemma dns_verdict_stable:
  assumes "dns_verdict m d \<noteq> NeedMore"
  shows "dns_verdict m (d @ q) = dns_verdict m d"
proof -
  let ?n = "unat (u16be d 0)"
  have 2: "2 \<le> length d" using assms by (auto simp: dns_verdict_def not_less split: if_splits)
  then have u: "u16be (d @ q) 0 = u16be d 0" by (auto simp: u16be_def nth_append)
  show ?thesis
  proof (cases "?n < 12 \<or> ?n > m")
    case True
    with 2 u show ?thesis by (simp add: dns_verdict_def Let_def)
  next
    case False
    with assms 2 have l: "2 + ?n \<le> length d" by (auto simp: dns_verdict_def Let_def not_less split: if_splits)
    then have "sub_slice (d @ q) 2 (2 + ?n) = sub_slice d 2 (2 + ?n)" by (simp add: sub_slice_def)
    with False 2 l u show ?thesis by (simp add: dns_verdict_def Let_def)
  qed
qed

lemma dns_verdict_bound: "dns_verdict m d = NeedMore \<Longrightarrow> length d < 2 + m"
  by (auto simp: dns_verdict_def Let_def split: if_splits)

lemma dns_verdict_take: "dns_verdict m (take (2 + m) d) = dns_verdict m d"
proof (cases "length d < 2 + m")
  case False
  then have "dns_verdict m (take (2 + m) d) \<noteq> NeedMore" using dns_verdict_bound [of m "take (2 + m) d"] by auto
  from dns_verdict_stable [OF this, of "drop (2 + m) d"] show ?thesis by simp
qed simp

lemma dns_decide_result:
  "\<exists>c'. dns_decide c = (dns_verdict (dc_maxMessageBytes c) (dc_buf c), c') \<and> dc_maxMessageBytes c' = dc_maxMessageBytes c \<and>
     dc_buf c' = dc_buf c \<and>
     (dc_state c = NeedMore \<longrightarrow> dc_state c' = dns_verdict (dc_maxMessageBytes c) (dc_buf c))"
  by (simp add: dns_decide_def dns_verdict_def Let_def)

lemma dns_Feed_more:
  assumes "dns_ok c" and n: "dc_state c = NeedMore"
  shows "\<exists>c'. dns_Feed c p = Done (dns_verdict (dc_maxMessageBytes c) (dc_buf c @ p), c') \<and>
    dc_state c' = dns_verdict (dc_maxMessageBytes c) (dc_buf c @ p) \<and> dc_maxMessageBytes c' = dc_maxMessageBytes c \<and>
    (dc_state c' = NeedMore \<longrightarrow> dc_buf c' = dc_buf c @ p)"
proof -
  let ?m = "dc_maxMessageBytes c" let ?d = "take (2 + ?m) (dc_buf c @ p)"
  have b: "length (dc_buf c) < 2 + ?m" using assms dns_verdict_bound by (auto simp: dns_ok_def)
  let ?r = "int (dns_minSniffBufferSize c) - int (length (dc_buf c))"
  define c1 where "c1 = (if p = [] then c else c\<lparr>dc_buf := dc_buf c @ take (nat ?r) p\<rparr>)"
  have r: "0 < ?r" "nat ?r = 2 + ?m - length (dc_buf c)" using b by (simp_all add: dns_minSniffBufferSize_def)
  have c1: "dc_buf c1 = ?d" "dc_maxMessageBytes c1 = ?m" "dc_state c1 = NeedMore"
    using b n unfolding c1_def r(2) by simp_all
  have f: "dns_Feed c p = Done (dns_decide c1)"
    using r(1) n unfolding dns_Feed_def c1_def Let_def by simp
  from dns_decide_result [of c1] obtain c' where
    d: "dns_decide c1 = (dns_verdict ?m ?d, c')" "dc_maxMessageBytes c' = ?m" "dc_buf c' = ?d" "dc_state c' = dns_verdict ?m ?d"
    unfolding c1 by blast
  have "dc_buf c' = dc_buf c @ p" if "dc_state c' = NeedMore"
  proof -
    have "length (dc_buf c @ p) < 2 + ?m" using that d(4) unfolding dns_verdict_take by (intro dns_verdict_bound) simp
    with d(3) show ?thesis by simp
  qed
  with d f show ?thesis unfolding dns_verdict_take by simp
qed

interpretation dns_tcp: classifier dns_Feed dns_ok "\<lambda>_ _. True" dnsc_verdict "\<lambda>c. int (dns_minSniffBufferSize c)"
proof
  fix c :: dnsc and p q :: "byte list"
  assume ok: "dns_ok c"
  show "\<exists>c'. dns_Feed c p = Done (dnsc_verdict c p, c') \<and> dns_ok c' \<and>
      int (dns_minSniffBufferSize c') = int (dns_minSniffBufferSize c) \<and>
      (\<forall>q. True \<longrightarrow> True \<and> dnsc_verdict c' q = dnsc_verdict c (p @ q))"
  proof (cases "dc_state c = NeedMore")
    case True
    from dns_Feed_more [OF ok True, of p] obtain c' where c':
        "dns_Feed c p = Done (dns_verdict (dc_maxMessageBytes c) (dc_buf c @ p), c')"
        "dc_state c' = dns_verdict (dc_maxMessageBytes c) (dc_buf c @ p)" "dc_maxMessageBytes c' = dc_maxMessageBytes c"
        "dc_state c' = NeedMore \<Longrightarrow> dc_buf c' = dc_buf c @ p" by blast
    have "dnsc_verdict c' q = dnsc_verdict c (p @ q)" for q
      using True c' dns_verdict_stable [of "dc_maxMessageBytes c" "dc_buf c @ p" q] by (auto simp: dnsc_verdict_def)
    moreover have "dns_ok c'" using c' dns_verdict_valid by (auto simp: dns_ok_def)
    ultimately show ?thesis using True c' by (simp add: dnsc_verdict_def dns_minSniffBufferSize_def)
  next
    case False
    with ok show ?thesis by (simp add: dns_Feed_def dnsc_verdict_def)
  qed
  show "valid_state (dnsc_verdict c p)" using ok by (simp add: dnsc_verdict_def dns_ok_def dns_verdict_valid)
  show "dnsc_verdict c (p @ q) = dnsc_verdict c p" if "dnsc_verdict c p \<noteq> NeedMore"
    using that dns_verdict_stable [of "dc_maxMessageBytes c" "dc_buf c @ p" q] by (auto simp: dnsc_verdict_def split: if_splits)
  show "dnsc_verdict c p \<noteq> NeedMore" if "int (dns_minSniffBufferSize c) \<le> int (length p)"
    using that dns_verdict_bound [of "dc_maxMessageBytes c" "dc_buf c @ p"] by (auto simp: dnsc_verdict_def dns_minSniffBufferSize_def)
qed simp_all

subsection \<open>Names in DNS messages\<close>

text \<open>
  The encoding of a name: \<open>dns_name m off n e h\<close> says that at offset \<open>off\<close> of the message \<open>m\<close> begins a
  name of \<open>n\<close> bytes that takes \<open>h\<close> labels and pointers to read, and that its encoding ends at \<open>e\<close>,
  which is after the first pointer if there is one.
\<close>

inductive dns_name :: "byte list \<Rightarrow> nat \<Rightarrow> nat \<Rightarrow> nat \<Rightarrow> nat \<Rightarrow> bool" where
  root: "off < length m \<Longrightarrow> m ! off = 0 \<Longrightarrow> dns_name m off 1 (off + 1) 0"
| label: "off < length m \<Longrightarrow> m ! off AND 0xc0 = 0 \<Longrightarrow> m ! off \<noteq> 0 \<Longrightarrow> off + 1 + unat (m ! off) \<le> length m \<Longrightarrow>
    dns_name m (off + 1 + unat (m ! off)) n e h \<Longrightarrow> dns_name m off (1 + unat (m ! off) + n) e (Suc h)"
| pointer: "off + 1 < length m \<Longrightarrow> m ! off AND 0xc0 = 0xc0 \<Longrightarrow> unat (u16be m off AND 0x3fff) < length m \<Longrightarrow>
    dns_name m (unat (u16be m off AND 0x3fff)) n e h \<Longrightarrow> dns_name m off n (off + 2) (Suc h)"

inductive_cases dns_nameE: "dns_name m off n e h"

lemma dns_name_unique:
  "dns_name m off n e h \<Longrightarrow> dns_name m off n' e' h' \<Longrightarrow> n' = n \<and> e' = e \<and> h' = h"
proof (induction arbitrary: n' e' h' rule: dns_name.induct)
  case (root off m)
  from root.prems show ?case by (rule dns_nameE) (use root.hyps in auto)
next
  case (label off m n e h)
  from label.prems show ?case
  proof (cases rule: dns_name.cases)
    case (label n2 h2)
    with label.IH [of n2 e' h2] show ?thesis by simp
  qed (use label.hyps(2,3) in auto)
next
  case (pointer off m n e h)
  from pointer.prems show ?case
  proof (cases rule: dns_name.cases)
    case (pointer e2 h2)
    with pointer.IH [of n' e2 h2] show ?thesis by simp
  qed (use pointer.hyps(2) in auto)
qed

lemma dns_name_end: "dns_name m off n e h \<Longrightarrow> 0 < e \<and> 0 < n"
  by (induction rule: dns_name.induct) auto

lemma skipDNSName_sound:
  "skipDNSName_from m off k r visited = Some x \<Longrightarrow> k \<le> 255 \<Longrightarrow>
     \<exists>n e h. dns_name m off n e h \<and> k + n \<le> 255 \<and> x = (if r \<noteq> 0 then r else e)"
proof (induction m off k r visited rule: skipDNSName_from.induct)
  case (1 m off k r visited)
  note s = "1.prems"(1) [unfolded skipDNSName_from.simps [of m off]]
  from s have o: "protocolHasBytes m off 1" "off \<notin> visited" by (auto split: if_splits)
  then have l: "off < length m" by (auto simp: protocolHasBytes_def)
  consider (root) "m ! off = 0" | (label) "m ! off AND 0xc0 = 0" "m ! off \<noteq> 0" | (pointer) "m ! off AND 0xc0 = 0xc0"
    using s by (auto simp: Let_def split: if_splits)
  then show ?case
  proof cases
    case root
    with s o have "k + 1 \<le> 255" "x = (if r \<noteq> 0 then r else off + 1)" by (auto simp: Let_def split: if_splits)
    with dns_name.root [OF l root] show ?thesis by blast
  next
    case label
    let ?off = "off + 1 + unat (m ! off)"
    from s o label have c: "\<not> k + 1 > 255" "protocolHasBytes m (off + 1) (unat (m ! off))" "\<not> k + 1 + unat (m ! off) > 255"
        "skipDNSName_from m ?off (k + 1 + unat (m ! off)) r (insert off visited) = Some x"
      by (auto simp: Let_def split: if_splits)
    from "1.IH"(1) [of "insert off visited" "m ! off"] o label c obtain n e h where
      n: "dns_name m ?off n e h" "k + 1 + unat (m ! off) + n \<le> 255" "x = (if r \<noteq> 0 then r else e)" by auto
    have "?off \<le> length m" using c(2) by (auto simp: protocolHasBytes_def)
    from dns_name.label [OF l label this n(1)] n(2,3) show ?thesis by (metis add.assoc add.left_commute)
  next
    case pointer
    then have z: "m ! off AND 0xc0 \<noteq> 0" by auto
    let ?off = "unat (u16be m off AND 0x3fff)"
    from s o pointer z have c: "protocolHasBytes m off 2" "?off < length m"
        "skipDNSName_from m ?off k (if r = 0 then off + 2 else r) (insert off visited) = Some x"
      by (auto simp: Let_def split: if_splits)
    from "1.IH"(2) [of "insert off visited" "m ! off" ?off] o pointer z c "1.prems"(2) obtain n e h where
      n: "dns_name m ?off n e h" "k + n \<le> 255" "x = (if (if r = 0 then off + 2 else r) \<noteq> 0 then if r = 0 then off + 2 else r else e)"
      by auto
    have "off + 1 < length m" using c(1) by (auto simp: protocolHasBytes_def)
    from dns_name.pointer [OF this pointer c(2) n(1)] n(2,3) show ?thesis by (intro exI conjI) auto
  qed
qed

text \<open>A name that has an encoding is read without meeting an offset twice: the heights decrease.\<close>

lemma skipDNSName_complete:
  "dns_name m off n e h \<Longrightarrow> k + n \<le> 255 \<Longrightarrow> (\<And>v. v \<in> visited \<Longrightarrow> \<exists>n' e' h'. dns_name m v n' e' h' \<and> h < h') \<Longrightarrow>
     skipDNSName_from m off k r visited = Some (if r \<noteq> 0 then r else e)"
proof (induction arbitrary: k r visited rule: dns_name.induct)
  case (root off m)
  have "off \<notin> visited" using root.prems(2) [of off] dns_name_unique [OF dns_name.root [OF root.hyps]] by blast
  with root show ?case by (simp add: skipDNSName_from.simps [of m off] protocolHasBytes_def Let_def)
next
  case (label off m n e h)
  note this_name = dns_name.label [OF label.hyps]
  have v: "off \<notin> visited" using label.prems(2) [of off] dns_name_unique [OF this_name] by blast
  have "skipDNSName_from m (off + 1 + unat (m ! off)) (k + 1 + unat (m ! off)) r (insert off visited) = Some (if r \<noteq> 0 then r else e)"
  proof (rule label.IH)
    show "\<exists>n' e' h'. dns_name m v n' e' h' \<and> h < h'" if "v \<in> insert off visited" for v
      using that this_name label.prems(2) [of v] by (metis Suc_lessD insertE lessI)
  qed (use label.prems(1) in simp)
  moreover have "protocolHasBytes m off 1" "protocolHasBytes m (off + 1) (unat (m ! off))"
    using label.hyps(1,4) by (auto simp: protocolHasBytes_def)
  ultimately show ?case using v label.hyps label.prems(1) dns_name_end [OF label.hyps(5)]
    by (simp add: skipDNSName_from.simps [of m off] Let_def)
next
  case (pointer off m n e h)
  note this_name = dns_name.pointer [OF pointer.hyps]
  have v: "off \<notin> visited" using pointer.prems(2) [of off] dns_name_unique [OF this_name] by blast
  have "skipDNSName_from m (unat (u16be m off AND 0x3fff)) k (if r = 0 then off + 2 else r) (insert off visited) =
      Some (if (if r = 0 then off + 2 else r) \<noteq> 0 then if r = 0 then off + 2 else r else e)"
  proof (rule pointer.IH)
    show "\<exists>n' e' h'. dns_name m v n' e' h' \<and> h < h'" if "v \<in> insert off visited" for v
      using that this_name pointer.prems(2) [of v] by (metis Suc_lessD insertE lessI)
  qed (use pointer.prems(1) in simp)
  moreover have "m ! off AND 0xc0 \<noteq> 0" using pointer.hyps(2) by auto
  moreover have "protocolHasBytes m off 1" "protocolHasBytes m off 2" using pointer.hyps(1) by (auto simp: protocolHasBytes_def)
  ultimately show ?case using v pointer.hyps
    by (simp add: skipDNSName_from.simps [of m off] Let_def del: u16be_unat)
qed

lemma skipDNSName_iff:
  "skipDNSName m off = Some x \<longleftrightarrow> (\<exists>n h. dns_name m off n x h \<and> n \<le> 255)"
proof
  assume "skipDNSName m off = Some x"
  from skipDNSName_sound [OF this [unfolded skipDNSName_def]] show "\<exists>n h. dns_name m off n x h \<and> n \<le> 255" by auto
next
  assume "\<exists>n h. dns_name m off n x h \<and> n \<le> 255"
  then obtain n h where "dns_name m off n x h" "n \<le> 255" by blast
  from skipDNSName_complete [OF this(1), of 0 "{}" 0] this(2) show "skipDNSName m off = Some x" by (simp add: skipDNSName_def)
qed

text \<open>A sequence of questions: each is a name, a non-zero type and a non-zero class.\<close>

fun dns_questions :: "byte list \<Rightarrow> nat \<Rightarrow> nat \<Rightarrow> bool" where
  "dns_questions m 0 off \<longleftrightarrow> off \<le> length m"
| "dns_questions m (Suc k) off \<longleftrightarrow>
     (\<exists>n e h. dns_name m off n e h \<and> n \<le> 255 \<and> e + 4 \<le> length m \<and> u16be m e \<noteq> 0 \<and> u16be m (e + 2) \<noteq> 0 \<and>
        dns_questions m k (e + 4))"

lemma dnsQuestions_iff: "dnsQuestions m k off \<longleftrightarrow> dns_questions m k off"
proof (induction k arbitrary: off)
  case (Suc k)
  show ?case
  proof (cases "skipDNSName m off")
    case None
    then have "\<not> (\<exists>n h x. dns_name m off n x h \<and> n \<le> 255)" using skipDNSName_iff [of m off] by auto
    with None show ?thesis by auto
  next
    case (Some x)
    then obtain n h where n: "dns_name m off n x h" "n \<le> 255" using skipDNSName_iff [of m off x] by auto
    have "dns_questions m (Suc k) off \<longleftrightarrow>
        x + 4 \<le> length m \<and> u16be m x \<noteq> 0 \<and> u16be m (x + 2) \<noteq> 0 \<and> dns_questions m k (x + 4)"
    proof
      assume "dns_questions m (Suc k) off"
      then obtain n' e h' where e: "dns_name m off n' e h'" "e + 4 \<le> length m" "u16be m e \<noteq> 0" "u16be m (e + 2) \<noteq> 0"
          "dns_questions m k (e + 4)" unfolding dns_questions.simps by blast
      have "e = x" using dns_name_unique [OF n(1) e(1)] by simp
      with e(2-5) show "x + 4 \<le> length m \<and> u16be m x \<noteq> 0 \<and> u16be m (x + 2) \<noteq> 0 \<and> dns_questions m k (x + 4)" by simp
    next
      assume "x + 4 \<le> length m \<and> u16be m x \<noteq> 0 \<and> u16be m (x + 2) \<noteq> 0 \<and> dns_questions m k (x + 4)"
      with n show "dns_questions m (Suc k) off" unfolding dns_questions.simps by blast
    qed
    moreover have "protocolHasBytes m x 4 \<longleftrightarrow> x + 4 \<le> length m" by (auto simp: protocolHasBytes_def)
    ultimately show ?thesis using Some Suc.IH by (simp del: dns_questions.simps)
  qed
qed simp

definition dns_query :: "nat \<Rightarrow> byte list \<Rightarrow> bool" where
  "dns_query limit p \<longleftrightarrow>
     (\<exists>hi lo message rest.
        p = hi # lo # message @ rest \<and> length message = unat hi * 256 + unat lo \<and> 12 \<le> length message \<and> length message \<le> limit \<and>
        u16be message 2 AND 0x8000 = 0 \<and> (drop_bit 11 (u16be message 2)) AND 0x0f \<le> 5 \<and>
        u16be message 4 \<noteq> 0 \<and> dns_questions message (unat (u16be message 4)) 12)"

lemma validDNS_iff:
  "validDNSOverTCPQuery m \<longleftrightarrow> 12 \<le> length m \<and> u16be m 2 AND 0x8000 = 0 \<and> (drop_bit 11 (u16be m 2)) AND 0x0f \<le> 5 \<and>
     u16be m 4 \<noteq> 0 \<and> dns_questions m (unat (u16be m 4)) 12"
  unfolding validDNSOverTCPQuery_def Let_def dnsQuestions_iff
  by (simp only: not_le unat_eq_zero split: if_split) (auto simp: not_less)

lemma dns_verdict_Match: "dns_verdict limit p = Match \<longleftrightarrow> dns_query limit p"
proof (cases "2 \<le> length p")
  case False
  then show ?thesis by (auto simp: dns_verdict_def dns_query_def)
next
  case True
  then obtain hi lo r where p: "p = hi # lo # r" by (cases p; cases "tl p") auto
  let ?n = "unat hi * 256 + unat lo"
  have u: "unat (u16be p 0) = ?n" by (simp add: p)
  have "dns_verdict limit p = Match \<longleftrightarrow> 12 \<le> ?n \<and> ?n \<le> limit \<and> ?n \<le> length r \<and> validDNSOverTCPQuery (take ?n r)"
  proof -
    have "sub_slice p 2 (2 + ?n) = take ?n r" by (simp add: p sub_slice_def)
    then show ?thesis unfolding dns_verdict_def Let_def u using True by (auto simp: p)
  qed
  also have "\<dots> \<longleftrightarrow> (\<exists>message rest. r = message @ rest \<and> length message = ?n \<and> 12 \<le> ?n \<and> ?n \<le> limit \<and> validDNSOverTCPQuery message)"
    (is "?l \<longleftrightarrow> ?r")
  proof
    assume l: ?l
    then have "r = take ?n r @ drop ?n r" "length (take ?n r) = ?n" by simp_all
    with l show ?r by blast
  qed auto
  also have "\<dots> \<longleftrightarrow> dns_query limit p"
  proof
    assume "\<exists>message rest. r = message @ rest \<and> length message = ?n \<and> 12 \<le> ?n \<and> ?n \<le> limit \<and> validDNSOverTCPQuery message"
    then obtain message rest where m: "r = message @ rest" "length message = ?n" "?n \<le> limit" "validDNSOverTCPQuery message" by blast
    have "p = hi # lo # message @ rest" using p m(1) by simp
    with m(2-4) show "dns_query limit p" unfolding dns_query_def validDNS_iff by (intro exI conjI) (assumption | simp)+
  next
    assume "dns_query limit p"
    then obtain hi' lo' message rest where m: "p = hi' # lo' # message @ rest" "length message = unat hi' * 256 + unat lo'"
        "12 \<le> length message" "length message \<le> limit" "validDNSOverTCPQuery message"
      unfolding dns_query_def validDNS_iff by blast
    have "hi' = hi" "lo' = lo" "r = message @ rest" using p m(1) by simp_all
    with m(2-5) show "\<exists>message rest. r = message @ rest \<and> length message = ?n \<and> 12 \<le> ?n \<and> ?n \<le> limit \<and> validDNSOverTCPQuery message"
      by (intro exI [of _ message] exI [of _ rest]) simp
  qed
  finally show ?thesis .
qed

subsection \<open>Properties\<close>

text \<open>
  A new classifier, fed a stream, neither panics nor stays undecided once \<open>n\<close> bytes have been read,
  and matches exactly the streams in \<open>L\<close>.
\<close>

definition recognizes :: "'c feeder \<Rightarrow> 'c \<Rightarrow> nat \<Rightarrow> (byte list \<Rightarrow> bool) \<Rightarrow> bool" where
  "recognizes fd c n L \<longleftrightarrow>
     (\<forall>p. \<exists>s c'. fd c p = Done (s, c') \<and> (s = Match \<longleftrightarrow> L p) \<and> (n \<le> length p \<longrightarrow> s \<noteq> NeedMore))"

context classifier
begin

lemma recognizesI:
  assumes "ok x" and "\<And>p. safe x p" and "minsize x \<le> int n" and "\<And>p. verdict x p = Match \<longleftrightarrow> L p"
  shows "recognizes fd x n L"
  unfolding recognizes_def
proof
  fix p
  from fd_verdict [OF assms(1,2), of p] obtain x' where "fd x p = Done (verdict x p, x')" by blast
  moreover have "n \<le> length p \<longrightarrow> verdict x p \<noteq> NeedMore" using decided [OF assms(1,2), of p] assms(3) by simp
  ultimately show "\<exists>s c'. fd x p = Done (s, c') \<and> (s = Match \<longleftrightarrow> L p) \<and> (n \<le> length p \<longrightarrow> s \<noteq> NeedMore)"
    using assms(4) by blast
qed

end





text \<open>
  C14. The DNS-over-TCP classifier matches exactly the streams that begin with a length-prefixed
  query whose length is within the configured limit and whose questions are well-formed names with
  a type and a class. Names are those of the inductive definition \<open>dns_name\<close>: finite chains of labels
  and compression pointers of at most 255 bytes. The reader of names ends on every message,
  because it visits no offset twice, and a chain with a cycle is rejected.
\<close>

theorem dns_query_recognized:
  assumes "0 \<le> limit" and "limit \<le> 65535"
  shows "\<exists>m. normalizeDNSOverTCPConfig limit = Done m \<and> m = (if limit = 0 then 4096 else nat limit) \<and>
    recognizes dns_Feed (newDNSOverTCPClassifier m) (2 + m) (dns_query m) \<and>
    (\<forall>message off x. skipDNSName message off = Some x \<longleftrightarrow> (\<exists>n h. dns_name message off n x h \<and> n \<le> 255))"
proof -
  have "recognizes dns_Feed (newDNSOverTCPClassifier m) (2 + m) (dns_query m)" for m
  proof (rule dns_tcp.recognizesI)
    show "dns_ok (newDNSOverTCPClassifier m)" by (simp add: dns_ok_def newDNSOverTCPClassifier_def dns_verdict_def)
    show "dnsc_verdict (newDNSOverTCPClassifier m) p = Match \<longleftrightarrow> dns_query m p" for p
      by (simp add: dnsc_verdict_def newDNSOverTCPClassifier_def dns_verdict_Match)
  qed (simp_all add: dns_minSniffBufferSize_def newDNSOverTCPClassifier_def)
  then show ?thesis using assms by (simp add: normalizeDNSOverTCPConfig_def skipDNSName_iff)
qed

theorem dns_query_recognized_witness:
  "recognizes dns_Feed (newDNSOverTCPClassifier 4096) (2 + 4096) (dns_query 4096)"
  using dns_query_recognized [of 0] by simp

end
