(* ===== verification/Spec2Isabelle.thy ===== *)
theory Spec2Isabelle
  imports RulePruning SnifferRules Sniff Protocols
begin

text \<open>
  Header.
\<close>

end
